(* ===== verification/Mde_Prelude.thy ===== *)
theory Mde_Prelude
  imports Complex_Main "HOL-Library.Word" "HOL-Library.Log_Nat"
begin

text \<open>
  Shared vocabulary of the development: the machine-integer types of the engine, the
  faults that stand for undefined behaviour of the C++ code, the bind of the fault
  monad, the collections of rewrite rules the component theories extend, and generic
  facts on lists and words that several components need.
\<close>

section \<open>Machine integers\<close>

type_synonym u8 = "8 word"
type_synonym u16 = "16 word"
type_synonym u32 = "32 word"
type_synonym u64 = "64 word"

section \<open>Faults\<close>

text \<open>
  An operation of the code that C++ leaves undefined is a value \<open>Inl f\<close> of the model, so
  that no theorem can silently speak about it.
  \<^item> \<open>Out_Of_Bounds\<close>: an unchecked \<open>operator[]\<close> past the end of an array;
  \<^item> \<open>Nan_Key\<close>: a NaN used as a key of a \<open>std::map\<close>, for which the comparison is no
    strict weak ordering;
  \<^item> \<open>Div_By_Zero\<close>: an integer \<open>%\<close> by zero;
  \<^item> \<open>Cast_Range\<close>: a floating value converted to an integer type it does not fit.
\<close>

datatype fault = Out_Of_Bounds | Nan_Key | Div_By_Zero | Cast_Range

type_synonym 'a res = "fault + 'a"

definition bind_res :: "'a res \<Rightarrow> ('a \<Rightarrow> 'b res) \<Rightarrow> 'b res" where
  [code_unfold]: "bind_res r k = (case r of Inl f \<Rightarrow> Inl f | Inr x \<Rightarrow> k x)"

definition ok :: "'a res \<Rightarrow> bool" where
  "ok r = (case r of Inl _ \<Rightarrow> False | Inr _ \<Rightarrow> True)"

named_theorems res_simps "rewrite rules of the fault monad"

lemma bind_res_Inl [simp, res_simps]: "bind_res (Inl f) k = Inl f"
  by (simp add: bind_res_def)

lemma bind_res_Inr [simp, res_simps]: "bind_res (Inr x) k = k x"
  by (simp add: bind_res_def)

lemma bind_res_eq_Inr_iff [res_simps]:
  "bind_res r k = Inr y \<longleftrightarrow> (\<exists>x. r = Inr x \<and> k x = Inr y)"
  by (cases r) simp_all

lemma bind_res_assoc: "bind_res (bind_res r k) h = bind_res r (\<lambda>x. bind_res (k x) h)"
  by (cases r) simp_all

lemma ok_Inl [simp, res_simps]: "\<not> ok (Inl f)"
  by (simp add: ok_def)

lemma ok_Inr [simp, res_simps]: "ok (Inr x)"
  by (simp add: ok_def)

lemma okE: "ok r \<Longrightarrow> (\<And>x. r = Inr x \<Longrightarrow> thesis) \<Longrightarrow> thesis"
  by (cases r) auto

text \<open>A loop whose body may fault: the first fault ends it.\<close>

fun fold_res :: "('x \<Rightarrow> 's \<Rightarrow> 's res) \<Rightarrow> 'x list \<Rightarrow> 's \<Rightarrow> 's res" where
  "fold_res f [] s = Inr s"
| "fold_res f (x # xs) s = bind_res (f x s) (fold_res f xs)"

lemma fold_res_append:
  "fold_res f (xs @ ys) s = bind_res (fold_res f xs s) (fold_res f ys)"
  by (induction xs arbitrary: s) (simp_all add: bind_res_def split: sum.split)

lemma fold_res_invariant:
  assumes "fold_res f xs s = Inr t" and "P s"
    and "\<And>x s t. x \<in> set xs \<Longrightarrow> P s \<Longrightarrow> f x s = Inr t \<Longrightarrow> P t"
  shows "P t"
  using assms by (induction xs arbitrary: s) (auto simp: res_simps)

lemma fold_res_pure:
  assumes "\<And>x s. x \<in> set xs \<Longrightarrow> f x s = Inr (g x s)"
  shows "fold_res f xs s = Inr (fold g xs s)"
  using assms by (induction xs arbitrary: s) simp_all

section \<open>Bounded windows on double-ended queues\<close>

text \<open>
  The engine keeps several rolling windows the same way: \<open>push_back\<close>, then one
  \<open>pop_front\<close> when the size exceeds the limit.
\<close>

definition last_n :: "nat \<Rightarrow> 'a list \<Rightarrow> 'a list" where
  "last_n n xs = drop (length xs - n) xs"

definition push_window :: "nat \<Rightarrow> 'a \<Rightarrow> 'a list \<Rightarrow> 'a list" where
  "push_window w x xs = (let ys = xs @ [x] in if length ys > w then tl ys else ys)"

lemma length_last_n [simp]: "length (last_n n xs) = min n (length xs)"
  by (simp add: last_n_def)

lemma last_n_all: "length xs \<le> n \<Longrightarrow> last_n n xs = xs"
  by (simp add: last_n_def)

lemma last_n_snoc: "last_n (Suc n) (xs @ [x]) = last_n n xs @ [x]"
  by (simp add: last_n_def)

lemma push_window_last_n: "push_window w x (last_n w xs) = last_n w (xs @ [x])"
proof (cases "length xs < w")
  case True
  then show ?thesis by (simp add: push_window_def last_n_def)
next
  case False
  then have len: "length xs - w + w = length xs" by simp
  have "tl (drop (length xs - w) xs @ [x]) = tl (drop (length xs - w) (xs @ [x]))"
    by simp
  also have "\<dots> = drop (Suc (length xs - w)) (xs @ [x])"
    by (simp only: tl_drop drop_Suc)
  also have "Suc (length xs - w) = Suc (length xs) - w"
    using False by simp
  finally show ?thesis using False by (simp add: push_window_def last_n_def)
qed

lemma length_push_window: "length xs \<le> w \<Longrightarrow> length (push_window w x xs) \<le> w"
  by (simp add: push_window_def Let_def)

lemma push_window_nonempty: "0 < w \<Longrightarrow> push_window w x xs \<noteq> []"
  by (cases xs) (auto simp: push_window_def Let_def)

lemma set_push_window: "set (push_window w x xs) \<subseteq> insert x (set xs)"
  by (cases xs) (auto simp: push_window_def Let_def)

section \<open>Association lists that stand for hash maps\<close>

text \<open>
  \<open>std::unordered_map\<close> as a list of pairs with distinct keys; the order of the list is the
  iteration order, which C++ leaves open. \<open>put\<close> overwrites in place or appends.
\<close>

fun put :: "'k \<Rightarrow> 'v \<Rightarrow> ('k \<times> 'v) list \<Rightarrow> ('k \<times> 'v) list" where
  "put k v [] = [(k, v)]"
| "put k v ((k', v') # m) = (if k = k' then (k, v) # m else (k', v') # put k v m)"

lemma map_of_put [simp]: "map_of (put k v m) = (map_of m)(k \<mapsto> v)"
  by (induction m) (auto simp: fun_eq_iff)

lemma keys_put [simp]: "fst ` set (put k v m) = insert k (fst ` set m)"
  by (induction k v m rule: put.induct) auto

lemma distinct_put: "distinct (map fst m) \<Longrightarrow> distinct (map fst (put k v m))"
proof (induction k v m rule: put.induct)
  case (2 k v k' v' m)
  then show ?case using keys_put [of k v m] by (auto simp del: keys_put)
qed simp

lemma put_known: "k \<in> fst ` set m \<Longrightarrow> map fst (put k v m) = map fst m"
  by (induction k v m rule: put.induct) auto

lemma put_fresh: "k \<notin> fst ` set m \<Longrightarrow> put k v m = m @ [(k, v)]"
  by (induction k v m rule: put.induct) auto

lemma put_put [simp]: "put k v (put k v' m) = put k v m"
  by (induction k v' m rule: put.induct) auto

end
