(* ===== verification/Ieee_Double.thy ===== *)
theory Ieee_Double
  imports Mde_Prelude
begin

text \<open>
  The C++ type \<open>double\<close>: IEEE 754 binary64, round to nearest, ties to even. A value is its
  64-bit pattern, so that what the recorder writes with \<open>memcpy\<close> is the value itself. The
  operations are executable on integers. Their meaning is stated once on the reals: on
  finite operands every operation is the exact real result rounded by \<open>srnd\<close>, which is
  monotone and the identity on representable values. The component theories use only
  these facts (collection \<open>ieee\<close>).
\<close>

section \<open>Patterns\<close>

datatype double = Double (bits: u64)

text \<open>
  The magnitude is the pattern without its sign bit. Among non-NaN values it grows with
  the absolute value, so comparison is comparison of signed magnitudes (\<open>d_key\<close>); the two
  zeros share the key 0.
\<close>

definition inf_mag :: int where
  "inf_mag = 0x7FF0000000000000"

definition d_sign :: "double \<Rightarrow> bool" where
  "d_sign d = (2 ^ 63 \<le> uint (bits d))"

definition d_mag :: "double \<Rightarrow> int" where
  "d_mag d = uint (bits d) mod 2 ^ 63"

definition mk_double :: "bool \<Rightarrow> int \<Rightarrow> double" where
  "mk_double s m = Double (word_of_int (if s then 2 ^ 63 + m else m))"

definition d_key :: "double \<Rightarrow> int" where
  "d_key d = (if d_sign d then - d_mag d else d_mag d)"

definition d_nan :: "double \<Rightarrow> bool" where
  "d_nan d = (inf_mag < d_mag d)"

definition d_inf :: "double \<Rightarrow> bool" where
  "d_inf d = (d_mag d = inf_mag)"

definition d_finite :: "double \<Rightarrow> bool" where
  "d_finite d = (d_mag d < inf_mag)"

definition NaN :: double where
  "NaN = mk_double False 0x7FF8000000000000"

definition infinity :: "bool \<Rightarrow> double" where
  "infinity s = mk_double s inf_mag"

named_theorems ieee "what the double operations compute, on keys and reals"

lemma d_mag_nonneg [simp]: "0 \<le> d_mag d"
  by (simp add: d_mag_def)

lemma d_mag_less: "d_mag d < 2 ^ 63"
  by (simp add: d_mag_def)

lemma uint_mk_double:
  assumes "0 \<le> m" "m < 2 ^ 63"
  shows "uint (bits (mk_double s m)) = (if s then 2 ^ 63 + m else m)"
  using assms by (simp add: mk_double_def uint_word_of_int)

lemma d_mag_mk [simp]: "0 \<le> m \<Longrightarrow> m < 2 ^ 63 \<Longrightarrow> d_mag (mk_double s m) = m"
  unfolding d_mag_def by (simp only: uint_mk_double) (auto simp: mod_add_self1)

lemma d_sign_mk [simp]: "0 \<le> m \<Longrightarrow> m < 2 ^ 63 \<Longrightarrow> d_sign (mk_double s m) = s"
  unfolding d_sign_def by (simp only: uint_mk_double) auto

lemma mk_double_collapse [simp]: "mk_double (d_sign d) (d_mag d) = d"
proof (cases d)
  case (Double w)
  have b: "uint w < 2 ^ 64" using uint_bounded [of w] by simp
  have "uint w div 2 ^ 63 = (if 2 ^ 63 \<le> uint w then 1 else 0)"
    using b by (auto simp: div_pos_pos_trivial intro: div_pos_geq [THEN trans])
  then have *: "(if 2 ^ 63 \<le> uint w then 2 ^ 63 + uint w mod 2 ^ 63 else uint w mod 2 ^ 63) = uint w"
    using div_mult_mod_eq [of "uint w" "2 ^ 63"] by (auto simp: algebra_simps split: if_splits)
  show ?thesis
    unfolding mk_double_def d_sign_def d_mag_def Double double.sel by (simp only: * word_of_int_uint)
qed

lemma d_key_mk [simp]:
  "0 \<le> m \<Longrightarrow> m < 2 ^ 63 \<Longrightarrow> d_key (mk_double s m) = (if s then - m else m)"
  by (simp add: d_key_def)

lemma abs_d_key [simp]: "\<bar>d_key d\<bar> = d_mag d"
  by (simp add: d_key_def)

lemma finite_not_nan [simp]: "d_finite d \<Longrightarrow> \<not> d_nan d"
  by (simp add: d_finite_def d_nan_def)

lemma finite_not_inf [simp]: "d_finite d \<Longrightarrow> \<not> d_inf d"
  by (simp add: d_finite_def d_inf_def)

lemma d_finite_iff: "d_finite d \<longleftrightarrow> \<not> d_nan d \<and> \<not> d_inf d"
  by (auto simp: d_finite_def d_nan_def d_inf_def)

lemma d_finite_key: "d_finite d \<longleftrightarrow> - inf_mag < d_key d \<and> d_key d < inf_mag"
proof -
  have "- inf_mag < d_mag d" by (rule less_le_trans [of _ 0]) (simp_all add: inf_mag_def)
  moreover have "- d_mag d < inf_mag" by (rule le_less_trans [of _ 0]) (simp_all add: inf_mag_def)
  ultimately show ?thesis by (auto simp: d_finite_def d_key_def)
qed

section \<open>Rounding on integers\<close>

text \<open>
  A finite magnitude is \<open>fst * 2 ^ snd\<close> of its significand and exponent. The rounding of
  \<open>n / d * 2 ^ e\<close> picks the exponent \<open>q\<close> of the last place, rounds the scaled quotient to
  even, and adds: a carry out of the significand moves into the exponent field by itself,
  and what reaches the top field is infinity.
\<close>

definition d_sig :: "int \<Rightarrow> int \<times> int" where
  "d_sig m = (let be = m div 2 ^ 52; f = m mod 2 ^ 52
              in if be = 0 then (f, - 1074) else (2 ^ 52 + f, be - 1075))"

definition div_even :: "int \<Rightarrow> int \<Rightarrow> int" where
  "div_even n d = (let q = n div d; r = n mod d
                   in if 2 * r < d \<or> (2 * r = d \<and> even q) then q else q + 1)"

definition ratio_exp :: "int \<Rightarrow> int \<Rightarrow> int" where
  "ratio_exp n d = (let a = bitlen n - bitlen d
                    in if d * 2 ^ nat a \<le> n * 2 ^ nat (- a) then a else a - 1)"

definition round_mag :: "int \<Rightarrow> int \<Rightarrow> int \<Rightarrow> int" where
  "round_mag n d e =
     (if n = 0 then 0
      else let q = max (ratio_exp n d + e) (- 1022) - 52; s = e - q
           in min inf_mag ((q + 1074) * 2 ^ 52 + div_even (n * 2 ^ nat s) (d * 2 ^ nat (- s))))"

section \<open>The rounding function on the reals\<close>

definition rhe :: "real \<Rightarrow> int" where
  "rhe x = (let f = \<lfloor>x\<rfloor> in if x - of_int f < 1 / 2 \<or> (x - of_int f = 1 / 2 \<and> even f) then f else f + 1)"

definition rnd :: "real \<Rightarrow> int" where
  "rnd x = (if x \<le> 0 then 0
            else let q = max \<lfloor>log 2 x\<rfloor> (- 1022) - 52
                 in (q + 1074) * 2 ^ 52 + rhe (x / 2 powi q))"

definition mag_val :: "int \<Rightarrow> real" where
  "mag_val m = of_int (fst (d_sig m)) * 2 powi snd (d_sig m)"

lemma rhe_of_int [simp]: "rhe (of_int n) = n"
  by (simp add: rhe_def)

lemma rhe_mono:
  assumes "x \<le> y" shows "rhe x \<le> rhe y"
proof -
  have "\<lfloor>x\<rfloor> \<le> \<lfloor>y\<rfloor>" using assms by (rule floor_mono)
  then consider "\<lfloor>x\<rfloor> = \<lfloor>y\<rfloor>" | "\<lfloor>x\<rfloor> + 1 \<le> \<lfloor>y\<rfloor>" by linarith
  then show ?thesis
  proof cases
    case 1
    then show ?thesis using assms by (auto simp: rhe_def Let_def)
  next
    case 2
    then show ?thesis by (auto simp: rhe_def Let_def)
  qed
qed

lemma rhe_le: "x \<le> of_int n \<Longrightarrow> rhe x \<le> n"
  using rhe_mono [of x "of_int n"] by simp

lemma rhe_ge: "of_int n \<le> x \<Longrightarrow> n \<le> rhe x"
  using rhe_mono [of "of_int n" x] by simp

lemma div_even_rhe:
  assumes "0 < d" shows "div_even n d = rhe (of_int n / of_int d)"
proof -
  let ?q = "n div d" and ?r = "n mod d"
  have fl: "\<lfloor>of_int n / of_int d :: real\<rfloor> = ?q"
    by (simp add: floor_divide_of_int_eq)
  have "real_of_int n = of_int ?q * of_int d + of_int ?r"
    by (metis div_mult_mod_eq of_int_add of_int_mult)
  then have fr: "of_int n / of_int d - of_int ?q = (of_int ?r / of_int d :: real)"
    using assms by (simp add: field_simps)
  have lt: "of_int ?r / of_int d < (1 / 2 :: real) \<longleftrightarrow> 2 * ?r < d"
  proof -
    have "of_int ?r / of_int d < (1 / 2 :: real) \<longleftrightarrow> real_of_int (2 * ?r) < of_int d"
      using assms by (simp add: field_simps)
    then show ?thesis by linarith
  qed
  have eq: "of_int ?r / of_int d = (1 / 2 :: real) \<longleftrightarrow> 2 * ?r = d"
  proof -
    have "of_int ?r / of_int d = (1 / 2 :: real) \<longleftrightarrow> real_of_int (2 * ?r) = of_int d"
      using assms by (auto simp: field_simps)
    then show ?thesis by linarith
  qed
  show ?thesis unfolding div_even_def rhe_def Let_def fl fr lt eq ..
qed

lemma bitlen_log:
  assumes "0 < n"
  shows "2 powi (bitlen n - 1) \<le> real_of_int n" "real_of_int n < 2 powi bitlen n"
proof -
  have "0 < bitlen n" using assms by (simp add: bitlen_nonneg bitlen_eq_zero_iff order.strict_iff_order)
  moreover have "2 ^ nat (bitlen n - 1) \<le> n \<and> n < 2 ^ nat (bitlen n)"
    using assms by (rule bitlen_bounds)
  ultimately show "2 powi (bitlen n - 1) \<le> real_of_int n" "real_of_int n < 2 powi bitlen n"
    by (simp_all add: power_int_def flip: of_int_le_iff of_int_less_iff)
qed

lemma powi_nat_quot: "(2::real) powi s = 2 ^ nat s / 2 ^ nat (- s)"
  by (simp add: power_int_def field_simps power_inverse)

lemma floor_log_eq:
  assumes "2 powi k \<le> x" "x < 2 powi (k + 1)"
  shows "\<lfloor>log 2 x\<rfloor> = k"
proof -
  have "0 < x" using assms(1) by (rule less_le_trans [rotated]) simp
  then have "2 powr of_int k \<le> x" "x < 2 powr (of_int k + 1)"
    using assms by (simp_all flip: powr_real_of_int' add: powr_add power_int_add)
  then show ?thesis
    using \<open>0 < x\<close> by (intro floor_unique) (simp_all add: le_log_iff log_less_iff)
qed

lemma powi_floor_log:
  assumes "0 < x"
  shows "2 powi \<lfloor>log 2 x\<rfloor> \<le> x" "x < 2 powi (\<lfloor>log 2 x\<rfloor> + 1)"
proof -
  have "2 powr of_int \<lfloor>log 2 x\<rfloor> \<le> x" "x < 2 powr (of_int \<lfloor>log 2 x\<rfloor> + 1)"
    using assms by (simp_all add: powr_le_iff less_powr_iff)
  then show "2 powi \<lfloor>log 2 x\<rfloor> \<le> x" "x < 2 powi (\<lfloor>log 2 x\<rfloor> + 1)"
    by (simp_all add: powr_add power_int_add flip: powr_real_of_int')
qed


lemma ratio_exp_log:
  assumes "0 < n" "0 < d"
  shows "ratio_exp n d = \<lfloor>log 2 (of_int n / of_int d)\<rfloor>"
proof -
  let ?a = "bitlen n - bitlen d" and ?x = "real_of_int n / of_int d"
  note bn = bitlen_log [OF assms(1)] and bd = bitlen_log [OF assms(2)]
  have d0: "0 < real_of_int d" using assms by simp
  have "2 powi (?a - 1) = 2 powi (bitlen n - 1) / (2::real) powi bitlen d"
    by (simp add: power_int_diff [symmetric] algebra_simps)
  also have "\<dots> \<le> ?x" using bn(1) bd(2) d0 assms by (intro frac_le) simp_all
  finally have lo: "2 powi (?a - 1) \<le> ?x" .
  have "?x < 2 powi bitlen n / 2 powi (bitlen d - 1)"
    using bn(2) bd(1) d0 by (intro frac_less) (use assms in simp_all)
  also have "\<dots> = 2 powi (?a + 1)" by (simp add: power_int_diff [symmetric] algebra_simps)
  finally have hi: "?x < 2 powi (?a + 1)" .
  have cond: "d * 2 ^ nat ?a \<le> n * 2 ^ nat (- ?a) \<longleftrightarrow> 2 powi ?a \<le> ?x"
  proof -
    have "2 powi ?a \<le> ?x \<longleftrightarrow> real_of_int (d * 2 ^ nat ?a) \<le> of_int (n * 2 ^ nat (- ?a))"
      using d0 unfolding powi_nat_quot [of ?a] by (simp add: field_simps)
    then show ?thesis by linarith
  qed
  show ?thesis
  proof (cases "2 powi ?a \<le> ?x")
    case True
    then have "ratio_exp n d = ?a" by (simp only: ratio_exp_def Let_def cond if_True)
    then show ?thesis using floor_log_eq [OF True hi] by simp
  next
    case False
    then have "ratio_exp n d = ?a - 1" by (simp only: ratio_exp_def Let_def cond if_False)
    then show ?thesis using floor_log_eq [OF lo] False by simp
  qed
qed

lemma round_mag_rnd:
  assumes "0 \<le> n" "0 < d"
  shows "round_mag n d e = min inf_mag (rnd (of_int n / of_int d * 2 powi e))"
proof (cases "n = 0")
  case True
  then show ?thesis by (simp add: round_mag_def rnd_def inf_mag_def)
next
  case False
  then have n: "0 < n" using assms by simp
  let ?x = "real_of_int n / of_int d" and ?q = "max (ratio_exp n d + e) (- 1022) - 52"
  have x: "0 < ?x" using n assms by simp
  have "log 2 (?x * 2 powi e) = log 2 ?x + of_int e"
    by (subst log_mult) (use x n assms(2) in \<open>simp_all flip: powr_real_of_int'\<close>)
  then have fl: "\<lfloor>log 2 (?x * 2 powi e)\<rfloor> = ratio_exp n d + e"
    by (simp add: ratio_exp_log [OF n assms(2)])
  have "real_of_int (n * 2 ^ nat (e - ?q)) / of_int (d * 2 ^ nat (- (e - ?q)))
      = ?x * (2 ^ nat (e - ?q) / 2 ^ nat (- (e - ?q)))" by simp
  also have "\<dots> = ?x * 2 powi (e - ?q)" by (simp only: powi_nat_quot)
  also have "\<dots> = ?x * 2 powi e / 2 powi ?q" by (simp add: power_int_diff)
  finally have quot: "div_even (n * 2 ^ nat (e - ?q)) (d * 2 ^ nat (- (e - ?q)))
      = rhe (?x * 2 powi e / 2 powi ?q)"
    using assms by (simp add: div_even_rhe)
  have "0 < ?x * 2 powi e" using x by (rule mult_pos_pos) simp
  then have pos: "\<not> ?x * 2 powi e \<le> 0" by (simp only: not_le)
  show ?thesis
    unfolding round_mag_def rnd_def Let_def fl quot using False pos by simp
qed

section \<open>Rounding is monotone and exact on representable values\<close>

lemma rnd_nonneg_arg: "x \<le> 0 \<Longrightarrow> rnd x = 0"
  by (simp add: rnd_def)

lemma rnd_nonneg: "0 \<le> rnd x"
proof (cases "x \<le> 0")
  case False
  let ?q = "max \<lfloor>log 2 x\<rfloor> (- 1022) - 52"
  have "0 \<le> rhe (x / 2 powi ?q)" using False by (intro rhe_ge) simp
  moreover have "0 \<le> (?q + 1074) * 2 ^ 52" by (intro mult_nonneg_nonneg) simp_all
  ultimately show ?thesis using False by (simp add: rnd_def Let_def)
qed (simp add: rnd_def)

lemma rnd_mono:
  assumes "x \<le> y" shows "rnd x \<le> rnd y"
proof (cases "x \<le> 0")
  case True
  then show ?thesis by (simp add: rnd_nonneg_arg rnd_nonneg)
next
  case False
  then have x: "0 < x" and y: "0 < y" using assms by simp_all
  let ?e = "\<lambda>z. max \<lfloor>log 2 z\<rfloor> (- 1022)"
  have r: "rnd z = (?e z + 1022) * 2 ^ 52 + rhe (z / 2 powi (?e z - 52))" if "0 < z" for z
    using that by (simp add: rnd_def Let_def)
  have "\<lfloor>log 2 x\<rfloor> \<le> \<lfloor>log 2 y\<rfloor>" using assms x by (intro floor_mono) simp
  then consider "?e x = ?e y" | "?e x < ?e y" by linarith
  then show ?thesis
  proof cases
    case 1
    have "x / 2 powi (?e y - 52) \<le> y / 2 powi (?e y - 52)"
      using assms by (intro divide_right_mono) simp_all
    then have "rhe (x / 2 powi (?e y - 52)) \<le> rhe (y / 2 powi (?e y - 52))" by (rule rhe_mono)
    then show ?thesis unfolding r [OF x] r [OF y] 1 by simp
  next
    case 2
    then have ey: "?e y = \<lfloor>log 2 y\<rfloor>" by linarith
    have "x < 2 powi (\<lfloor>log 2 x\<rfloor> + 1)" using x by (rule powi_floor_log)
    also have "\<dots> \<le> 2 powi (?e x + 1)" by (intro power_int_increasing) simp_all
    also have "\<dots> = 2 ^ 53 * 2 powi (?e x - 52)"
      by (simp add: power_int_add power_int_diff)
    finally have "x / 2 powi (?e x - 52) \<le> of_int (2 ^ 53)" by (simp add: field_simps)
    then have hx: "rhe (x / 2 powi (?e x - 52)) \<le> 2 ^ 53" by (rule rhe_le)
    have "2 ^ 52 * 2 powi (?e y - 52) = (2::real) powi \<lfloor>log 2 y\<rfloor>"
      unfolding ey by (simp add: power_int_diff)
    also have "\<dots> \<le> y" using y by (rule powi_floor_log)
    finally have "of_int (2 ^ 52) \<le> y / 2 powi (?e y - 52)" by (simp add: field_simps)
    then have hy: "2 ^ 52 \<le> rhe (y / 2 powi (?e y - 52))" by (rule rhe_ge)
    have "?e x + 1 \<le> ?e y" using 2 by linarith
    then have "(?e x + 1 + 1022) * 2 ^ 52 \<le> (?e y + 1022) * 2 ^ 52"
      by (intro mult_right_mono add_right_mono) simp_all
    then show ?thesis unfolding r [OF x] r [OF y] using hx hy by (simp add: algebra_simps)
  qed
qed


lemma rnd_scaled:
  assumes "0 < f" "f < 2 ^ 53" "- 1074 \<le> q" "2 ^ 52 \<le> f \<or> q = - 1074"
  shows "rnd (of_int f * 2 powi q) = (q + 1074) * 2 ^ 52 + f"
proof -
  let ?x = "real_of_int f * 2 powi q"
  have pos: "0 < ?x" using assms by simp
  have f53: "real_of_int f < 2 ^ 53"
    using assms(2) by (metis of_int_less_iff of_int_numeral of_int_power)
  have "?x < 2 ^ 53 * 2 powi q" using f53 by (intro mult_strict_right_mono) simp_all
  also have "\<dots> = 2 powi (q + 53)" by (simp add: power_int_add)
  finally have hi: "?x < 2 powi (q + 52 + 1)" by (simp add: algebra_simps)
  have "max \<lfloor>log 2 ?x\<rfloor> (- 1022) = q + 52"
  proof (cases "2 ^ 52 \<le> f")
    case True
    then have "2 ^ 52 \<le> real_of_int f" by (metis of_int_le_iff of_int_numeral of_int_power)
    have "2 powi (q + 52) = 2 ^ 52 * (2::real) powi q" by (simp add: power_int_add)
    also have "\<dots> \<le> ?x" using \<open>2 ^ 52 \<le> real_of_int f\<close> by (intro mult_right_mono) simp_all
    finally have "\<lfloor>log 2 ?x\<rfloor> = q + 52" using hi by (rule floor_log_eq)
    then show ?thesis using assms(3) by simp
  next
    case False
    with assms(4) have q: "q = - 1074" by simp
    have "2 powi \<lfloor>log 2 ?x\<rfloor> \<le> ?x" using pos by (rule powi_floor_log)
    also have "\<dots> < 2 powi (q + 53)" using hi by (simp add: algebra_simps)
    finally have "\<lfloor>log 2 ?x\<rfloor> < q + 53"
      by (metis linorder_not_le one_le_numeral power_int_increasing)
    then show ?thesis using q by simp
  qed
  then show ?thesis using pos by (simp add: rnd_def Let_def not_le [symmetric])
qed

lemma rnd_exact:
  assumes "0 \<le> m" shows "rnd (mag_val m) = m"
proof -
  let ?be = "m div 2 ^ 52" and ?f = "m mod 2 ^ 52"
  have be: "0 \<le> ?be" using assms by (simp add: pos_imp_zdiv_nonneg_iff)
  have f: "0 \<le> ?f" "?f < 2 ^ 52" by simp_all
  have m: "?be * 2 ^ 52 + ?f = m" by (rule div_mult_mod_eq)
  show ?thesis
  proof (cases "?be = 0")
    case True
    then have mf: "m = ?f" using m by simp
    show ?thesis
    proof (cases "?f = 0")
      case True
      then show ?thesis using mf by (simp add: mag_val_def d_sig_def rnd_def)
    next
      case False
      then have "rnd (of_int ?f * 2 powi (- 1074)) = ?f" using f by (subst rnd_scaled) simp_all
      then show ?thesis using True mf by (simp add: mag_val_def d_sig_def Let_def)
    qed
  next
    case False
    then have "rnd (of_int (2 ^ 52 + ?f) * 2 powi (?be - 1075)) = (?be - 1075 + 1074) * 2 ^ 52 + (2 ^ 52 + ?f)"
      using f be by (subst rnd_scaled) simp_all
    also have "\<dots> = ?be * 2 ^ 52 + ?f" by (simp add: algebra_simps)
    finally show ?thesis using False m by (simp add: mag_val_def d_sig_def Let_def)
  qed
qed

lemma mag_val_nonneg: "0 \<le> m \<Longrightarrow> 0 \<le> mag_val m"
  by (simp add: mag_val_def d_sig_def Let_def zero_le_mult_iff pos_mod_sign)

lemma mag_val_less_iff:
  assumes "0 \<le> m" "0 \<le> n" shows "mag_val m < mag_val n \<longleftrightarrow> m < n"
  using rnd_mono [of "mag_val m" "mag_val n"] rnd_mono [of "mag_val n" "mag_val m"]
    rnd_exact assms by (metis linorder_not_less order_antisym_conv order_less_imp_le)

lemma mag_val_0 [simp]: "mag_val 0 = 0"
  by (simp add: mag_val_def d_sig_def)


section \<open>The operations\<close>

definition d_add :: "double \<Rightarrow> double \<Rightarrow> double" where
  "d_add a b =
     (if d_nan a \<or> d_nan b then NaN
      else if d_inf a then (if d_inf b \<and> d_sign a \<noteq> d_sign b then NaN else a)
      else if d_inf b then b
      else if d_mag b = 0 then (if d_mag a = 0 then mk_double (d_sign a \<and> d_sign b) 0 else a)
      else if d_mag a = 0 then b
      else let (ma, ea) = d_sig (d_mag a); (mb, eb) = d_sig (d_mag b); e = min ea eb;
               s = (if d_sign a then - ma else ma) * 2 ^ nat (ea - e)
                 + (if d_sign b then - mb else mb) * 2 ^ nat (eb - e)
           in if s = 0 then mk_double (d_sign a \<and> d_sign b) 0
              else mk_double (s < 0) (round_mag \<bar>s\<bar> 1 e))"

definition d_mul :: "double \<Rightarrow> double \<Rightarrow> double" where
  "d_mul a b =
     (let s = (d_sign a \<noteq> d_sign b)
      in if d_nan a \<or> d_nan b then NaN
         else if d_inf a then (if d_mag b = 0 then NaN else infinity s)
         else if d_inf b then (if d_mag a = 0 then NaN else infinity s)
         else let (ma, ea) = d_sig (d_mag a); (mb, eb) = d_sig (d_mag b)
              in mk_double s (round_mag (ma * mb) 1 (ea + eb)))"

definition d_div :: "double \<Rightarrow> double \<Rightarrow> double" where
  "d_div a b =
     (let s = (d_sign a \<noteq> d_sign b)
      in if d_nan a \<or> d_nan b then NaN
         else if d_inf a then (if d_inf b then NaN else infinity s)
         else if d_inf b then mk_double s 0
         else if d_mag b = 0 then (if d_mag a = 0 then NaN else infinity s)
         else let (ma, ea) = d_sig (d_mag a); (mb, eb) = d_sig (d_mag b)
              in mk_double s (round_mag ma mb (ea - eb)))"

text \<open>Comparison is false whenever an operand is NaN; \<open>d_eq\<close> is the C++ \<open>==\<close>.\<close>

definition d_eq :: "double \<Rightarrow> double \<Rightarrow> bool" where
  "d_eq a b = (\<not> d_nan a \<and> \<not> d_nan b \<and> d_key a = d_key b)"

instantiation double :: "{zero, one, plus, minus, uminus, times, inverse, abs, ord}"
begin

definition zero_double :: double where "0 = mk_double False 0"
definition one_double :: double where "1 = mk_double False 0x3FF0000000000000"
definition plus_double :: "double \<Rightarrow> double \<Rightarrow> double" where "a + b = d_add a b"
definition uminus_double :: "double \<Rightarrow> double" where "- a = mk_double (\<not> d_sign a) (d_mag a)"
definition minus_double :: "double \<Rightarrow> double \<Rightarrow> double" where "a - b = d_add a (- (b::double))"
definition times_double :: "double \<Rightarrow> double \<Rightarrow> double" where "a * b = d_mul a b"
definition divide_double :: "double \<Rightarrow> double \<Rightarrow> double" where "a div b = d_div a b"
definition inverse_double :: "double \<Rightarrow> double" where "inverse a = d_div 1 a"
definition abs_double :: "double \<Rightarrow> double" where "\<bar>a\<bar> = mk_double False (d_mag a)"
definition less_eq_double :: "double \<Rightarrow> double \<Rightarrow> bool" where
  "a \<le> b = (\<not> d_nan a \<and> \<not> d_nan b \<and> d_key a \<le> d_key b)"
definition less_double :: "double \<Rightarrow> double \<Rightarrow> bool" where
  "a < b = (\<not> d_nan a \<and> \<not> d_nan b \<and> d_key a < d_key b)"

instance ..

end

text \<open>
  Conversions: an integer to \<open>double\<close> and a decimal literal \<open>n / d\<close> round to nearest; a
  \<open>double\<close> to an unsigned integer of \<open>w\<close> bits truncates, and is undefined out of range.
\<close>

definition double_of_int :: "int \<Rightarrow> double" where
  "double_of_int n = mk_double (n < 0) (round_mag \<bar>n\<bar> 1 0)"

definition double_lit :: "int \<Rightarrow> int \<Rightarrow> double" where
  "double_lit n d = mk_double (n < 0) (round_mag \<bar>n\<bar> d 0)"

definition d_trunc :: "double \<Rightarrow> int" where
  "d_trunc d = (let (m, e) = d_sig (d_mag d); t = m * 2 ^ nat e div 2 ^ nat (- e)
                in if d_sign d then - t else t)"

definition double_to_uint :: "nat \<Rightarrow> double \<Rightarrow> int res" where
  "double_to_uint w d =
     (if d_finite d \<and> 0 \<le> d_trunc d \<and> d_trunc d < 2 ^ w then Inr (d_trunc d) else Inl Cast_Range)"


section \<open>What the operations compute\<close>

definition d_val :: "double \<Rightarrow> real" where
  "d_val d = (if d_sign d then - mag_val (d_mag d) else mag_val (d_mag d))"

definition srnd :: "real \<Rightarrow> int" where
  "srnd x = (if x < 0 then - min inf_mag (rnd (- x)) else min inf_mag (rnd x))"

lemma rnd_0 [simp]: "rnd 0 = 0"
  by (simp add: rnd_def)

lemma min_inf_rnd: "0 \<le> min inf_mag (rnd x)" "min inf_mag (rnd x) < 2 ^ 63"
  using rnd_nonneg [of x] by (simp_all add: inf_mag_def)

lemma srnd_mono: assumes "x \<le> y" shows "srnd x \<le> srnd y"
proof -
  have "0 \<le> inf_mag" by (simp add: inf_mag_def)
  then show ?thesis
    using rnd_mono [of x y] rnd_mono [of "- y" "- x"] rnd_nonneg [of y] rnd_nonneg [of "- x"] assms
    by (auto simp: srnd_def)
qed

lemma srnd_minus: "srnd (- x) = - srnd x"
  by (cases "x = 0") (auto simp: srnd_def rnd_def inf_mag_def)

lemma srnd_0 [simp]: "srnd 0 = 0"
  by (simp add: srnd_def rnd_def inf_mag_def)

lemma srnd_bounds: "- inf_mag \<le> srnd x" "srnd x \<le> inf_mag"
  using rnd_nonneg [of x] rnd_nonneg [of "- x"]
  by (auto simp: srnd_def inf_mag_def min_def)

lemma srnd_d_val: assumes "d_finite d" shows "srnd (d_val d) = d_key d"
proof -
  have m: "0 \<le> mag_val (d_mag d)" by (simp add: mag_val_nonneg)
  have r: "min inf_mag (rnd (mag_val (d_mag d))) = d_mag d"
    using assms by (simp add: rnd_exact d_finite_def)
  show ?thesis
  proof (cases "mag_val (d_mag d) = 0")
    case True
    then have "rnd (mag_val (d_mag d)) = 0" by (simp add: rnd_def)
    then have "d_mag d = 0" by (simp add: rnd_exact)
    with True show ?thesis by (simp add: d_val_def d_key_def)
  next
    case False
    with m r show ?thesis by (auto simp: srnd_def d_val_def d_key_def)
  qed
qed

lemma d_val_less_iff: "d_val a < d_val b \<longleftrightarrow> d_key a < d_key b"
proof -
  have "0 \<le> mag_val (d_mag c) \<and> (mag_val (d_mag c) = 0 \<longleftrightarrow> d_mag c = 0)" for c
    using mag_val_less_iff [of 0 "d_mag c"] mag_val_nonneg [of "d_mag c"] d_mag_nonneg [of c]
    by (auto simp: order.order_iff_strict)
  from this [of a] this [of b] show ?thesis
    using mag_val_less_iff [of "d_mag a" "d_mag b"] mag_val_less_iff [of "d_mag b" "d_mag a"]
      d_mag_nonneg [of a] d_mag_nonneg [of b]
    unfolding d_val_def d_key_def by (auto simp del: d_mag_nonneg)
qed

lemma d_val_le_iff: "d_val a \<le> d_val b \<longleftrightarrow> d_key a \<le> d_key b"
  using d_val_less_iff [of b a] by linarith

lemma d_val_eq_0_iff [simp]: "d_val d = 0 \<longleftrightarrow> d_mag d = 0"
proof -
  have "d_val (mk_double False 0) = 0" by (simp add: d_val_def)
  then show ?thesis using d_val_less_iff [of d "mk_double False 0"] d_val_less_iff [of "mk_double False 0" d]
    by (auto simp: d_key_def split: if_splits)
qed

lemma d_sig_val: "of_int (fst (d_sig m)) * 2 powi snd (d_sig m) = mag_val m"
  by (simp add: mag_val_def)

lemma d_sig_nonneg: "0 \<le> m \<Longrightarrow> 0 \<le> fst (d_sig m)"
  by (simp add: d_sig_def Let_def)

lemma d_sig_pos: assumes "0 < m" shows "0 < fst (d_sig m)"
proof -
  have "0 < mag_val m" using mag_val_less_iff [of 0 m] assms by simp
  then have "fst (d_sig m) \<noteq> 0" by (auto simp: mag_val_def)
  with d_sig_nonneg [of m] assms show ?thesis by simp
qed

lemma mk_double_finite: "0 \<le> m \<Longrightarrow> m \<le> inf_mag \<Longrightarrow> \<not> d_nan (mk_double s m)"
  by (simp add: d_nan_def inf_mag_def)

lemma shift_real: "(2::real) ^ nat (ea - e) = 2 powi ea / 2 powi e" if "e \<le> ea"
proof -
  have "(2::real) ^ nat (ea - e) = 2 powi (ea - e)" using that by (simp add: power_int_def)
  then show ?thesis by (simp add: power_int_diff)
qed

lemma d_mag_val_zero: "d_mag d = 0 \<Longrightarrow> d_val d = 0" "d_mag d = 0 \<Longrightarrow> d_key d = 0"
  by (simp_all add: d_val_def mag_val_def d_sig_def d_key_def)

lemma d_add_key_zero:
  assumes "d_finite a" "d_finite b" "d_mag a = 0 \<or> d_mag b = 0"
  shows "d_key (d_add a b) = srnd (d_val a + d_val b) \<and> \<not> d_nan (d_add a b)"
proof (cases "d_mag b = 0")
  case True
  then have "d_add a b = (if d_mag a = 0 then mk_double (d_sign a \<and> d_sign b) 0 else a)"
    using assms by (simp add: d_add_def)
  then have "d_key (d_add a b) = d_key a" "\<not> d_nan (d_add a b)"
    using finite_not_nan [OF assms(1)] by (simp_all add: d_mag_val_zero d_nan_def inf_mag_def)
  then show ?thesis using assms(1) True by (simp add: srnd_d_val d_mag_val_zero)
next
  case False
  then have a: "d_mag a = 0" using assms(3) by simp
  have "d_add a b = b" using False a assms by (simp add: d_add_def)
  moreover have "srnd (d_val a + d_val b) = d_key b"
    unfolding d_mag_val_zero(1) [OF a] by (simp add: srnd_d_val assms(2))
  ultimately show ?thesis using assms(2) by simp
qed

lemma d_add_key:
  assumes "d_finite a" "d_finite b"
  shows "d_key (d_add a b) = srnd (d_val a + d_val b) \<and> \<not> d_nan (d_add a b)"
proof (cases "d_mag a = 0 \<or> d_mag b = 0")
  case True
  then show ?thesis using assms by (intro d_add_key_zero)
next
  case nonzero: False
  obtain ma ea where sa: "d_sig (d_mag a) = (ma, ea)" by fastforce
  obtain mb eb where sb: "d_sig (d_mag b) = (mb, eb)" by fastforce
  define e where "e = min ea eb"
  define s where "s = (if d_sign a then - ma else ma) * 2 ^ nat (ea - e)
          + (if d_sign b then - mb else mb) * 2 ^ nat (eb - e)"
  have va: "d_val a = of_int (if d_sign a then - ma else ma) * 2 powi ea"
    and vb: "d_val b = of_int (if d_sign b then - mb else mb) * 2 powi eb"
    using d_sig_val [of "d_mag a"] d_sig_val [of "d_mag b"] by (simp_all add: d_val_def sa sb)
  have e: "e \<le> ea" "e \<le> eb" by (simp_all add: e_def)
  have v: "d_val a + d_val b = of_int s * 2 powi e"
    unfolding va vb s_def by (simp add: shift_real e algebra_simps)
  have d: "d_add a b = (if s = 0 then mk_double (d_sign a \<and> d_sign b) 0
      else mk_double (s < 0) (round_mag \<bar>s\<bar> 1 e))"
    using assms nonzero by (simp add: d_add_def sa sb Let_def s_def e_def)
  have r: "round_mag \<bar>s\<bar> 1 e = min inf_mag (rnd \<bar>d_val a + d_val b\<bar>)"
    unfolding v by (subst round_mag_rnd) (simp_all add: abs_mult)
  have p2: "\<not> (2::real) powi e < 0" by (simp add: not_less)
  have sg: "s < 0 \<longleftrightarrow> d_val a + d_val b < 0" "s = 0 \<longleftrightarrow> d_val a + d_val b = 0"
    using p2 unfolding v by (auto simp: mult_less_0_iff)
  show ?thesis
    unfolding d sg r using min_inf_rnd [of "\<bar>d_val a + d_val b\<bar>"]
    by (auto simp: srnd_def d_nan_def inf_mag_def)
qed


lemma d_mul_key:
  assumes "d_finite a" "d_finite b"
  shows "d_key (d_mul a b) = srnd (d_val a * d_val b) \<and> \<not> d_nan (d_mul a b)"
proof -
  obtain ma ea where sa: "d_sig (d_mag a) = (ma, ea)" by fastforce
  obtain mb eb where sb: "d_sig (d_mag b) = (mb, eb)" by fastforce
  let ?x = "mag_val (d_mag a) * mag_val (d_mag b)"
  have nn: "0 \<le> ma" "0 \<le> mb"
    using d_sig_nonneg [of "d_mag a"] d_sig_nonneg [of "d_mag b"] by (simp_all add: sa sb)
  have va: "mag_val (d_mag a) = of_int ma * 2 powi ea" and vb: "mag_val (d_mag b) = of_int mb * 2 powi eb"
    using d_sig_val [of "d_mag a"] d_sig_val [of "d_mag b"] by (simp_all add: sa sb)
  have x: "of_int (ma * mb) / of_int 1 * 2 powi (ea + eb) = ?x"
    by (simp add: va vb power_int_add)
  have r: "round_mag (ma * mb) 1 (ea + eb) = min inf_mag (rnd ?x)"
    using round_mag_rnd [of "ma * mb" 1 "ea + eb"] nn by (simp only: x mult_nonneg_nonneg zero_less_one)
  have d: "d_mul a b = mk_double (d_sign a \<noteq> d_sign b) (min inf_mag (rnd ?x))"
    using assms r unfolding d_mul_def by (simp add: sa sb Let_def)
  have x0: "0 \<le> ?x" by (simp add: mag_val_nonneg)
  have val: "d_val a * d_val b = (if d_sign a \<noteq> d_sign b then - ?x else ?x)"
    by (auto simp: d_val_def)
  have "srnd ?x = min inf_mag (rnd ?x)" using x0 by (simp add: srnd_def)
  then show ?thesis
    unfolding d val using min_inf_rnd [of ?x] by (auto simp: srnd_minus mk_double_finite)
qed

lemma d_div_key:
  assumes "d_finite a" "d_finite b" "d_mag b \<noteq> 0"
  shows "d_key (d_div a b) = srnd (d_val a / d_val b) \<and> \<not> d_nan (d_div a b)"
proof -
  obtain ma ea where sa: "d_sig (d_mag a) = (ma, ea)" by fastforce
  obtain mb eb where sb: "d_sig (d_mag b) = (mb, eb)" by fastforce
  let ?x = "mag_val (d_mag a) / mag_val (d_mag b)"
  have "0 < d_mag b" using assms(3) d_mag_nonneg [of b] by linarith
  then have nn: "0 \<le> ma" "0 < mb"
    using d_sig_nonneg [of "d_mag a"] d_sig_pos [of "d_mag b"] by (simp_all add: sa sb)
  have x: "of_int ma / of_int mb * 2 powi (ea - eb) = ?x"
    using d_sig_val [of "d_mag a"] d_sig_val [of "d_mag b"] by (simp add: sa sb power_int_diff)
  have r: "round_mag ma mb (ea - eb) = min inf_mag (rnd ?x)"
    using round_mag_rnd [of ma mb "ea - eb"] nn by (simp only: x)
  have d: "d_div a b = mk_double (d_sign a \<noteq> d_sign b) (min inf_mag (rnd ?x))"
    using assms r unfolding d_div_def by (simp add: sa sb Let_def)
  have x0: "0 \<le> ?x" by (simp add: mag_val_nonneg)
  have val: "d_val a / d_val b = (if d_sign a \<noteq> d_sign b then - ?x else ?x)"
    by (auto simp: d_val_def)
  have "srnd ?x = min inf_mag (rnd ?x)" using x0 by (simp add: srnd_def)
  then show ?thesis
    unfolding d val using min_inf_rnd [of ?x] by (auto simp: srnd_minus mk_double_finite)
qed

lemma uminus_key [simp]: "d_key (- d) = - d_key d"
  using d_mag_less [of d] by (simp add: uminus_double_def d_key_def)

lemma uminus_mag [simp]: "d_mag (- d) = d_mag d"
  using d_mag_less [of d] by (simp add: uminus_double_def)

lemma uminus_val [simp]: "d_val (- d) = - d_val d"
  using d_mag_less [of d] by (simp add: uminus_double_def d_val_def)

lemma uminus_class [simp]: "d_finite (- d) = d_finite d" "d_nan (- d) = d_nan d"
  by (simp_all add: d_finite_def d_nan_def)

lemma key_add [ieee]: "d_finite a \<Longrightarrow> d_finite b \<Longrightarrow> d_key (a + b) = srnd (d_val a + d_val b)"
  by (simp add: plus_double_def d_add_key)

lemma key_diff [ieee]: "d_finite a \<Longrightarrow> d_finite b \<Longrightarrow> d_key (a - b) = srnd (d_val a - d_val b)"
  by (simp add: minus_double_def d_add_key)

lemma key_mult [ieee]: "d_finite a \<Longrightarrow> d_finite b \<Longrightarrow> d_key (a * b) = srnd (d_val a * d_val b)"
  by (simp add: times_double_def d_mul_key)

lemma key_div [ieee]:
  "d_finite a \<Longrightarrow> d_finite b \<Longrightarrow> d_mag b \<noteq> 0 \<Longrightarrow> d_key (a div b) = srnd (d_val a / d_val b)"
  by (simp add: divide_double_def d_div_key)

lemma not_nan_arith [ieee]:
  "d_finite a \<Longrightarrow> d_finite b \<Longrightarrow> \<not> d_nan (a + b)"
  "d_finite a \<Longrightarrow> d_finite b \<Longrightarrow> \<not> d_nan (a - b)"
  "d_finite a \<Longrightarrow> d_finite b \<Longrightarrow> \<not> d_nan (a * b)"
  "d_finite a \<Longrightarrow> d_finite b \<Longrightarrow> d_mag b \<noteq> 0 \<Longrightarrow> \<not> d_nan (a div b)"
  by (simp_all add: plus_double_def minus_double_def times_double_def divide_double_def
      d_add_key d_mul_key d_div_key)

section \<open>Order\<close>

lemma double_less_irrefl [simp]: "\<not> (a::double) < a"
  by (simp add: less_double_def)

lemma double_less_trans: "(a::double) < b \<Longrightarrow> b < c \<Longrightarrow> a < c"
  by (auto simp: less_double_def)

lemma double_not_less: "\<not> d_nan a \<Longrightarrow> \<not> d_nan b \<Longrightarrow> \<not> a < b \<longleftrightarrow> b \<le> a"
  by (auto simp: less_double_def less_eq_double_def)

lemma double_le_refl [simp]: "(a \<le> a) = (\<not> d_nan a)"
  by (simp add: less_eq_double_def)

lemma double_less_imp_le: "(a::double) < b \<Longrightarrow> a \<le> b"
  by (simp add: less_double_def less_eq_double_def)

lemma double_le_trans: "(a::double) \<le> b \<Longrightarrow> b \<le> c \<Longrightarrow> a \<le> c"
  by (auto simp: less_eq_double_def)

lemma d_mag_zero [simp]: "d_mag 0 = 0" "d_sign 0 = False" "d_key 0 = 0"
  by (simp_all add: zero_double_def)

lemma d_class_zero [simp]: "d_finite 0" "\<not> d_nan 0"
  by (simp_all add: d_finite_def d_nan_def inf_mag_def)

lemma d_class_one [simp]: "d_finite 1" "\<not> d_nan 1" "d_mag 1 = 0x3FF0000000000000" "\<not> d_sign 1"
  by (simp_all add: one_double_def d_finite_def d_nan_def inf_mag_def)

lemma d_val_zero [simp]: "d_val 0 = 0"
  by (simp add: d_val_def)

lemma d_val_one [simp]: "d_val 1 = 1"
  by (simp add: d_val_def mag_val_def d_sig_def power_int_def power_one_over)

lemma d_eq_zero_iff: "d_eq d 0 \<longleftrightarrow> d_mag d = 0"
  by (auto simp: d_eq_def d_key_def d_nan_def inf_mag_def)

lemma d_pos_iff: "0 < d \<longleftrightarrow> \<not> d_nan d \<and> 0 < d_key d"
  by (simp add: less_double_def)

lemma d_nonneg_iff: "0 \<le> d \<longleftrightarrow> \<not> d_nan d \<and> 0 \<le> d_key d"
  by (simp add: less_eq_double_def)

lemma d_key_nonneg_val: "0 \<le> d_key d \<longleftrightarrow> 0 \<le> d_val d"
  using d_val_le_iff [of 0 d] by simp

lemma d_key_pos_val: "0 < d_key d \<longleftrightarrow> 0 < d_val d"
  using d_val_less_iff [of 0 d] by simp

lemma d_pos_mag: "0 < d \<Longrightarrow> d_mag d \<noteq> 0"
  by (auto simp: d_pos_iff d_key_def split: if_splits)

text \<open>
  A finite quotient whose numerator is at most its positive denominator lies in [-1, 1]:
  the bound the imbalance figures of the engine promise.
\<close>

lemma srnd_one: "srnd 1 = 0x3FF0000000000000"
  using srnd_d_val [of 1] by (simp add: d_key_def)

lemma div_unit_range:
  assumes "d_finite a" "d_finite b" "0 < b" "\<bar>d_val a\<bar> \<le> d_val b"
  shows "- 1 \<le> a div b \<and> a div b \<le> 1"
proof -
  have b: "0 < d_val b" using assms(3) by (simp add: d_pos_iff d_key_pos_val)
  have "d_key (a div b) = srnd (d_val a / d_val b)"
    using assms by (intro key_div) (simp_all add: d_pos_mag)
  moreover have "d_val a / d_val b \<le> 1" "- 1 \<le> d_val a / d_val b"
    using assms(4) b by (simp_all add: field_simps abs_le_iff)
  then have "srnd (d_val a / d_val b) \<le> srnd 1" "srnd (- 1) \<le> srnd (d_val a / d_val b)"
    by (simp_all only: srnd_mono)
  moreover have "\<not> d_nan (a div b)" using assms by (simp add: ieee d_pos_mag)
  ultimately show ?thesis
    by (simp add: less_eq_double_def srnd_minus srnd_one) (simp add: d_key_def)
qed


text \<open>
  Values are multiples of the smallest subnormal, so a difference of distinct finite values
  never rounds to zero.
\<close>

definition ulp_min :: real where
  "ulp_min = 2 powi (- 1074)"

lemma mag_val_multiple: assumes "0 \<le> m" shows "\<exists>k. mag_val m = of_int k * ulp_min"
proof (cases "m div 2 ^ 52 = 0")
  case True
  then show ?thesis by (auto simp: mag_val_def d_sig_def ulp_min_def)
next
  case False
  have "0 \<le> m div 2 ^ 52" using assms by (simp add: pos_imp_zdiv_nonneg_iff)
  with False have e: "0 \<le> m div 2 ^ 52 - 1" by linarith
  have "(2::real) powi (m div 2 ^ 52 - 1075) = 2 powi ((m div 2 ^ 52 - 1) + (- 1074))"
    by (rule arg_cong) simp
  then have "(2::real) powi (m div 2 ^ 52 - 1075) = 2 powi (m div 2 ^ 52 - 1) * ulp_min"
    unfolding ulp_min_def by (subst (asm) power_int_add) simp_all
  moreover have "(2::real) powi (m div 2 ^ 52 - 1) = of_int (2 ^ nat (m div 2 ^ 52 - 1))"
    using e by (simp add: power_int_def)
  ultimately have "mag_val m = of_int ((2 ^ 52 + m mod 2 ^ 52) * 2 ^ nat (m div 2 ^ 52 - 1)) * ulp_min"
    using False by (simp add: mag_val_def d_sig_def Let_def)
  then show ?thesis by blast
qed

lemma d_val_multiple: "\<exists>k. d_val d = of_int k * ulp_min"
proof -
  obtain k where "mag_val (d_mag d) = of_int k * ulp_min" using mag_val_multiple [OF d_mag_nonneg] by blast
  then have "d_val d = of_int (if d_sign d then - k else k) * ulp_min" by (simp add: d_val_def)
  then show ?thesis by blast
qed

lemma ulp_min_pos: "0 < ulp_min"
  by (simp add: ulp_min_def)

lemma srnd_ulp_min: "srnd ulp_min = 1"
proof -
  have "rnd (of_int 1 * 2 powi (- 1074)) = 1" by (subst rnd_scaled) simp_all
  then show ?thesis by (simp add: srnd_def ulp_min_def inf_mag_def power_int_def)
qed

lemma srnd_diff_pos: assumes "d_val b < d_val a" shows "0 < srnd (d_val a - d_val b)"
proof -
  obtain j k where j: "d_val a = of_int j * ulp_min" and k: "d_val b = of_int k * ulp_min"
    using d_val_multiple by blast
  have "k < j" using assms ulp_min_pos by (simp add: j k mult_less_cancel_right)
  then have "1 \<le> real_of_int (j - k)" by linarith
  then have "1 * ulp_min \<le> of_int (j - k) * ulp_min" using ulp_min_pos by (intro mult_right_mono) simp_all
  then have "srnd ulp_min \<le> srnd (d_val a - d_val b)"
    by (intro srnd_mono) (simp add: j k left_diff_distrib)
  then show ?thesis by (simp add: srnd_ulp_min)
qed

lemma diff_sign:
  assumes "d_finite a" "d_finite b"
  shows "(a - b < 0 \<longleftrightarrow> a < b) \<and> (d_eq (a - b) 0 \<longleftrightarrow> d_eq a b) \<and> (0 < a - b \<longleftrightarrow> b < a)"
proof -
  have k: "d_key (a - b) = srnd (d_val a - d_val b)" "\<not> d_nan (a - b)" using assms by (simp_all add: ieee)
  consider "d_key a < d_key b" | "d_key a = d_key b" | "d_key b < d_key a" by linarith
  then show ?thesis
  proof cases
    case 1
    then have "0 < srnd (d_val b - d_val a)" by (intro srnd_diff_pos) (simp add: d_val_less_iff)
    then have "srnd (d_val a - d_val b) < 0" using srnd_minus [of "d_val b - d_val a"] by simp
    with 1 k show ?thesis by (auto simp: less_double_def d_eq_def assms)
  next
    case 2
    then have "d_val a = d_val b" using d_val_le_iff [of a b] d_val_le_iff [of b a] by simp
    with 2 k show ?thesis by (auto simp: less_double_def d_eq_def assms)
  next
    case 3
    then have "0 < srnd (d_val a - d_val b)" by (intro srnd_diff_pos) (simp add: d_val_less_iff)
    with 3 k show ?thesis by (auto simp: less_double_def d_eq_def assms)
  qed
qed

lemma double_two: "d_val (double_lit 2 1) = 2" "d_finite (double_lit 2 1)" "d_mag (double_lit 2 1) \<noteq> 0"
proof -
  have "round_mag 2 1 0 = 0x4000000000000000" by code_simp
  then have "double_lit 2 1 = mk_double False 0x4000000000000000" by (simp add: double_lit_def)
  then show "d_val (double_lit 2 1) = 2" "d_finite (double_lit 2 1)" "d_mag (double_lit 2 1) \<noteq> 0"
    by (simp_all add: d_val_def d_finite_def mag_val_def d_sig_def inf_mag_def power_int_def power_one_over)
qed

text \<open>
  Halving a sum stays between the summands: twice a representable value is representable
  when the exponent is not bounded (\<open>sval_double\<close>), and a finite sum did not meet the bound.
\<close>

definition sval :: "int \<Rightarrow> real" where
  "sval k = (if k < 0 then - mag_val (- k) else mag_val k)"

definition sr :: "real \<Rightarrow> int" where
  "sr x = (if x < 0 then - rnd (- x) else rnd x)"

lemma d_val_sval: "d_val d = sval (d_key d)"
  using d_mag_nonneg [of d] by (auto simp: d_val_def sval_def d_key_def simp del: d_mag_nonneg)

lemma srnd_clamp: "srnd x = max (- inf_mag) (min inf_mag (sr x))"
  using rnd_nonneg [of x] rnd_nonneg [of "- x"] by (auto simp: srnd_def sr_def inf_mag_def)

lemma sr_mono: "x \<le> y \<Longrightarrow> sr x \<le> sr y"
  using rnd_mono [of x y] rnd_mono [of "- y" "- x"] rnd_nonneg [of y] rnd_nonneg [of "- x"]
  by (auto simp: sr_def)

lemma mag_val_pos: "0 < m \<Longrightarrow> 0 < mag_val m"
  using mag_val_less_iff [of 0 m] by simp

lemma sr_sval: "sr (sval k) = k"
  using mag_val_pos [of "- k"] mag_val_nonneg [of k] by (auto simp: sr_def sval_def rnd_exact)

lemma sval_le_iff: "sval j \<le> sval k \<longleftrightarrow> j \<le> k"
proof -
  have "sval j < sval k" if "j < k" for j k
  proof (rule ccontr)
    assume "\<not> sval j < sval k"
    then have "k \<le> j" using sr_mono [of "sval k" "sval j"] by (simp add: sr_sval)
    with that show False by simp
  qed
  then show ?thesis by (metis linorder_not_le order.order_iff_strict)
qed

lemma mag_val_double: assumes "0 \<le> m" shows "\<exists>m'\<ge>0. mag_val m' = 2 * mag_val m"
proof (cases "m div 2 ^ 52 = 0")
  case True
  then have m: "m < 2 ^ 52" using assms by (auto simp: zdiv_eq_0_iff)
  show ?thesis
  proof (cases "2 * m < 2 ^ 52")
    case True
    then have "mag_val (2 * m) = 2 * mag_val m"
      using assms m by (simp add: mag_val_def d_sig_def zdiv_eq_0_iff)
    then show ?thesis using assms by (intro exI [of _ "2 * m"]) simp
  next
    case False
    then have "2 * m div 2 ^ 52 = 1" "2 * m mod 2 ^ 52 = 2 * m - 2 ^ 52"
      using m by (simp_all add: int_div_pos_eq int_mod_pos_eq [where q = 1])
    then have "mag_val (2 * m) = 2 * mag_val m"
      using assms m unfolding mag_val_def d_sig_def Let_def by (simp add: zdiv_eq_0_iff)
    then show ?thesis using assms by (intro exI [of _ "2 * m"]) simp
  qed
next
  case False
  have be: "(m + 2 ^ 52) div 2 ^ 52 = m div 2 ^ 52 + 1" "(m + 2 ^ 52) mod 2 ^ 52 = m mod 2 ^ 52"
    by simp_all
  have "0 \<le> m div 2 ^ 52" using assms by (simp add: pos_imp_zdiv_nonneg_iff)
  then have "m div 2 ^ 52 + 1 \<noteq> 0" by linarith
  moreover have "(2::real) powi (m div 2 ^ 52 + 1 - 1075) = 2 * 2 powi (m div 2 ^ 52 - 1075)"
    using power_int_add [of "2::real" "m div 2 ^ 52 - 1075" 1] by (simp add: algebra_simps)
  ultimately have "mag_val (m + 2 ^ 52) = 2 * mag_val m"
    unfolding mag_val_def d_sig_def Let_def be using False by simp
  then show ?thesis using assms by (intro exI [of _ "m + 2 ^ 52"]) simp
qed

lemma sval_double: "\<exists>k'. sval k' = 2 * sval k"
proof (cases "k < 0")
  case True
  then obtain m' where "0 \<le> m'" "mag_val m' = 2 * mag_val (- k)" using mag_val_double [of "- k"] by auto
  moreover from this have "m' \<noteq> 0" using mag_val_pos [of "- k"] True by auto
  ultimately have "sval (- m') = 2 * sval k" using True by (simp add: sval_def)
  then show ?thesis ..
next
  case False
  then obtain m' where "0 \<le> m'" "mag_val m' = 2 * mag_val k" using mag_val_double [of k] by auto
  then have "sval m' = 2 * sval k" using False by (simp add: sval_def)
  then show ?thesis ..
qed

lemma finite_result:
  assumes "d_finite s" "d_key s = srnd x"
  shows "sval k \<le> x \<Longrightarrow> sval k \<le> d_val s" "x \<le> sval k \<Longrightarrow> d_val s \<le> sval k"
proof -
  have key: "d_key s = sr x"
    using assms by (auto simp: d_finite_key srnd_clamp min_def max_def split: if_splits)
  show "sval k \<le> d_val s" if "sval k \<le> x"
    using sr_mono [OF that] by (simp add: sr_sval d_val_sval key sval_le_iff)
  show "d_val s \<le> sval k" if "x \<le> sval k"
    using sr_mono [OF that] by (simp add: sr_sval d_val_sval key sval_le_iff)
qed

lemma half_sum_between:
  assumes "d_finite a" "d_finite b" "a \<le> b" "d_finite (a + b)"
  shows "a \<le> (a + b) / double_lit 2 1 \<and> (a + b) / double_lit 2 1 \<le> b"
proof -
  let ?s = "a + b"
  have ab: "d_val a \<le> d_val b" using assms(3) by (simp add: less_eq_double_def d_val_le_iff)
  have s: "d_key ?s = srnd (d_val a + d_val b)" using assms by (simp add: ieee)
  have h: "d_key (?s / double_lit 2 1) = srnd (d_val ?s / 2)" "\<not> d_nan (?s / double_lit 2 1)"
    using assms(4) double_two by (simp_all add: ieee)
  obtain ka where ka: "sval ka = 2 * d_val a" using sval_double d_val_sval by metis
  obtain kb where kb: "sval kb = 2 * d_val b" using sval_double d_val_sval by metis
  have "sval ka \<le> d_val ?s" using ab by (intro finite_result(1) [OF assms(4) s]) (simp add: ka)
  moreover have "d_val ?s \<le> sval kb" using ab by (intro finite_result(2) [OF assms(4) s]) (simp add: kb)
  ultimately have "srnd (d_val a) \<le> srnd (d_val ?s / 2)" "srnd (d_val ?s / 2) \<le> srnd (d_val b)"
    by (simp_all add: srnd_mono ka kb)
  then show ?thesis using h assms by (simp add: srnd_d_val less_eq_double_def)
qed

end
