(* ===== verification/Core_Types.thy ===== *)
theory Core_Types
  imports Ieee_Double "HOL-Library.Signed_Division"
begin

text \<open>
  \<open>src/core/types.h\<close> and \<open>src/core/clock.h\<close>: the messages that travel through the engine
  and the clocks it reads. Strings are lists of bytes. A \<open>std::array\<close> of 64 levels is a
  list; \<open>wf_update\<close> states its fixed length and the count fields the parser guarantees.
\<close>

section \<open>Messages\<close>

record price_level =
  lv_price :: double
  lv_qty :: double

record trade =
  tr_event_time_ms :: u64
  tr_trade_id :: u64
  tr_symbol :: string
  tr_price :: double
  tr_quantity :: double
  tr_is_buyer_maker :: bool
  tr_received :: int
  tr_parsed :: int
  tr_enqueued :: int
  tr_dequeued :: int

definition MAX_LEVELS :: nat where
  "MAX_LEVELS = 64"

record depth_update =
  du_event_time_ms :: u64
  du_first_update_id :: u64
  du_last_update_id :: u64
  du_symbol :: string
  du_bids :: "price_level list"
  du_asks :: "price_level list"
  du_bid_count :: u16
  du_ask_count :: u16
  du_received :: int
  du_parsed :: int
  du_enqueued :: int
  du_dequeued :: int

datatype message_type = DEPTH_UPDATE | TRADE

record queue_message =
  msg_type :: message_type
  msg_depth :: depth_update
  msg_trade :: trade

text \<open>Default member initialisers.\<close>

definition zero_level :: price_level where
  "zero_level = \<lparr>lv_price = 0, lv_qty = 0\<rparr>"

definition new_trade :: trade where
  "new_trade = \<lparr>tr_event_time_ms = 0, tr_trade_id = 0, tr_symbol = [], tr_price = 0, tr_quantity = 0,
     tr_is_buyer_maker = False, tr_received = 0, tr_parsed = 0, tr_enqueued = 0, tr_dequeued = 0\<rparr>"

definition new_update :: depth_update where
  "new_update = \<lparr>du_event_time_ms = 0, du_first_update_id = 0, du_last_update_id = 0, du_symbol = [],
     du_bids = replicate MAX_LEVELS zero_level, du_asks = replicate MAX_LEVELS zero_level,
     du_bid_count = 0, du_ask_count = 0,
     du_received = 0, du_parsed = 0, du_enqueued = 0, du_dequeued = 0\<rparr>"

definition new_message :: queue_message where
  "new_message = \<lparr>msg_type = DEPTH_UPDATE, msg_depth = new_update, msg_trade = new_trade\<rparr>"

definition wf_update :: "depth_update \<Rightarrow> bool" where
  "wf_update u \<longleftrightarrow> length (du_bids u) = MAX_LEVELS \<and> length (du_asks u) = MAX_LEVELS
     \<and> unat (du_bid_count u) \<le> MAX_LEVELS \<and> unat (du_ask_count u) \<le> MAX_LEVELS"

lemma wf_new_update: "wf_update new_update"
  by (simp add: wf_update_def new_update_def)

section \<open>Clocks\<close>

text \<open>
  The engine reads two clocks whose values the environment decides. A \<open>clock\<close> holds the
  readings still to come, as functions of the number of readings made so far: the wall
  clock in microseconds since the epoch, and the steady clock in nanosecond ticks.
\<close>

record clock =
  wall_reading :: "nat \<Rightarrow> u64"
  wall_count :: nat
  steady_reading :: "nat \<Rightarrow> int"
  steady_count :: nat

definition wall_us :: "clock \<Rightarrow> u64 \<times> clock" where
  "wall_us c = (wall_reading c (wall_count c), c\<lparr>wall_count := Suc (wall_count c)\<rparr>)"

definition now :: "clock \<Rightarrow> int \<times> clock" where
  "now c = (steady_reading c (steady_count c), c\<lparr>steady_count := Suc (steady_count c)\<rparr>)"

text \<open>\<open>duration_cast\<close> truncates towards zero.\<close>

definition elapsed_us :: "int \<Rightarrow> int \<Rightarrow> int" where
  "elapsed_us start finish = (finish - start) sdiv 1000"

definition elapsed_ns :: "int \<Rightarrow> int \<Rightarrow> int" where
  "elapsed_ns start finish = finish - start"

lemma elapsed_us_nonneg: "start \<le> e \<Longrightarrow> elapsed_us start e = (e - start) div 1000"
  by (simp add: elapsed_us_def signed_divide_int_def sgn_if)

lemma elapsed_us_ns: "1000 * elapsed_us a b \<le> elapsed_ns a b" if "a \<le> b"
  using that by (simp add: elapsed_us_nonneg elapsed_ns_def)


section \<open>Sample messages\<close>

text \<open>Closed messages for the concrete runs, built as the unit tests' \<open>make_update\<close> does.\<close>

definition level_of :: "int \<times> int \<Rightarrow> price_level" where
  "level_of l = \<lparr>lv_price = double_of_int (fst l), lv_qty = double_of_int (snd l)\<rparr>"

definition pad_levels :: "(int \<times> int) list \<Rightarrow> price_level list" where
  "pad_levels ls = take MAX_LEVELS (map level_of ls @ replicate MAX_LEVELS zero_level)"

definition make_update :: "string \<Rightarrow> (int \<times> int) list \<Rightarrow> (int \<times> int) list \<Rightarrow> depth_update" where
  "make_update name bids asks = new_update\<lparr>du_symbol := name, du_first_update_id := 1, du_last_update_id := 1,
     du_bids := pad_levels bids, du_asks := pad_levels asks,
     du_bid_count := of_nat (length bids), du_ask_count := of_nat (length asks)\<rparr>"

definition sample_clock :: clock where
  "sample_clock = \<lparr>wall_reading = (\<lambda>n. of_nat (5000 + n)), wall_count = 0,
     steady_reading = int, steady_count = 0\<rparr>"

end
