(* ===== verification/Spsc_Queue.thy ===== *)
theory Spsc_Queue
  imports Core_Types
begin

text \<open>
  \<open>src/core/spsc_queue.h\<close>: the lock-free ring buffer between the feed and the processing
  thread. First the operations as one thread sees them, with indices kept as 64-bit words
  and wrapped by the bit mask, and their refinement of a bounded FIFO; then the two
  threads interleaved at the granularity of the atomic accesses, where a load may return
  an index the other side has since advanced.
\<close>

unbundle bit_operations_syntax

section \<open>The ring\<close>

record 'a spsc =
  q_head :: u64
  q_tail :: u64
  q_buffer :: "'a list"

text \<open>The two \<open>static_assert\<close>s on the template parameter.\<close>

definition valid_capacity :: "u64 \<Rightarrow> bool" where
  "valid_capacity cap \<longleftrightarrow> cap AND (cap - 1) = 0 \<and> 0 < cap"

definition q_mask :: "u64 \<Rightarrow> u64" where
  "q_mask cap = cap - 1"

definition spsc_new :: "u64 \<Rightarrow> 'a \<Rightarrow> 'a spsc" where
  "spsc_new cap dflt = \<lparr>q_head = 0, q_tail = 0, q_buffer = replicate (unat cap) dflt\<rparr>"

text \<open>Both overloads of \<open>try_push\<close> store the item and publish the next tail.\<close>

definition try_push :: "u64 \<Rightarrow> 'a \<Rightarrow> 'a spsc \<Rightarrow> bool \<times> 'a spsc" where
  "try_push cap item q =
     (let tail = q_tail q; next_tail = (tail + 1) AND q_mask cap
      in if next_tail = q_head q then (False, q)
         else (True, q\<lparr>q_buffer := (q_buffer q)[unat tail := item], q_tail := next_tail\<rparr>))"

text \<open>
  \<open>try_pop\<close> moves the item out of its slot; \<open>moved x\<close> is what a moved-from \<open>x\<close> is left as,
  which C++ does not determine.
\<close>

definition try_pop :: "('a \<Rightarrow> 'a) \<Rightarrow> u64 \<Rightarrow> 'a spsc \<Rightarrow> ('a \<times> 'a spsc) option" where
  "try_pop moved cap q =
     (let head = q_head q
      in if head = q_tail q then None
         else let item = q_buffer q ! unat head
              in Some (item, q\<lparr>q_buffer := (q_buffer q)[unat head := moved item],
                               q_head := (head + 1) AND q_mask cap\<rparr>))"

definition try_pop_into :: "('a \<Rightarrow> 'a) \<Rightarrow> u64 \<Rightarrow> 'a \<Rightarrow> 'a spsc \<Rightarrow> bool \<times> 'a \<times> 'a spsc" where
  "try_pop_into moved cap item q =
     (case try_pop moved cap q of None \<Rightarrow> (False, item, q) | Some (x, q') \<Rightarrow> (True, x, q'))"

definition size_approx :: "u64 \<Rightarrow> 'a spsc \<Rightarrow> u64" where
  "size_approx cap q = (q_tail q - q_head q) AND q_mask cap"

definition q_empty :: "'a spsc \<Rightarrow> bool" where
  "q_empty q \<longleftrightarrow> q_head q = q_tail q"

definition q_capacity :: "u64 \<Rightarrow> u64" where
  "q_capacity cap = cap - 1"

section \<open>Masking is reduction modulo the capacity\<close>

lemma pow2_of_and_pred:
  assumes "0 < (c::int)" "c AND (c - 1) = 0"
  shows "\<exists>k. c = 2 ^ k"
  using assms
proof (induction "nat c" arbitrary: c rule: less_induct)
  case less
  have step: "c AND (c - 1) = of_bool (odd c \<and> odd (c - 1)) + 2 * ((c div 2) AND ((c - 1) div 2))"
    by (rule and_rec)
  show ?case
  proof (cases "even c")
    case True
    then obtain d where d: "c = 2 * d" by (rule evenE)
    then have "(c - 1) div 2 = d - 1" by simp
    then have "d AND (d - 1) = 0" using step less.prems(2) d by simp
    moreover have "0 < d" "nat d < nat c" using d less.prems(1) by simp_all
    ultimately obtain k where "d = 2 ^ k" using less.hyps by blast
    then have "c = 2 ^ Suc k" using d by simp
    then show ?thesis ..
  next
    case False
    then obtain d where d: "c = 2 * d + 1" by (rule oddE)
    then have "d AND d = 0" using step less.prems(2) by simp
    then have "c = 2 ^ 0" using d by simp
    then show ?thesis ..
  qed
qed

lemma valid_capacity_pow2: "valid_capacity cap \<longleftrightarrow> (\<exists>k<64. cap = 2 ^ k)"
proof
  assume v: "valid_capacity cap"
  then have pos: "0 < uint cap" by (simp add: valid_capacity_def word_less_def)
  have "uint (cap - 1) = uint cap - 1"
    using pos uint_sub_lem [of 1 cap] by simp
  moreover have "uint (cap AND (cap - 1)) = 0" using v by (simp add: valid_capacity_def)
  ultimately have "uint cap AND (uint cap - 1) = 0" by (simp add: uint_and)
  with pos obtain k where k: "uint cap = 2 ^ k" using pow2_of_and_pred by blast
  have "(2::int) ^ k < 2 ^ 64" using uint_lt2p [of cap] by (simp flip: k)
  then have "k < 64" by (rule power_less_imp_less_exp [rotated]) simp
  moreover have "cap = 2 ^ k" using k by (metis word_of_int_uint word_of_int_2p)
  ultimately show "\<exists>k<64. cap = 2 ^ k" by blast
next
  assume "\<exists>k<64. cap = 2 ^ k"
  then obtain k where k: "k < 64" "cap = 2 ^ k" by blast
  then have "cap AND (cap - 1) = 0"
    using take_bit_eq_mod [of k "2 ^ k :: u64"] by (simp flip: mask_eq_exp_minus_1 take_bit_eq_mask)
  moreover have "0 < cap" using k by (simp add: word_greater_zero_iff)
  ultimately show "valid_capacity cap" by (simp add: valid_capacity_def)
qed

lemma unat_pow2: assumes "k < 64" shows "unat (2 ^ k :: u64) = 2 ^ k"
proof -
  have "(0::u64) < 2 ^ k" using assms by (simp add: word_greater_zero_iff)
  then have "uint (2 ^ k :: u64) = 2 ^ k" by (rule uint_2p)
  then show ?thesis by (simp add: unat_eq_nat_uint nat_power_eq)
qed

lemma mask_mod:
  assumes "valid_capacity cap"
  shows "unat (x AND q_mask cap) = unat x mod unat cap"
proof -
  obtain k where k: "k < 64" "cap = 2 ^ k" using assms valid_capacity_pow2 by blast
  have "unat cap = 2 ^ k" using k by (simp add: unat_pow2)
  moreover have "x AND q_mask cap = take_bit k x"
    by (simp add: q_mask_def k take_bit_eq_mask mask_eq_exp_minus_1)
  moreover have "unat (take_bit k x) = unat x mod 2 ^ k"
    unfolding unsigned_take_bit_eq by (rule take_bit_eq_mod)
  ultimately show ?thesis by (simp only:)
qed

lemma capacity_dvd: "valid_capacity cap \<Longrightarrow> unat cap dvd 2 ^ 64"
proof -
  assume "valid_capacity cap"
  then obtain k where k: "k < 64" "cap = 2 ^ k" using valid_capacity_pow2 by blast
  then have "unat cap = 2 ^ k" by (simp add: unat_pow2)
  moreover have "(2::nat) ^ k dvd 2 ^ 64" by (rule le_imp_power_dvd) (use k in simp)
  ultimately show ?thesis by (simp only:)
qed


lemma mod_less_double:
  assumes "b < c" "a < c" shows "(a + c - b) mod c = (if b \<le> a then a - b else a + c - (b::nat))"
  using assms by (auto simp: mod_if)

lemma next_index:
  assumes "valid_capacity cap" "unat x < unat cap"
  shows "unat ((x + 1) AND q_mask cap) = Suc (unat x) mod unat cap"
proof -
  have "unat (x + 1) = Suc (unat x) mod 2 ^ 64" by (simp add: unat_word_ariths)
  then have "unat ((x + 1) AND q_mask cap) = Suc (unat x) mod 2 ^ 64 mod unat cap"
    using assms by (simp add: mask_mod)
  also have "\<dots> = Suc (unat x) mod unat cap"
    by (rule mod_mod_cancel) (rule capacity_dvd [OF assms(1)])
  finally show ?thesis .
qed

lemma index_distance:
  assumes "valid_capacity cap" "unat x < unat cap" "unat y < unat cap"
  shows "unat ((x - y) AND q_mask cap) = (unat x + unat cap - unat y) mod unat cap"
proof -
  have "unat x < 2 ^ LENGTH(64)" "unat y < 2 ^ LENGTH(64)" by (rule unsigned_less)+
  then have x64: "unat x < 2 ^ 64" and y64: "unat y < 2 ^ 64" by simp_all
  have "unat ((x - y) AND q_mask cap) = unat (x - y) mod unat cap"
    using assms by (simp add: mask_mod)
  also have "unat (x - y) = (unat x + (2 ^ 64 - unat y)) mod 2 ^ 64"
    using x64 y64 by (simp add: unat_sub_if' mod_if)
  also have "\<dots> mod unat cap = (unat x + (2 ^ 64 - unat y)) mod unat cap"
    by (rule mod_mod_cancel) (rule capacity_dvd [OF assms(1)])
  also have "\<dots> = (unat x + unat cap - unat y) mod unat cap"
  proof -
    obtain m where m: "2 ^ 64 = unat cap * m" using capacity_dvd [OF assms(1)] by (rule dvdE)
    then have "m \<noteq> 0" by (metis mult_0_right power_not_zero zero_neq_numeral)
    then obtain m' where "m = Suc m'" by (cases m) simp_all
    with m have m': "2 ^ 64 = unat cap + unat cap * m'" by simp
    have "unat x + (2 ^ 64 - unat y) = (unat x + unat cap - unat y) + unat cap * m'"
      unfolding m' using assms(3) by simp
    then show ?thesis by simp
  qed
  finally show ?thesis .
qed

section \<open>The queue as a bounded FIFO\<close>

definition q_inv :: "u64 \<Rightarrow> 'a spsc \<Rightarrow> bool" where
  "q_inv cap q \<longleftrightarrow> length (q_buffer q) = unat cap \<and> unat (q_head q) < unat cap \<and> unat (q_tail q) < unat cap"

definition q_count :: "u64 \<Rightarrow> 'a spsc \<Rightarrow> nat" where
  "q_count cap q = (unat (q_tail q) + unat cap - unat (q_head q)) mod unat cap"

definition q_items :: "u64 \<Rightarrow> 'a spsc \<Rightarrow> 'a list" where
  "q_items cap q = map (\<lambda>i. q_buffer q ! ((unat (q_head q) + i) mod unat cap)) [0..<q_count cap q]"

lemma length_q_items [simp]: "length (q_items cap q) = q_count cap q"
  by (simp add: q_items_def)

lemma q_new_inv: "valid_capacity cap \<Longrightarrow> q_inv cap (spsc_new cap d)"
  by (simp add: q_inv_def spsc_new_def valid_capacity_def word_less_nat_alt)

lemma q_new_items: "q_items cap (spsc_new cap d) = []"
  by (simp add: q_items_def q_count_def spsc_new_def)

lemma q_count_less: "q_inv cap q \<Longrightarrow> q_count cap q < unat cap"
  by (simp add: q_inv_def q_count_def)

lemma q_count_eq:
  assumes "q_inv cap q"
  shows "q_count cap q = (if unat (q_head q) \<le> unat (q_tail q) then unat (q_tail q) - unat (q_head q)
    else unat (q_tail q) + unat cap - unat (q_head q))"
  unfolding q_count_def using assms by (subst mod_less_double) (simp_all add: q_inv_def)

lemma q_empty_iff: "q_inv cap q \<Longrightarrow> q_empty q \<longleftrightarrow> q_items cap q = []"
  by (auto simp: q_empty_def q_count_eq q_inv_def word_unat_eq_iff simp flip: length_0_conv split: if_splits)

lemma size_approx_count: "valid_capacity cap \<Longrightarrow> q_inv cap q \<Longrightarrow> unat (size_approx cap q) = q_count cap q"
  by (simp add: size_approx_def index_distance q_inv_def q_count_def)

lemma q_full_iff:
  assumes "valid_capacity cap" "q_inv cap q"
  shows "(q_tail q + 1) AND q_mask cap = q_head q \<longleftrightarrow> q_count cap q = unat cap - 1"
proof -
  have "(q_tail q + 1) AND q_mask cap = q_head q \<longleftrightarrow> Suc (unat (q_tail q)) mod unat cap = unat (q_head q)"
    using assms by (simp add: word_unat_eq_iff next_index q_inv_def)
  also have "\<dots> \<longleftrightarrow> q_count cap q = unat cap - 1"
    using assms(2) unfolding q_count_eq [OF assms(2)] by (auto simp: q_inv_def mod_Suc)
  finally show ?thesis .
qed

lemma try_push_full:
  "valid_capacity cap \<Longrightarrow> q_inv cap q \<Longrightarrow> q_count cap q = unat cap - 1 \<Longrightarrow> try_push cap x q = (False, q)"
  by (simp add: try_push_def q_full_iff)


lemma try_push_room:
  assumes "valid_capacity cap" "q_inv cap q" "q_count cap q < unat cap - 1"
  obtains q' where "try_push cap x q = (True, q')" "q_inv cap q'"
    "q_items cap q' = q_items cap q @ [x]" "q_head q' = q_head q"
proof -
  let ?c = "unat cap" and ?h = "unat (q_head q)" and ?t = "unat (q_tail q)" and ?n = "q_count cap q"
  define q' where "q' = q\<lparr>q_buffer := (q_buffer q)[?t := x], q_tail := (q_tail q + 1) AND q_mask cap\<rparr>"
  have inv: "length (q_buffer q) = ?c" "?h < ?c" "?t < ?c"
    using assms(2) by (simp_all add: q_inv_def)
  have tail': "unat (q_tail q') = Suc ?t mod ?c"
    using assms inv by (simp add: q'_def next_index)
  have inv': "q_inv cap q'" using inv tail' by (simp add: q_inv_def q'_def)
  have cnt: "q_count cap q' = Suc ?n"
    using assms(3) inv tail' unfolding q_count_eq [OF inv'] q_count_eq [OF assms(2)]
    by (auto simp: q'_def mod_Suc split: if_splits)
  have slot: "(?h + ?n) mod ?c = ?t"
    unfolding q_count_eq [OF assms(2)] using inv by (auto simp: mod_if)
  have old: "?t \<noteq> (?h + i) mod ?c" if "i < ?n" for i
    using that inv q_count_less [OF assms(2)] unfolding q_count_eq [OF assms(2)]
    by (auto simp: mod_if split: if_splits)
  have "q_items cap q' = map (\<lambda>i. (q_buffer q)[?t := x] ! ((?h + i) mod ?c)) [0..<Suc ?n]"
    by (simp only: q_items_def cnt) (simp add: q'_def)
  also have "\<dots> = q_items cap q @ [x]"
    using old slot inv by (auto simp: q_items_def)
  finally have items: "q_items cap q' = q_items cap q @ [x]" .
  have "try_push cap x q = (True, q')"
    using assms q_full_iff [OF assms(1,2)] by (simp add: try_push_def q'_def Let_def)
  with inv' items show thesis by (intro that [of q']) (simp_all add: q'_def)
qed

lemma try_pop_empty: "q_inv cap q \<Longrightarrow> q_items cap q = [] \<Longrightarrow> try_pop moved cap q = None"
  by (simp add: try_pop_def flip: q_empty_iff q_empty_def)

lemma try_pop_item:
  assumes "valid_capacity cap" "q_inv cap q" "q_items cap q = x # xs"
  obtains q' where "try_pop moved cap q = Some (x, q')" "q_inv cap q'" "q_items cap q' = xs"
    "q_tail q' = q_tail q"
proof -
  let ?c = "unat cap" and ?h = "unat (q_head q)" and ?t = "unat (q_tail q)" and ?n = "q_count cap q"
  define q' where "q' = q\<lparr>q_buffer := (q_buffer q)[?h := moved (q_buffer q ! ?h)],
    q_head := (q_head q + 1) AND q_mask cap\<rparr>"
  have inv: "length (q_buffer q) = ?c" "?h < ?c" "?t < ?c"
    using assms(2) by (simp_all add: q_inv_def)
  have n: "0 < ?n" using arg_cong [OF assms(3), of length] by simp
  have ne: "q_head q \<noteq> q_tail q" using n inv unfolding q_count_eq [OF assms(2)] by auto
  have head': "unat (q_head q') = Suc ?h mod ?c"
    using assms inv by (simp add: q'_def next_index)
  have inv': "q_inv cap q'" using inv head' by (simp add: q_inv_def q'_def)
  have cnt: "?n = Suc (q_count cap q')"
    using n inv head' unfolding q_count_eq [OF inv'] q_count_eq [OF assms(2)]
    by (auto simp: q'_def mod_Suc split: if_splits)
  have idx: "(Suc ?h mod ?c + i) mod ?c = (?h + Suc i) mod ?c" for i
    by (simp add: mod_add_left_eq)
  have old: "?h \<noteq> (?h + Suc i) mod ?c" if "i < q_count cap q'" for i
    using that cnt inv q_count_less [OF assms(2)] by (auto simp: mod_if split: if_splits)
  have "q_items cap q = q_buffer q ! ?h # map (\<lambda>i. q_buffer q ! ((?h + Suc i) mod ?c)) [0..<q_count cap q']"
    unfolding q_items_def cnt using inv by (simp add: upt_conv_Cons map_Suc_upt [symmetric] del: upt_Suc)
  moreover have "q_items cap q' = map (\<lambda>i. q_buffer q ! ((?h + Suc i) mod ?c)) [0..<q_count cap q']"
    unfolding q_items_def head' idx using old by (auto simp: q'_def)
  ultimately have x: "x = q_buffer q ! ?h" and xs: "q_items cap q' = xs" using assms(3) by simp_all
  have "try_pop moved cap q = Some (x, q')"
    using ne by (simp add: try_pop_def q'_def x Let_def)
  with inv' xs show thesis by (intro that [of q']) (simp_all add: q'_def)
qed


section \<open>The interface the other components rely on\<close>

text \<open>Running a script of pushes and pops, on any pair of operations.\<close>

datatype 'a qop = Push 'a | Pop

datatype 'a qout = Pushed bool | Popped "'a option"

fun run_ops :: "('a \<Rightarrow> 'q \<Rightarrow> bool \<times> 'q) \<Rightarrow> ('q \<Rightarrow> ('a \<times> 'q) option) \<Rightarrow> 'a qop list \<Rightarrow> 'q \<Rightarrow> 'a qout list \<times> 'q"
where
  "run_ops push pop [] q = ([], q)"
| "run_ops push pop (Push x # ops) q =
     (let (b, q') = push x q; (outs, q'') = run_ops push pop ops q' in (Pushed b # outs, q''))"
| "run_ops push pop (Pop # ops) q =
     (case pop q of
        None \<Rightarrow> let (outs, q'') = run_ops push pop ops q in (Popped None # outs, q'')
      | Some (x, q') \<Rightarrow> let (outs, q'') = run_ops push pop ops q' in (Popped (Some x) # outs, q''))"

text \<open>The abstract queue: a list that refuses a push when \<open>room\<close> items wait.\<close>

definition fifo_push :: "nat \<Rightarrow> 'a \<Rightarrow> 'a list \<Rightarrow> bool \<times> 'a list" where
  "fifo_push room x xs = (if length xs < room then (True, xs @ [x]) else (False, xs))"

definition fifo_pop :: "'a list \<Rightarrow> ('a \<times> 'a list) option" where
  "fifo_pop xs = (case xs of [] \<Rightarrow> None | x # xs' \<Rightarrow> Some (x, xs'))"

locale bounded_fifo =
  fixes push :: "'a \<Rightarrow> 'q \<Rightarrow> bool \<times> 'q"
    and pop :: "'q \<Rightarrow> ('a \<times> 'q) option"
    and items :: "'q \<Rightarrow> 'a list"
    and inv :: "'q \<Rightarrow> bool"
    and room :: nat
  assumes items_room: "inv q \<Longrightarrow> length (items q) \<le> room"
    and push_full: "inv q \<Longrightarrow> length (items q) = room \<Longrightarrow> push x q = (False, q)"
    and push_room: "inv q \<Longrightarrow> length (items q) < room \<Longrightarrow>
          \<exists>q'. push x q = (True, q') \<and> inv q' \<and> items q' = items q @ [x]"
    and pop_empty: "inv q \<Longrightarrow> items q = [] \<Longrightarrow> pop q = None"
    and pop_item: "inv q \<Longrightarrow> items q = x # xs \<Longrightarrow> \<exists>q'. pop q = Some (x, q') \<and> inv q' \<and> items q' = xs"
begin

lemma push_cases:
  assumes "inv q"
  obtains (full) "length (items q) = room" "push x q = (False, q)"
  | (room) q' where "length (items q) < room" "push x q = (True, q')" "inv q'" "items q' = items q @ [x]"
  using items_room [OF assms] push_full [OF assms] push_room [OF assms] by (meson le_neq_implies_less)

lemma pop_cases:
  assumes "inv q"
  obtains (empty) "items q = []" "pop q = None"
  | (item) x q' where "items q = x # items q'" "pop q = Some (x, q')" "inv q'"
proof (cases "items q")
  case Nil
  then show thesis by (rule empty) (rule pop_empty [OF assms Nil])
next
  case (Cons x xs)
  then show thesis using pop_item [OF assms Cons] item by auto
qed

lemma run_refines_fifo:
  assumes "inv q"
  shows "\<exists>q'. run_ops push pop ops q = (fst (run_ops (fifo_push room) fifo_pop ops (items q)), q')
    \<and> inv q' \<and> items q' = snd (run_ops (fifo_push room) fifo_pop ops (items q))"
  using assms
proof (induction ops arbitrary: q)
  case Nil
  then show ?case by simp
next
  case (Cons op ops)
  show ?case
  proof (cases op)
    case (Push x)
    from Cons.prems show ?thesis
    proof (cases rule: push_cases [where x = x])
      case full
      with Cons.IH [OF Cons.prems] show ?thesis
        by (auto simp: Push fifo_push_def split: prod.splits)
    next
      case (room q')
      with Cons.IH [of q'] show ?thesis
        by (auto simp: Push fifo_push_def split: prod.splits)
    qed
  next
    case Pop
    from Cons.prems show ?thesis
    proof (cases rule: pop_cases)
      case empty
      with Cons.IH [OF Cons.prems] show ?thesis
        by (auto simp: Pop fifo_pop_def split: prod.splits)
    next
      case (item x q')
      with Cons.IH [of q'] show ?thesis
        by (auto simp: Pop fifo_pop_def split: prod.splits)
    qed
  qed
qed

end

definition ring_inv :: "u64 \<Rightarrow> 'a spsc \<Rightarrow> bool" where
  "ring_inv cap q \<longleftrightarrow> valid_capacity cap \<and> q_inv cap q"

interpretation ring: bounded_fifo "try_push cap" "try_pop moved cap" "q_items cap" "ring_inv cap" "unat cap - 1"
  for cap moved
proof unfold_locales
  fix q :: "'a spsc" and x xs
  assume "ring_inv cap q"
  then have v: "valid_capacity cap" "q_inv cap q" by (simp_all add: ring_inv_def)
  show "length (q_items cap q) \<le> unat cap - 1" using q_count_less [OF v(2)] by simp
  show "try_push cap x q = (False, q)" if "length (q_items cap q) = unat cap - 1"
    using that v by (simp add: try_push_full)
  show "\<exists>q'. try_push cap x q = (True, q') \<and> ring_inv cap q' \<and> q_items cap q' = q_items cap q @ [x]"
    if "length (q_items cap q) < unat cap - 1"
    using that v by (auto simp: ring_inv_def elim: try_push_room [of cap q x])
  show "try_pop moved cap q = None" if "q_items cap q = []"
    using that v by (simp add: try_pop_empty)
  show "\<exists>q'. try_pop moved cap q = Some (x, q') \<and> ring_inv cap q' \<and> q_items cap q' = xs"
    if "q_items cap q = x # xs"
    using that v by (auto simp: ring_inv_def elim: try_pop_item [of cap q x xs moved])
qed

lemma ring_new: "valid_capacity cap \<Longrightarrow> ring_inv cap (spsc_new cap d)"
  by (simp add: ring_inv_def q_new_inv)

text \<open>C17: any script of pushes and pops on a fresh ring returns, call by call, what the
  abstract FIFO with room for capacity minus one items returns, and ends with its items.\<close>

theorem ring_refines_fifo:
  assumes "valid_capacity cap"
  shows "fst (run_ops (try_push cap) (try_pop moved cap) ops (spsc_new cap d))
       = fst (run_ops (fifo_push (unat cap - 1)) fifo_pop ops [])
    \<and> q_items cap (snd (run_ops (try_push cap) (try_pop moved cap) ops (spsc_new cap d)))
       = snd (run_ops (fifo_push (unat cap - 1)) fifo_pop ops [])"
  using ring.run_refines_fifo [OF ring_new [OF assms], where ops = ops and d1 = d and moved = moved]
  by (auto simp: q_new_items)

theorem ring_refines_fifo_witness:
  "fst (run_ops (try_push 4) (try_pop id 4) [Push 1, Push 2, Pop, Push 3, Push 4, Push (5::nat)] (spsc_new 4 0))
   = [Pushed True, Pushed True, Popped (Some 1), Pushed True, Pushed True, Pushed False]"
proof -
  have v: "valid_capacity 4" by (simp add: valid_capacity_def)
  show ?thesis
    by (subst ring_refines_fifo [OF v, THEN conjunct1]) (simp add: fifo_push_def fifo_pop_def)
qed


section \<open>Two threads\<close>

text \<open>
  The producer and the consumer interleave at their atomic accesses. \<open>head_hist\<close> and
  \<open>tail_hist\<close> are the modification orders of \<open>head_\<close> and \<open>tail_\<close>, oldest first; each is
  written by one thread only. A load of the other side's index may return any value from
  the last one this thread has observed on (coherence), so a side can act on a stale view.
  \<open>seen_head\<close> and \<open>seen_tail\<close> are the positions observed so far. The copy of the item and
  the publishing store are separate steps. \<open>pushed\<close> and \<open>popped\<close> record the published and
  the returned items; they do not influence a step.
\<close>

datatype 'a producer = P_Idle | P_Ready 'a u64 u64 | P_Written 'a u64

datatype 'a consumer = C_Idle | C_Ready u64 | C_Taken 'a u64

record 'a shared =
  head_hist :: "u64 list"
  tail_hist :: "u64 list"
  slots :: "'a list"
  producer :: "'a producer"
  consumer :: "'a consumer"
  seen_head :: nat
  seen_tail :: nat
  pushed :: "'a list"
  popped :: "'a list"

definition shared_init :: "u64 \<Rightarrow> 'a \<Rightarrow> 'a shared" where
  "shared_init cap d = \<lparr>head_hist = [0], tail_hist = [0], slots = replicate (unat cap) d,
     producer = P_Idle, consumer = C_Idle, seen_head = 0, seen_tail = 0, pushed = [], popped = []\<rparr>"

inductive spsc_step :: "('a \<Rightarrow> 'a) \<Rightarrow> u64 \<Rightarrow> 'a shared \<Rightarrow> 'a shared \<Rightarrow> bool" for moved cap where
  push_full: "producer s = P_Idle \<Longrightarrow> seen_head s \<le> n \<Longrightarrow> n < length (head_hist s) \<Longrightarrow>
     (last (tail_hist s) + 1) AND q_mask cap = head_hist s ! n \<Longrightarrow>
     spsc_step moved cap s (s\<lparr>seen_head := n\<rparr>)"
| push_begin: "producer s = P_Idle \<Longrightarrow> seen_head s \<le> n \<Longrightarrow> n < length (head_hist s) \<Longrightarrow>
     next_tail = (last (tail_hist s) + 1) AND q_mask cap \<Longrightarrow> next_tail \<noteq> head_hist s ! n \<Longrightarrow>
     spsc_step moved cap s (s\<lparr>seen_head := n, producer := P_Ready item (last (tail_hist s)) next_tail\<rparr>)"
| push_write: "producer s = P_Ready item tail next_tail \<Longrightarrow>
     spsc_step moved cap s
       (s\<lparr>slots := (slots s)[unat tail := item], producer := P_Written item next_tail\<rparr>)"
| push_publish: "producer s = P_Written item next_tail \<Longrightarrow>
     spsc_step moved cap s
       (s\<lparr>tail_hist := tail_hist s @ [next_tail], pushed := pushed s @ [item], producer := P_Idle\<rparr>)"
| pop_none: "consumer s = C_Idle \<Longrightarrow> seen_tail s \<le> n \<Longrightarrow> n < length (tail_hist s) \<Longrightarrow>
     last (head_hist s) = tail_hist s ! n \<Longrightarrow>
     spsc_step moved cap s (s\<lparr>seen_tail := n\<rparr>)"
| pop_begin: "consumer s = C_Idle \<Longrightarrow> seen_tail s \<le> n \<Longrightarrow> n < length (tail_hist s) \<Longrightarrow>
     last (head_hist s) \<noteq> tail_hist s ! n \<Longrightarrow>
     spsc_step moved cap s (s\<lparr>seen_tail := n, consumer := C_Ready (last (head_hist s))\<rparr>)"
| pop_read: "consumer s = C_Ready head \<Longrightarrow>
     spsc_step moved cap s
       (s\<lparr>slots := (slots s)[unat head := moved (slots s ! unat head)],
          consumer := C_Taken (slots s ! unat head) head\<rparr>)"
| pop_publish: "consumer s = C_Taken item head \<Longrightarrow>
     spsc_step moved cap s
       (s\<lparr>head_hist := head_hist s @ [(head + 1) AND q_mask cap], popped := popped s @ [item],
          consumer := C_Idle\<rparr>)"

inductive spsc_reachable :: "('a \<Rightarrow> 'a) \<Rightarrow> u64 \<Rightarrow> 'a \<Rightarrow> 'a shared \<Rightarrow> bool" for moved cap d where
  spsc_start: "spsc_reachable moved cap d (shared_init cap d)"
| spsc_next: "spsc_reachable moved cap d s \<Longrightarrow> spsc_step moved cap s t \<Longrightarrow> spsc_reachable moved cap d t"


inductive_cases spsc_stepE: "spsc_step moved cap s t"

subsection \<open>The invariant\<close>

definition ring_ix :: "u64 \<Rightarrow> nat \<Rightarrow> u64" where
  "ring_ix cap n = of_nat (n mod unat cap)"

definition first_live :: "'a shared \<Rightarrow> nat" where
  "first_live s = (case consumer s of C_Taken _ _ \<Rightarrow> Suc (length (popped s)) | _ \<Rightarrow> length (popped s))"

definition indices_inv :: "u64 \<Rightarrow> 'a shared \<Rightarrow> bool" where
  "indices_inv cap s \<longleftrightarrow>
     head_hist s = map (ring_ix cap) [0..<Suc (length (popped s))]
   \<and> tail_hist s = map (ring_ix cap) [0..<Suc (length (pushed s))]
   \<and> length (slots s) = unat cap
   \<and> seen_head s \<le> length (popped s) \<and> seen_tail s \<le> length (pushed s)
   \<and> length (popped s) \<le> seen_tail s \<and> length (pushed s) < seen_head s + unat cap
   \<and> popped s = take (length (popped s)) (pushed s)"

definition producer_inv :: "u64 \<Rightarrow> 'a shared \<Rightarrow> bool" where
  "producer_inv cap s \<longleftrightarrow>
     (case producer s of
        P_Idle \<Rightarrow> True
      | P_Ready item tail next_tail \<Rightarrow> tail = ring_ix cap (length (pushed s))
          \<and> next_tail = ring_ix cap (Suc (length (pushed s)))
          \<and> Suc (length (pushed s)) < seen_head s + unat cap
      | P_Written item next_tail \<Rightarrow> next_tail = ring_ix cap (Suc (length (pushed s)))
          \<and> Suc (length (pushed s)) < seen_head s + unat cap
          \<and> slots s ! (length (pushed s) mod unat cap) = item)"

definition consumer_inv :: "u64 \<Rightarrow> 'a shared \<Rightarrow> bool" where
  "consumer_inv cap s \<longleftrightarrow>
     (case consumer s of
        C_Idle \<Rightarrow> True
      | C_Ready head \<Rightarrow> head = ring_ix cap (length (popped s)) \<and> length (popped s) < seen_tail s
      | C_Taken item head \<Rightarrow> head = ring_ix cap (length (popped s)) \<and> length (popped s) < seen_tail s
          \<and> item = pushed s ! length (popped s))"

definition slots_inv :: "u64 \<Rightarrow> 'a shared \<Rightarrow> bool" where
  "slots_inv cap s \<longleftrightarrow>
     (\<forall>i. first_live s \<le> i \<and> i < length (pushed s) \<longrightarrow> slots s ! (i mod unat cap) = pushed s ! i)"

definition spsc_inv :: "u64 \<Rightarrow> 'a shared \<Rightarrow> bool" where
  "spsc_inv cap s \<longleftrightarrow> valid_capacity cap \<and> indices_inv cap s \<and> producer_inv cap s
     \<and> consumer_inv cap s \<and> slots_inv cap s"

lemmas spsc_inv_defs = spsc_inv_def indices_inv_def producer_inv_def consumer_inv_def slots_inv_def first_live_def

lemma capacity_pos: "valid_capacity cap \<Longrightarrow> 0 < unat cap"
  by (simp add: valid_capacity_def word_less_nat_alt)

lemma unat_ring_ix:
  assumes "valid_capacity cap" shows "unat (ring_ix cap n) = n mod unat cap"
proof -
  have "n mod unat cap < unat cap" using capacity_pos [OF assms] by simp
  also have "\<dots> < 2 ^ LENGTH(64)" by (rule unsigned_less)
  finally show ?thesis by (simp add: ring_ix_def unat_of_nat)
qed

lemma ring_ix_eq_iff:
  "valid_capacity cap \<Longrightarrow> ring_ix cap m = ring_ix cap n \<longleftrightarrow> m mod unat cap = n mod unat cap"
  by (simp add: word_unat_eq_iff unat_ring_ix)

lemma ring_ix_Suc:
  assumes "valid_capacity cap" shows "(ring_ix cap n + 1) AND q_mask cap = ring_ix cap (Suc n)"
proof -
  have "unat (ring_ix cap n) < unat cap" using capacity_pos [OF assms] by (simp add: unat_ring_ix assms)
  then have "unat ((ring_ix cap n + 1) AND q_mask cap) = Suc (n mod unat cap) mod unat cap"
    using assms by (simp add: next_index unat_ring_ix)
  then show ?thesis using assms by (simp add: word_unat_eq_iff unat_ring_ix mod_Suc_eq)
qed

lemma last_index_map: "last (map f [0..<Suc n]) = f n"
  by simp

lemma hist_nth: "k < Suc n \<Longrightarrow> map f [0..<Suc n] ! k = f k"
  by (simp del: upt_Suc)

lemma mod_neq_of_close: "a < b \<Longrightarrow> b < a + c \<Longrightarrow> a mod c \<noteq> b mod (c::nat)"
  by (metis add.commute less_diff_conv2 less_imp_le_nat mod_eq_dvd_iff_nat nat_dvd_not_less zero_less_diff)

lemma spsc_inv_init: "valid_capacity cap \<Longrightarrow> spsc_inv cap (shared_init cap d)"
  by (simp add: spsc_inv_defs shared_init_def ring_ix_def capacity_pos)

lemma push_begin_room:
  assumes "valid_capacity cap" "t < n + unat cap" "ring_ix cap (Suc t) \<noteq> ring_ix cap n"
  shows "Suc t < n + unat cap"
proof (rule ccontr)
  assume "\<not> Suc t < n + unat cap"
  with assms(2) have "Suc t = n + unat cap" by simp
  then have "Suc t mod unat cap = n mod unat cap" by simp
  with assms(1,3) show False by (simp add: ring_ix_eq_iff)
qed

lemma spsc_inv_room: "spsc_inv cap s \<Longrightarrow> length (pushed s) < length (popped s) + unat cap"
  by (auto simp: spsc_inv_def indices_inv_def)

lemma push_begin_inv:
  assumes "spsc_inv cap s" "producer s = P_Idle" "seen_head s \<le> n" "n < length (head_hist s)"
    and "(last (tail_hist s) + 1) AND q_mask cap \<noteq> head_hist s ! n"
  shows "spsc_inv cap (s\<lparr>seen_head := n, producer := P_Ready item (last (tail_hist s)) ((last (tail_hist s) + 1) AND q_mask cap)\<rparr>)"
proof -
  have v: "valid_capacity cap" using assms(1) by (simp add: spsc_inv_def)
  have "Suc (length (pushed s)) < n + unat cap"
    using assms by (intro push_begin_room [OF v])
      (auto simp: spsc_inv_def indices_inv_def ring_ix_Suc [OF v] last_index_map hist_nth simp del: upt_Suc)
  then show ?thesis using assms by (auto simp: spsc_inv_defs ring_ix_Suc split: consumer.splits)
qed

lemma spsc_step_inv:
  assumes "spsc_step moved cap s t" and "spsc_inv cap s"
  shows "spsc_inv cap t"
proof -
  have v: "valid_capacity cap" using assms(2) by (simp add: spsc_inv_def)
  note ix = ring_ix_Suc [OF v]
  have c: "0 < unat cap" by (rule capacity_pos [OF v])
  show ?thesis
    using assms(1)
  proof (cases rule: spsc_step.cases)
    case (push_full n)
    then show ?thesis using assms(2) by (auto simp: spsc_inv_defs split: consumer.splits)
  next
    case (push_begin n next_tail item)
    then show ?thesis using push_begin_inv [OF assms(2), of n item] by simp
  next
    case (push_write item tail next_tail)
    have "length (pushed s) mod unat cap \<noteq> i mod unat cap" if "length (popped s) \<le> i" "i < length (pushed s)" for i
      using that spsc_inv_room [OF assms(2)] by (intro mod_neq_of_close [symmetric]) simp_all
    then show ?thesis using push_write assms(2) c
      by (auto simp: spsc_inv_defs unat_ring_ix [OF v] split: consumer.splits)
  next
    case (push_publish item next_tail)
    then show ?thesis using assms(2)
      by (auto simp: spsc_inv_defs nth_append less_Suc_eq split: consumer.splits)
  next
    case (pop_none n)
    then show ?thesis using assms(2) by (auto simp: spsc_inv_defs split: producer.splits)
  next
    case (pop_begin n)
    then have "length (popped s) \<noteq> n"
      using assms(2) by (auto simp: spsc_inv_def indices_inv_def last_index_map hist_nth simp del: upt_Suc)
    then show ?thesis using pop_begin assms(2) by (auto simp: spsc_inv_defs split: producer.splits)
  next
    case (pop_read head)
    have other: "length (popped s) mod unat cap \<noteq> i mod unat cap" if "length (popped s) < i" "i \<le> length (pushed s)" for i
      using that spsc_inv_room [OF assms(2)] by (intro mod_neq_of_close) simp_all
    have "length (popped s) < length (pushed s)" "head = ring_ix cap (length (popped s))"
      using assms(2) pop_read by (auto simp: spsc_inv_defs)
    then show ?thesis using assms(2) pop_read other c
      by (auto simp: spsc_inv_defs unat_ring_ix [OF v] simp del: upt_Suc split: producer.splits)
  next
    case (pop_publish item head)
    then show ?thesis using assms(2)
      by (auto simp: spsc_inv_defs ix take_Suc_conv_app_nth split: producer.splits)
  qed
qed


lemma spsc_reachable_inv:
  assumes "valid_capacity cap" "spsc_reachable moved cap d s"
  shows "spsc_inv cap s"
  using assms(2) by (induction rule: spsc_reachable.induct)
    (auto intro: spsc_inv_init [OF assms(1)] spsc_step_inv)

subsection \<open>What two threads can rely on\<close>

text \<open>C13: in every interleaving, stale views included, the consumer has received a prefix
  of what the producer published, in order, and at most capacity minus one items wait.\<close>

theorem spsc_fifo:
  assumes "valid_capacity cap" "spsc_reachable moved cap d s"
  shows "popped s = take (length (popped s)) (pushed s)
    \<and> length (pushed s) \<le> length (popped s) + (unat cap - 1)"
  using spsc_reachable_inv [OF assms] by (auto simp: spsc_inv_def indices_inv_def)

text \<open>C14: the two threads never touch the same slot: when the producer is about to write and
  the consumer about to read, the slots differ; moreover each slot access comes after the
  access of the other side that it depends on has been observed through an index.\<close>

theorem spsc_race_free:
  assumes "valid_capacity cap" "spsc_reachable moved cap d s"
    and "producer s = P_Ready item tail next_tail" "consumer s = C_Ready head"
  shows "unat tail \<noteq> unat head
    \<and> length (popped s) < seen_tail s \<and> Suc (length (pushed s)) < seen_head s + unat cap"
proof -
  have inv: "spsc_inv cap s" by (rule spsc_reachable_inv [OF assms(1,2)])
  then have h: "length (popped s) < length (pushed s)" "length (pushed s) < length (popped s) + unat cap"
    using assms(3,4) by (auto simp: spsc_inv_defs)
  then have "length (popped s) mod unat cap \<noteq> length (pushed s) mod unat cap"
    by (rule mod_neq_of_close)
  then show ?thesis
    using inv assms by (auto simp: spsc_inv_defs unat_ring_ix)
qed


text \<open>A run on a ring of four slots: one item published, a second push under way, and the
  consumer about to read the first.\<close>

definition demo_state :: "nat shared" where
  "demo_state = \<lparr>head_hist = [0], tail_hist = [0, 1], slots = [7, 0, 0, 0],
     producer = P_Ready 8 1 2, consumer = C_Ready 0, seen_head = 0, seen_tail = 1,
     pushed = [7], popped = []\<rparr>"

lemma demo_reachable: "spsc_reachable id 4 0 demo_state"
proof -
  note step = spsc_next [of id 4 0]
  let ?s = "shared_init 4 (0::nat)"
  let ?s1 = "?s\<lparr>seen_head := 0, producer := P_Ready 7 0 1\<rparr>"
  let ?s2 = "?s1\<lparr>slots := (slots ?s1)[unat (0::u64) := 7], producer := P_Written 7 1\<rparr>"
  let ?s3 = "?s2\<lparr>tail_hist := tail_hist ?s2 @ [1], pushed := pushed ?s2 @ [7], producer := P_Idle\<rparr>"
  let ?s4 = "?s3\<lparr>seen_head := 0, producer := P_Ready 8 1 2\<rparr>"
  let ?s5 = "?s4\<lparr>seen_tail := 1, consumer := C_Ready 0\<rparr>"
  have "spsc_step id 4 ?s ?s1"
    using spsc_step.push_begin [of ?s 0 1 4 id 7] by (simp add: shared_init_def q_mask_def)
  moreover have "spsc_step id 4 ?s1 ?s2" by (rule spsc_step.push_write) simp
  moreover have "spsc_step id 4 ?s2 ?s3" by (rule spsc_step.push_publish) simp
  moreover have "spsc_step id 4 ?s3 ?s4"
    using spsc_step.push_begin [of ?s3 0 2 4 id 8] by (simp add: shared_init_def q_mask_def)
  moreover have "spsc_step id 4 ?s4 ?s5"
    using spsc_step.pop_begin [of ?s4 1 id 4] by (simp add: shared_init_def)
  ultimately have "spsc_reachable id 4 0 ?s5"
    using spsc_start [of id 4 0] by (meson step)
  moreover have "replicate 4 (0::nat) = [0, 0, 0, 0]" by (simp add: numeral_eq_Suc)
  ultimately show ?thesis by (simp add: demo_state_def shared_init_def)
qed

lemma valid_capacity_4: "valid_capacity 4"
  by (simp add: valid_capacity_def)

theorem spsc_fifo_witness:
  "popped demo_state = take (length (popped demo_state)) (pushed demo_state)
    \<and> length (pushed demo_state) \<le> length (popped demo_state) + (unat (4::u64) - 1)"
  by (rule spsc_fifo [OF valid_capacity_4 demo_reachable])

theorem spsc_race_free_witness:
  "unat (1::u64) \<noteq> unat (0::u64)
    \<and> length (popped demo_state) < seen_tail demo_state
    \<and> Suc (length (pushed demo_state)) < seen_head demo_state + unat (4::u64)"
  by (rule spsc_race_free [OF valid_capacity_4 demo_reachable, of 8 1 2 0]) (simp_all add: demo_state_def)

text \<open>The compile-time check on the template parameter accepts exactly the powers of
  two, and then the mask wraps every index as reduction modulo the capacity does.\<close>

theorem capacity_check:
  "valid_capacity cap \<longleftrightarrow> (\<exists>k<64. cap = 2 ^ k \<and> (\<forall>x. unat (x AND q_mask cap) = unat x mod 2 ^ k))"
proof
  assume v: "valid_capacity cap"
  then obtain k where k: "k < 64" "cap = 2 ^ k" using valid_capacity_pow2 by blast
  then show "\<exists>k<64. cap = 2 ^ k \<and> (\<forall>x. unat (x AND q_mask cap) = unat x mod 2 ^ k)"
    using mask_mod [OF v] by (metis unat_pow2)
next
  assume "\<exists>k<64. cap = 2 ^ k \<and> (\<forall>x. unat (x AND q_mask cap) = unat x mod 2 ^ k)"
  then show "valid_capacity cap" using valid_capacity_pow2 by blast
qed

text \<open>On a ring with valid capacity the size estimate and the emptiness test, read while
  neither side is active, are the number of waiting items and its comparison with zero.\<close>

theorem size_and_empty:
  assumes "ring_inv cap q"
  shows "unat (size_approx cap q) = length (q_items cap q)
    \<and> (q_empty q \<longleftrightarrow> q_items cap q = []) \<and> length (q_items cap q) \<le> unat (q_capacity cap)"
proof -
  have v: "valid_capacity cap" "q_inv cap q" using assms by (simp_all add: ring_inv_def)
  have "cap \<noteq> 0" using v(1) by (simp add: valid_capacity_def word_greater_zero_iff)
  then have "unat (q_capacity cap) = unat cap - 1" by (simp add: q_capacity_def unat_minus_one)
  then show ?thesis
    using v ring.items_room [OF assms] by (simp add: size_approx_count q_empty_iff)
qed

theorem size_and_empty_witness:
  "unat (size_approx 4 (snd (try_push 4 (9::nat) (spsc_new 4 0)))) = 1"
proof -
  have "ring_inv 4 (snd (try_push 4 (9::nat) (spsc_new 4 0)))"
    by (simp add: ring_inv_def valid_capacity_4 q_inv_def try_push_def spsc_new_def q_mask_def)
  from size_and_empty [OF this]
  have "unat (size_approx 4 (snd (try_push 4 (9::nat) (spsc_new 4 0))))
      = length (q_items 4 (snd (try_push 4 (9::nat) (spsc_new 4 0))))" by blast
  also have "\<dots> = 1"
    by (simp add: q_count_def try_push_def spsc_new_def q_mask_def)
  finally show ?thesis .
qed

end
