(* ===== verification/Spsc_Atomic.thy ===== *)
theory Spsc_Atomic
  imports Spsc_Queue
begin

text \<open>
  The two models of \<open>src/core/spsc_queue.h\<close> agree: what producer and consumer do in any
  interleaving of their atomic accesses is what some sequence of whole calls of \<open>try_push\<close> and
  \<open>try_pop\<close> does. The push takes effect when it publishes the tail, the pop when it publishes
  the head, so each does within its own call. The components that call the queue from two
  threads use the whole calls; this theory is the reason they may.
\<close>

section \<open>Scripts of calls\<close>

definition script_pushes :: "'a qop list \<Rightarrow> 'a list" where
  "script_pushes ops = List.map_filter (\<lambda>p. case p of Push x \<Rightarrow> Some x | Pop \<Rightarrow> None) ops"

definition script_pops :: "'a qout list \<Rightarrow> 'a list" where
  "script_pops outs = List.map_filter (\<lambda>r. case r of Popped y \<Rightarrow> y | Pushed _ \<Rightarrow> None) outs"

definition all_succeed :: "'a qout list \<Rightarrow> bool" where
  "all_succeed outs \<longleftrightarrow> list_all (\<lambda>r. case r of Pushed b \<Rightarrow> b | Popped y \<Rightarrow> y \<noteq> None) outs"

lemma script_snoc [simp]:
  "script_pushes (ops @ [Push x]) = script_pushes ops @ [x]" "script_pushes (ops @ [Pop]) = script_pushes ops"
  "script_pops (outs @ [Popped (Some y)]) = script_pops outs @ [y]" "script_pops (outs @ [Pushed b]) = script_pops outs"
  "all_succeed (outs @ [Popped (Some y)]) = all_succeed outs" "all_succeed (outs @ [Pushed True]) = all_succeed outs"
  by (simp_all add: script_pushes_def script_pops_def all_succeed_def List.map_filter_def)

lemma run_ops_append:
  "run_ops push pop (ops @ ops') q =
     (let (outs, q') = run_ops push pop ops q; (outs', q'') = run_ops push pop ops' q' in (outs @ outs', q''))"
  by (induction push pop ops q rule: run_ops.induct) (auto simp: Let_def split: prod.splits option.splits)

section \<open>The queue between two accesses\<close>

definition queue_of :: "'a shared \<Rightarrow> 'a list" where
  "queue_of s = drop (length (popped s)) (pushed s)"

text \<open>A step of either thread leaves the queue as it is, or is one successful call on the list.\<close>

lemma spsc_step_atomic:
  assumes "spsc_step moved cap s t" "spsc_inv cap s"
  shows "(queue_of t = queue_of s \<and> pushed t = pushed s \<and> popped t = popped s)
    \<or> (\<exists>x. fifo_push (unat cap - 1) x (queue_of s) = (True, queue_of t) \<and> pushed t = pushed s @ [x] \<and> popped t = popped s)
    \<or> (\<exists>x. fifo_pop (queue_of s) = Some (x, queue_of t) \<and> pushed t = pushed s \<and> popped t = popped s @ [x])"
  using assms(1)
proof cases
  case (push_publish item next_tail)
  have "length (queue_of s) < unat cap - 1" "length (popped s) \<le> length (pushed s)"
    using assms(2) push_publish(2) by (auto simp: spsc_inv_defs queue_of_def)
  then show ?thesis using push_publish(1) by (simp add: queue_of_def fifo_push_def)
next
  case (pop_publish item head)
  have "length (popped s) < length (pushed s)" "item = pushed s ! length (popped s)"
    using assms(2) pop_publish(2) by (auto simp: spsc_inv_defs)
  then have "queue_of s = item # queue_of t" using pop_publish(1) by (simp add: queue_of_def Cons_nth_drop_Suc)
  then show ?thesis using pop_publish(1) by (simp add: fifo_pop_def)
qed (simp_all add: queue_of_def)

text \<open>The calls that had their effect so far.\<close>

lemma fifo_script:
  assumes "valid_capacity cap" "spsc_reachable moved cap d s"
  shows "\<exists>ops outs. run_ops (fifo_push (unat cap - 1)) fifo_pop ops [] = (outs, queue_of s)
    \<and> all_succeed outs \<and> script_pushes ops = pushed s \<and> script_pops outs = popped s"
  using assms(2)
proof (induction rule: spsc_reachable.induct)
  case spsc_start
  show ?case
    by (rule exI [of _ "[]"]) (simp add: queue_of_def shared_init_def all_succeed_def script_pushes_def script_pops_def
        List.map_filter_def)
next
  case (spsc_next s t)
  then obtain ops outs where h: "run_ops (fifo_push (unat cap - 1)) fifo_pop ops [] = (outs, queue_of s)"
    "all_succeed outs" "script_pushes ops = pushed s" "script_pops outs = popped s" by blast
  from spsc_step_atomic [OF spsc_next(2) spsc_reachable_inv [OF assms(1) spsc_next(1)]] show ?case
  proof (elim disjE exE conjE)
    fix x assume "fifo_push (unat cap - 1) x (queue_of s) = (True, queue_of t)" "pushed t = pushed s @ [x]" "popped t = popped s"
    then show ?case using h
      by (intro exI [of _ "ops @ [Push x]"] exI [of _ "outs @ [Pushed True]"]) (simp add: run_ops_append)
  next
    fix x assume "fifo_pop (queue_of s) = Some (x, queue_of t)" "pushed t = pushed s" "popped t = popped s @ [x]"
    then show ?case using h
      by (intro exI [of _ "ops @ [Pop]"] exI [of _ "outs @ [Popped (Some x)]"]) (simp add: run_ops_append)
  qed (use h in auto)
qed

text \<open>C15: Every interleaving of the two threads amounts to a sequence of whole calls on a fresh ring, each
  successful: the same items went in and came out, in the same order, and the same are left.\<close>

theorem spsc_linearizes:
  assumes "valid_capacity cap" "spsc_reachable moved cap d s"
  shows "\<exists>ops outs q. run_ops (try_push cap) (try_pop moved cap) ops (spsc_new cap d) = (outs, q)
    \<and> all_succeed outs \<and> script_pushes ops = pushed s \<and> script_pops outs = popped s
    \<and> q_items cap q = drop (length (popped s)) (pushed s)"
proof -
  obtain ops outs where h: "run_ops (fifo_push (unat cap - 1)) fifo_pop ops [] = (outs, queue_of s)"
    "all_succeed outs" "script_pushes ops = pushed s" "script_pops outs = popped s" using fifo_script [OF assms] by blast
  have "q_items cap (spsc_new cap d) = []" by (rule q_new_items)
  then obtain q where "run_ops (try_push cap) (try_pop moved cap) ops (spsc_new cap d) = (outs, q)" "q_items cap q = queue_of s"
    using ring.run_refines_fifo [OF ring_new [OF assms(1)], where ops = ops and d1 = d and moved = moved] h(1) by auto
  then show ?thesis using h(2-4) by (auto simp: queue_of_def)
qed

section \<open>What a refusal means\<close>

lemma ring_ix_close:
  assumes "valid_capacity cap" "ring_ix cap a = ring_ix cap b" "b \<le> a" "a < b + unat cap"
  shows "a = b"
  using assms mod_neq_of_close [of b a "unat cap"] by (fastforce simp: ring_ix_eq_iff)

text \<open>The view on which a call is refused: of the head at position \<open>n\<close>, or of the tail.\<close>

definition refuses_push :: "u64 \<Rightarrow> 'a shared \<Rightarrow> nat \<Rightarrow> bool" where
  "refuses_push cap s n \<longleftrightarrow> producer s = P_Idle \<and> seen_head s \<le> n \<and> n < length (head_hist s)
     \<and> (last (tail_hist s) + 1) AND q_mask cap = head_hist s ! n"

definition refuses_pop :: "'a shared \<Rightarrow> nat \<Rightarrow> bool" where
  "refuses_pop s n \<longleftrightarrow> consumer s = C_Idle \<and> seen_tail s \<le> n \<and> n < length (tail_hist s)
     \<and> last (head_hist s) = tail_hist s ! n"


section \<open>Concrete interleavings\<close>

theorem spsc_linearizes_witness:
  "\<exists>ops outs q. run_ops (try_push 4) (try_pop id 4) ops (spsc_new 4 (0::nat)) = (outs, q)
    \<and> script_pushes ops = [7] \<and> script_pops outs = [] \<and> q_items 4 q = [7]"
  using spsc_linearizes [OF valid_capacity_4 demo_reachable] by (auto simp: demo_state_def)

text \<open>A ring of two slots: refused a pop while it is new, and a push once it holds an item.\<close>

definition one_item :: "nat shared" where
  "one_item = \<lparr>head_hist = [0], tail_hist = [0, 1], slots = [7, 0], producer = P_Idle, consumer = C_Idle,
     seen_head = 0, seen_tail = 0, pushed = [7], popped = []\<rparr>"

lemma one_item_reachable: "spsc_reachable id 2 0 one_item"
proof -
  let ?s = "shared_init 2 (0::nat)"
  let ?s1 = "?s\<lparr>seen_head := 0, producer := P_Ready 7 0 1\<rparr>"
  let ?s2 = "?s1\<lparr>slots := (slots ?s1)[unat (0::u64) := 7], producer := P_Written 7 1\<rparr>"
  let ?s3 = "?s2\<lparr>tail_hist := tail_hist ?s2 @ [1], pushed := pushed ?s2 @ [7], producer := P_Idle\<rparr>"
  have "spsc_step id 2 ?s ?s1"
    using spsc_step.push_begin [of ?s 0 1 2 id 7] by (simp add: shared_init_def q_mask_def)
  moreover have "spsc_step id 2 ?s1 ?s2" by (rule spsc_step.push_write) simp
  moreover have "spsc_step id 2 ?s2 ?s3" by (rule spsc_step.push_publish) simp
  ultimately have "spsc_reachable id 2 0 ?s3"
    using spsc_start [of id 2 0] by (meson spsc_next [of id 2 0])
  moreover have "replicate 2 (0::nat) = [0, 0]" by (simp add: numeral_eq_Suc)
  ultimately show ?thesis by (simp add: one_item_def shared_init_def)
qed


end
