(* ===== verification/Order_Book.thy ===== *)
theory Order_Book
  imports Core_Types
begin

text \<open>
  \<open>src/engine/order_book.h\<close> and \<open>order_book.cpp\<close>. The two sides are \<open>std::map\<close>s from price
  to quantity, here lists of pairs kept in the order of the map's comparison: bids under
  \<open>std::greater\<close>, asks under \<open>std::less\<close>. The map operations are defined once over the
  comparison; the laws they obey are proved in the locale \<open>strict_weak\<close> and interpreted for
  both sides.
\<close>

section \<open>std::map\<close>

text \<open>
  \<open>operator[]\<close> with assignment: an equivalent key keeps its place and its spelling (a
  stored \<open>-0.0\<close> stays when \<open>0.0\<close> is assigned), only the value changes.
\<close>

fun map_insert :: "('k \<Rightarrow> 'k \<Rightarrow> bool) \<Rightarrow> 'k \<Rightarrow> 'v \<Rightarrow> ('k \<times> 'v) list \<Rightarrow> ('k \<times> 'v) list" where
  "map_insert before k v [] = [(k, v)]"
| "map_insert before k v ((k', v') # m) =
     (if before k k' then (k, v) # (k', v') # m
      else if before k' k then (k', v') # map_insert before k v m
      else (k', v) # m)"

fun map_erase :: "('k \<Rightarrow> 'k \<Rightarrow> bool) \<Rightarrow> 'k \<Rightarrow> ('k \<times> 'v) list \<Rightarrow> ('k \<times> 'v) list" where
  "map_erase before k [] = []"
| "map_erase before k ((k', v') # m) =
     (if before k k' then (k', v') # m
      else if before k' k then (k', v') # map_erase before k m
      else m)"

fun map_find :: "('k \<Rightarrow> 'k \<Rightarrow> bool) \<Rightarrow> 'k \<Rightarrow> ('k \<times> 'v) list \<Rightarrow> 'v option" where
  "map_find before k [] = None"
| "map_find before k ((k', v') # m) =
     (if before k k' then None else if before k' k then map_find before k m else Some v')"

definition map_sorted :: "('k \<Rightarrow> 'k \<Rightarrow> bool) \<Rightarrow> ('k \<times> 'v) list \<Rightarrow> bool" where
  "map_sorted before m \<longleftrightarrow> sorted_wrt before (map fst m)"

definition equivalent :: "('k \<Rightarrow> 'k \<Rightarrow> bool) \<Rightarrow> 'k \<Rightarrow> 'k \<Rightarrow> bool" where
  "equivalent before a b \<longleftrightarrow> \<not> before a b \<and> \<not> before b a"

text \<open>
  What the standard asks of the comparison, on the keys \<open>key\<close> holds for: a strict weak
  ordering.
\<close>

locale strict_weak =
  fixes before :: "'k \<Rightarrow> 'k \<Rightarrow> bool" and key :: "'k \<Rightarrow> bool"
  assumes irrefl: "\<not> before a a"
    and trans: "before a b \<Longrightarrow> before b c \<Longrightarrow> before a c"
    and weak: "key b \<Longrightarrow> before a c \<Longrightarrow> before a b \<or> before b c"
begin

definition keys_ok :: "('k \<times> 'v) list \<Rightarrow> bool" where
  "keys_ok m \<longleftrightarrow> (\<forall>p\<in>set m. key (fst p))"

lemma asym: "before a b \<Longrightarrow> \<not> before b a"
  using irrefl trans by blast

lemma keys_insert: "fst ` set (map_insert before k v m) \<subseteq> insert k (fst ` set m)"
proof (induction m)
  case (Cons p m)
  then show ?case by (cases p) (auto split: if_splits)
qed simp

lemma keys_erase: "set (map_erase before k m) \<subseteq> set m"
proof (induction m)
  case (Cons p m)
  then show ?case by (cases p) (auto split: if_splits)
qed simp

lemma values_insert: "snd ` set (map_insert before k v m) \<subseteq> insert v (snd ` set m)"
proof (induction m)
  case (Cons p m)
  then show ?case by (cases p) (auto split: if_splits)
qed simp

lemma sorted_insert:
  assumes "map_sorted before m" shows "map_sorted before (map_insert before k v m)"
  using assms
proof (induction m)
  case Nil
  then show ?case by (simp add: map_sorted_def)
next
  case (Cons p m)
  obtain k' v' where p: "p = (k', v')" by fastforce
  have above: "\<forall>x \<in> fst ` set m. before k' x" and m: "map_sorted before m"
    using Cons.prems by (auto simp: map_sorted_def p)
  show ?case
  proof (cases "before k k'")
    case True
    with above m show ?thesis by (auto simp: map_sorted_def p intro: trans)
  next
    case False
    have "\<forall>x \<in> fst ` set (map_insert before k v m). before k' x" if "before k' k"
      using above keys_insert [of k v m] that by blast
    with False above Cons.IH [OF m] m show ?thesis
      by (auto simp: map_sorted_def p)
  qed
qed

lemma sorted_erase:
  assumes "map_sorted before m" shows "map_sorted before (map_erase before k m)"
  using assms
proof (induction m)
  case Nil
  then show ?case by simp
next
  case (Cons p m)
  then show ?case using keys_erase [of k m] by (cases p) (auto simp: map_sorted_def)
qed

lemma find_above:
  assumes "\<forall>x \<in> fst ` set m. before k x" shows "map_find before k m = None"
  using assms by (cases m) auto

lemma find_insert:
  assumes "map_sorted before m" "keys_ok m" "key k" "key k'"
  shows "map_find before k' (map_insert before k v m) =
    (if equivalent before k k' then Some v else map_find before k' m)"
  using assms(1,2)
proof (induction m)
  case Nil
  then show ?case by (auto simp: equivalent_def)
next
  case (Cons p m)
  obtain a b where p: "p = (a, b)" by fastforce
  have m: "map_sorted before m" "keys_ok m" and a: "key a"
    using Cons.prems by (simp_all add: map_sorted_def keys_ok_def p)
  note IH = Cons.IH [OF m]
  have w: "before x z \<Longrightarrow> before x k \<or> before k z" "before x z \<Longrightarrow> before x k' \<or> before k' z"
    "before x z \<Longrightarrow> before x a \<or> before a z" for x z
    using weak assms a by blast+
  show ?case
    using IH w(1) [of a k'] w(2) [of k a] w(1) [of k' a] w(2) [of a k] w(3) [of k k'] w(3) [of k' k]
      asym [of k k'] asym [of a k] asym [of a k'] irrefl
    unfolding p equivalent_def by auto
qed

lemma find_erase:
  assumes "map_sorted before m" "keys_ok m" "key k" "key k'"
  shows "map_find before k' (map_erase before k m) = (if equivalent before k k' then None else map_find before k' m)"
  using assms(1,2)
proof (induction m)
  case Nil
  then show ?case by simp
next
  case (Cons p m)
  obtain a b where p: "p = (a, b)" by fastforce
  have m: "map_sorted before m" "keys_ok m" and a: "key a" and above: "\<forall>x \<in> fst ` set m. before a x"
    using Cons.prems by (auto simp: map_sorted_def keys_ok_def p)
  note IH = Cons.IH [OF m]
  have w: "before x z \<Longrightarrow> before x k \<or> before k z" "before x z \<Longrightarrow> before x k' \<or> before k' z"
    "before x z \<Longrightarrow> before x a \<or> before a z" for x z
    using weak assms a by blast+
  have eqv: "map_find before k' m = None" if "\<not> before a k'"
  proof (rule find_above)
    show "\<forall>x \<in> fst ` set m. before k' x" using above w(2) that by blast
  qed
  show ?case
    using IH eqv w(1) [of a k'] w(2) [of k a] w(1) [of k' a] w(2) [of a k] w(3) [of k k'] w(3) [of k' k]
      asym [of k k'] asym [of a k] asym [of a k'] irrefl
    unfolding p equivalent_def by auto
qed

lemma find_mem:
  assumes "map_sorted before m" "(k, v) \<in> set m" shows "map_find before k m = Some v"
  using assms
proof (induction m)
  case (Cons p m)
  then show ?case using asym irrefl by (cases p) (fastforce simp: map_sorted_def)
qed simp

lemma find_SomeD: "map_find before k m = Some v \<Longrightarrow> \<exists>k'. (k', v) \<in> set m \<and> equivalent before k k'"
  by (induction m) (auto simp: equivalent_def split: if_splits)

lemma first_least: "map_sorted before m \<Longrightarrow> p \<in> set m \<Longrightarrow> \<not> before (fst p) (fst (hd m))"
  by (cases m) (auto simp: map_sorted_def irrefl dest: asym)

end

definition less_price :: "double \<Rightarrow> double \<Rightarrow> bool" where
  "less_price a b = (a < b)"

definition greater_price :: "double \<Rightarrow> double \<Rightarrow> bool" where
  "greater_price a b = (b < a)"

definition price_ok :: "double \<Rightarrow> bool" where
  "price_ok p \<longleftrightarrow> \<not> d_nan p"

interpretation asks: strict_weak less_price price_ok
  by unfold_locales (auto simp: less_price_def price_ok_def less_double_def)

interpretation bids: strict_weak greater_price price_ok
  by unfold_locales (auto simp: greater_price_def price_ok_def less_double_def)

lemma equivalent_price:
  "price_ok a \<Longrightarrow> price_ok b \<Longrightarrow> equivalent less_price a b \<longleftrightarrow> d_eq a b"
  "price_ok a \<Longrightarrow> price_ok b \<Longrightarrow> equivalent greater_price a b \<longleftrightarrow> d_eq a b"
  by (auto simp: equivalent_def less_price_def greater_price_def less_double_def price_ok_def d_eq_def)


section \<open>The book\<close>

type_synonym side = "(double \<times> double) list"

record order_book =
  ob_symbol :: string
  ob_bids :: side
  ob_asks :: side
  ob_last_update_id :: u64
  ob_update_count :: u64

definition new_book :: "string \<Rightarrow> order_book" where
  "new_book name = \<lparr>ob_symbol = name, ob_bids = [], ob_asks = [], ob_last_update_id = 0, ob_update_count = 0\<rparr>"

text \<open>
  Gap detection of \<open>apply_update\<close>: the size of the gap it warns about, if it warns. It only
  logs; the update is applied all the same.
\<close>

definition sequence_gap :: "order_book \<Rightarrow> depth_update \<Rightarrow> u64 option" where
  "sequence_gap b u =
     (if 0 < ob_last_update_id b \<and> ob_last_update_id b + 1 < du_first_update_id u
      then Some (du_first_update_id u - ob_last_update_id b - 1) else None)"

definition apply_level :: "(double \<Rightarrow> double \<Rightarrow> bool) \<Rightarrow> price_level \<Rightarrow> side \<Rightarrow> side res" where
  "apply_level before l m =
     (if d_nan (lv_price l) then Inl Nan_Key
      else if d_eq (lv_qty l) 0 then Inr (map_erase before (lv_price l) m)
      else Inr (map_insert before (lv_price l) (lv_qty l) m))"

text \<open>The loop \<open>for (i = 0; i < count; ++i)\<close> over the unchecked array.\<close>

fun apply_levels :: "(double \<Rightarrow> double \<Rightarrow> bool) \<Rightarrow> price_level list \<Rightarrow> nat \<Rightarrow> nat \<Rightarrow> side \<Rightarrow> side res" where
  "apply_levels before levels i 0 m = Inr m"
| "apply_levels before levels i (Suc n) m =
     (if i < length levels
      then bind_res (apply_level before (levels ! i) m) (apply_levels before levels (Suc i) n)
      else Inl Out_Of_Bounds)"

definition apply_update :: "depth_update \<Rightarrow> order_book \<Rightarrow> order_book res" where
  "apply_update u b =
     bind_res (apply_levels greater_price (du_bids u) 0 (unat (du_bid_count u)) (ob_bids b)) (\<lambda>bids'.
     bind_res (apply_levels less_price (du_asks u) 0 (unat (du_ask_count u)) (ob_asks b)) (\<lambda>asks'.
     Inr (b\<lparr>ob_bids := bids', ob_asks := asks', ob_last_update_id := du_last_update_id u,
            ob_update_count := ob_update_count b + 1\<rparr>)))"

definition clear_book :: "order_book \<Rightarrow> order_book" where
  "clear_book b = b\<lparr>ob_bids := [], ob_asks := [], ob_last_update_id := 0, ob_update_count := 0\<rparr>"

definition best_bid_price :: "order_book \<Rightarrow> double" where
  "best_bid_price b = (case ob_bids b of [] \<Rightarrow> 0 | (p, _) # _ \<Rightarrow> p)"

definition best_ask_price :: "order_book \<Rightarrow> double" where
  "best_ask_price b = (case ob_asks b of [] \<Rightarrow> 0 | (p, _) # _ \<Rightarrow> p)"

definition best_bid_qty :: "order_book \<Rightarrow> double" where
  "best_bid_qty b = (case ob_bids b of [] \<Rightarrow> 0 | (_, q) # _ \<Rightarrow> q)"

definition best_ask_qty :: "order_book \<Rightarrow> double" where
  "best_ask_qty b = (case ob_asks b of [] \<Rightarrow> 0 | (_, q) # _ \<Rightarrow> q)"

definition spread :: "order_book \<Rightarrow> double" where
  "spread b = (if ob_bids b = [] \<or> ob_asks b = [] then 0 else best_ask_price b - best_bid_price b)"

definition mid_price :: "order_book \<Rightarrow> double" where
  "mid_price b = (if ob_bids b = [] \<or> ob_asks b = [] then 0
     else (best_bid_price b + best_ask_price b) / double_lit 2 1)"

definition bid_levels :: "order_book \<Rightarrow> nat" where
  "bid_levels b = length (ob_bids b)"

definition ask_levels :: "order_book \<Rightarrow> nat" where
  "ask_levels b = length (ob_asks b)"

fun qty_loop :: "double \<Rightarrow> side \<Rightarrow> double" where
  "qty_loop tot [] = tot"
| "qty_loop tot ((price, qty) # m) = qty_loop (tot + qty) m"

definition total_qty :: "side \<Rightarrow> double" where
  "total_qty m = qty_loop 0 m"

definition total_bid_qty :: "order_book \<Rightarrow> double" where
  "total_bid_qty b = total_qty (ob_bids b)"

definition total_ask_qty :: "order_book \<Rightarrow> double" where
  "total_ask_qty b = total_qty (ob_asks b)"

fun vwap_loop :: "nat \<Rightarrow> nat \<Rightarrow> double \<Rightarrow> double \<Rightarrow> side \<Rightarrow> double \<times> double" where
  "vwap_loop levels count sum_pq sum_q [] = (sum_pq, sum_q)"
| "vwap_loop levels count sum_pq sum_q ((price, qty) # m) =
     (if levels \<le> count then (sum_pq, sum_q)
      else vwap_loop levels (Suc count) (sum_pq + price * qty) (sum_q + qty) m)"

definition side_vwap :: "nat \<Rightarrow> side \<Rightarrow> double" where
  "side_vwap levels m =
     (let (sum_pq, sum_q) = vwap_loop levels 0 0 0 m in if 0 < sum_q then sum_pq / sum_q else 0)"

definition bid_vwap :: "nat \<Rightarrow> order_book \<Rightarrow> double" where
  "bid_vwap levels b = side_vwap levels (ob_bids b)"

definition ask_vwap :: "nat \<Rightarrow> order_book \<Rightarrow> double" where
  "ask_vwap levels b = side_vwap levels (ob_asks b)"

section \<open>Invariant\<close>

text \<open>
  A side is in order, without NaN prices and without zero quantities. Order is strict, so a
  price occurs once.
\<close>

definition side_inv :: "(double \<Rightarrow> double \<Rightarrow> bool) \<Rightarrow> side \<Rightarrow> bool" where
  "side_inv before m \<longleftrightarrow> map_sorted before m \<and> (\<forall>(p, q)\<in>set m. price_ok p \<and> \<not> d_eq q 0)"

definition book_inv :: "order_book \<Rightarrow> bool" where
  "book_inv b \<longleftrightarrow> side_inv greater_price (ob_bids b) \<and> side_inv less_price (ob_asks b)"

lemma book_inv_new: "book_inv (new_book name)"
  by (simp add: book_inv_def side_inv_def new_book_def map_sorted_def)

lemma book_inv_clear: "book_inv (clear_book b)"
  by (simp add: book_inv_def side_inv_def clear_book_def map_sorted_def)


section \<open>Applying levels\<close>

text \<open>What an update says about a price: the quantity of the last level that names it.\<close>

fun level_for :: "double \<Rightarrow> price_level list \<Rightarrow> double option" where
  "level_for p [] = None"
| "level_for p (l # ls) =
     (case level_for p ls of Some q \<Rightarrow> Some q | None \<Rightarrow> if d_eq (lv_price l) p then Some (lv_qty l) else None)"

definition side_after :: "(double \<Rightarrow> double \<Rightarrow> bool) \<Rightarrow> price_level list \<Rightarrow> side \<Rightarrow> double \<Rightarrow> double option" where
  "side_after before ls m p =
     (case level_for p ls of None \<Rightarrow> map_find before p m | Some q \<Rightarrow> if d_eq q 0 then None else Some q)"

lemma apply_levels_fold:
  "i + n \<le> length levels \<Longrightarrow>
   apply_levels before levels i n m = fold_res (apply_level before) (take n (drop i levels)) m"
proof (induction n arbitrary: i m)
  case (Suc n)
  then have "take (Suc n) (drop i levels) = levels ! i # take n (drop (Suc i) levels)"
    by (simp add: take_Suc_conv_app_nth Cons_nth_drop_Suc [symmetric])
  with Suc show ?case by (simp add: bind_res_def split: sum.split)
qed simp

lemma apply_levels_beyond:
  "i \<le> length levels \<Longrightarrow> length levels < i + n \<Longrightarrow> \<not> ok (apply_levels before levels i n m)"
proof (induction n arbitrary: i m)
  case (Suc n)
  then show ?case by (cases "apply_level before (levels ! i) m") simp_all
qed simp

lemma apply_level_ok: "ok (apply_level before l m) \<longleftrightarrow> price_ok (lv_price l)"
  by (simp add: apply_level_def price_ok_def)

lemma fold_apply_level_ok:
  "ok (fold_res (apply_level before) ls m) \<longleftrightarrow> (\<forall>l\<in>set ls. price_ok (lv_price l))"
proof (induction ls arbitrary: m)
  case (Cons l ls)
  show ?case using Cons.IH apply_level_ok [of before l m]
    by (cases "apply_level before l m") auto
qed simp

lemma apply_levels_ok_iff:
  "ok (apply_levels before levels 0 n m) \<longleftrightarrow>
     n \<le> length levels \<and> (\<forall>l\<in>set (take n levels). price_ok (lv_price l))"
proof (cases "n \<le> length levels")
  case True
  then show ?thesis by (simp add: apply_levels_fold fold_apply_level_ok)
next
  case False
  then show ?thesis by (simp add: apply_levels_beyond)
qed

text \<open>One side of a book: the comparison is a strict weak order whose equivalence is \<open>==\<close>.\<close>

locale price_side = strict_weak before price_ok for before :: "double \<Rightarrow> double \<Rightarrow> bool" +
  assumes equivalent_eq: "price_ok a \<Longrightarrow> price_ok b \<Longrightarrow> equivalent before a b \<longleftrightarrow> d_eq a b"
begin

lemma side_inv_keys: "side_inv before m \<Longrightarrow> keys_ok m"
  by (auto simp: side_inv_def keys_ok_def)

lemma apply_level_inv:
  assumes "side_inv before m" "apply_level before l m = Inr m'"
  shows "side_inv before m'"
proof (cases "d_eq (lv_qty l) 0")
  case True
  with assms keys_erase [of "lv_price l" m] show ?thesis
    by (auto simp: apply_level_def side_inv_def sorted_erase split: if_splits)
next
  case False
  then have m': "m' = map_insert before (lv_price l) (lv_qty l) m" and "price_ok (lv_price l)"
    using assms(2) by (auto simp: apply_level_def price_ok_def split: if_splits)
  moreover have "p = (lv_price l) \<or> price_ok p" "q = lv_qty l \<or> \<not> d_eq q 0" if "(p, q) \<in> set m'" for p q
    using that keys_insert [of "lv_price l" "lv_qty l" m] values_insert [of "lv_price l" "lv_qty l" m] assms(1)
    unfolding m' side_inv_def by force+
  ultimately show ?thesis
    using assms(1) False by (auto simp: side_inv_def sorted_insert)
qed

lemma apply_level_find:
  assumes "side_inv before m" "apply_level before l m = Inr m'" "price_ok p"
  shows "map_find before p m' = side_after before [l] m p"
proof -
  have l: "price_ok (lv_price l)" using assms(2) by (auto simp: apply_level_def price_ok_def split: if_splits)
  have m: "map_sorted before m" using assms(1) by (simp add: side_inv_def)
  note facts = find_erase [OF m side_inv_keys [OF assms(1)] l assms(3)]
    find_insert [OF m side_inv_keys [OF assms(1)] l assms(3)]
  show ?thesis
    using assms(2) l facts equivalent_eq [OF l assms(3)]
    by (auto simp: apply_level_def side_after_def split: if_splits)
qed

lemma apply_fold:
  assumes "side_inv before m" "fold_res (apply_level before) ls m = Inr m'"
  shows "side_inv before m' \<and> (\<forall>p. price_ok p \<longrightarrow> map_find before p m' = side_after before ls m p)"
  using assms
proof (induction ls arbitrary: m)
  case Nil
  then show ?case by (simp add: side_after_def)
next
  case (Cons l ls)
  then obtain m1 where m1: "apply_level before l m = Inr m1"
    and rest: "fold_res (apply_level before) ls m1 = Inr m'"
    by (auto simp: res_simps)
  have inv1: "side_inv before m1" by (rule apply_level_inv [OF Cons.prems(1) m1])
  show ?case
    using Cons.IH [OF inv1 rest] apply_level_find [OF Cons.prems(1) m1]
    by (auto simp: side_after_def split: option.splits)
qed

lemma apply_levels_spec:
  assumes "side_inv before m" "apply_levels before levels 0 n m = Inr m'"
  shows "side_inv before m' \<and> (\<forall>p. price_ok p \<longrightarrow> map_find before p m' = side_after before (take n levels) m p)"
proof -
  have "ok (apply_levels before levels 0 n m)" using assms(2) by simp
  then have "n \<le> length levels" by (simp add: apply_levels_ok_iff)
  then show ?thesis using assms apply_fold by (simp add: apply_levels_fold)
qed

end

interpretation ask_side: price_side less_price
  by unfold_locales (simp add: equivalent_price)

interpretation bid_side: price_side greater_price
  by unfold_locales (simp add: equivalent_price)


section \<open>What an update does\<close>

lemma update_inv: "book_inv b \<Longrightarrow> apply_update u b = Inr b' \<Longrightarrow> book_inv b'"
  using bid_side.apply_levels_spec ask_side.apply_levels_spec
  by (auto simp: apply_update_def book_inv_def res_simps)

definition counted_bids :: "depth_update \<Rightarrow> price_level list" where
  "counted_bids u = take (unat (du_bid_count u)) (du_bids u)"

definition counted_asks :: "depth_update \<Rightarrow> price_level list" where
  "counted_asks u = take (unat (du_ask_count u)) (du_asks u)"

lemma update_find:
  assumes "book_inv b" "apply_update u b = Inr b'" "price_ok p"
  shows "map_find greater_price p (ob_bids b') = side_after greater_price (counted_bids u) (ob_bids b) p"
    "map_find less_price p (ob_asks b') = side_after less_price (counted_asks u) (ob_asks b) p"
  using assms bid_side.apply_levels_spec ask_side.apply_levels_spec
  by (auto simp: apply_update_def book_inv_def res_simps counted_bids_def counted_asks_def)

lemma update_fields:
  assumes "apply_update u b = Inr b'"
  shows "ob_symbol b' = ob_symbol b" "ob_last_update_id b' = du_last_update_id u"
    "ob_update_count b' = ob_update_count b + 1"
  using assms by (auto simp: apply_update_def res_simps)

text \<open>The book after a list of updates, none of them undefined.\<close>

definition book_run :: "depth_update list \<Rightarrow> order_book \<Rightarrow> order_book res" where
  "book_run us b = fold_res apply_update us b"

lemma book_run_simps [simp]:
  "book_run [] b = Inr b"
  "book_run (u # us) b = bind_res (apply_update u b) (book_run us)"
  by (simp_all add: book_run_def [abs_def])

lemma book_run_append: "book_run (us @ vs) b = bind_res (book_run us b) (book_run vs)"
  by (simp add: book_run_def [abs_def] fold_res_append)

lemma book_run_inv': "book_inv b \<Longrightarrow> book_run us b = Inr b' \<Longrightarrow> book_inv b'"
  unfolding book_run_def by (rule fold_res_invariant [where P = book_inv]) (auto intro: update_inv)

text \<open>C19: from an empty book, any updates that are applied leave both sides in strict price
  order, free of NaN prices and of zero quantities, and count themselves.\<close>

theorem book_run_inv:
  assumes "book_run us (new_book name) = Inr b"
  shows "book_inv b \<and> ob_update_count b = of_nat (length us) \<and> ob_symbol b = name
    \<and> (us \<noteq> [] \<longrightarrow> ob_last_update_id b = du_last_update_id (last us))"
  using assms
proof (induction us arbitrary: b rule: rev_induct)
  case Nil
  then have "b = new_book name" by simp
  then show ?case using book_inv_new [of name] by (simp add: new_book_def)
next
  case (snoc u us)
  then obtain b0 where "book_run us (new_book name) = Inr b0" "apply_update u b0 = Inr b"
    by (auto simp: book_run_append res_simps)
  with snoc.IH update_fields [of u b0 b] show ?case by (auto intro: update_inv)
qed

lemma level_for_append:
  "level_for p (xs @ ys) = (case level_for p ys of Some q \<Rightarrow> Some q | None \<Rightarrow> level_for p xs)"
  by (induction xs) (auto split: option.splits)

lemma side_after_append:
  assumes "map_find before p m' = side_after before xs m p"
  shows "side_after before ys m' p = side_after before (xs @ ys) m p"
  using assms by (auto simp: side_after_def level_for_append split: option.splits)

text \<open>C18: from an empty book, a price carries the quantity of the last counted level of the
  whole history that names it, and is absent when that quantity is zero or no level does.\<close>

theorem book_run_lookup:
  assumes "book_run us (new_book name) = Inr b" "price_ok p"
  shows "map_find greater_price p (ob_bids b) = side_after greater_price (concat (map counted_bids us)) [] p
    \<and> map_find less_price p (ob_asks b) = side_after less_price (concat (map counted_asks us)) [] p"
  using assms
proof (induction us arbitrary: b rule: rev_induct)
  case Nil
  then have "b = new_book name" by simp
  then show ?case by (simp add: new_book_def side_after_def)
next
  case (snoc u us)
  then obtain b0 where b0: "book_run us (new_book name) = Inr b0" "apply_update u b0 = Inr b"
    by (auto simp: book_run_append res_simps)
  have "book_inv b0" by (rule book_run_inv' [OF book_inv_new b0(1)])
  with snoc.IH [OF b0(1) snoc.prems(2)] b0(2) snoc.prems(2) show ?case
    by (simp add: update_find side_after_append)
qed

text \<open>An update is applied without undefined behaviour exactly when both counts stay
  within the arrays and no counted price is NaN.\<close>

theorem apply_update_ok_iff:
  "ok (apply_update u b) \<longleftrightarrow>
     unat (du_bid_count u) \<le> length (du_bids u) \<and> unat (du_ask_count u) \<le> length (du_asks u)
   \<and> \<not> list_ex (\<lambda>l. d_nan (lv_price l)) (counted_bids u)
   \<and> \<not> list_ex (\<lambda>l. d_nan (lv_price l)) (counted_asks u)"
proof -
  have "ok (apply_update u b) \<longleftrightarrow>
      ok (apply_levels greater_price (du_bids u) 0 (unat (du_bid_count u)) (ob_bids b))
    \<and> ok (apply_levels less_price (du_asks u) 0 (unat (du_ask_count u)) (ob_asks b))"
    by (auto simp: apply_update_def ok_def bind_res_def split: sum.splits)
  then show ?thesis
    by (auto simp: apply_levels_ok_iff price_ok_def counted_bids_def counted_asks_def list_ex_iff)
qed

text \<open>The best bid is the highest bid and the best ask the lowest ask.\<close>

theorem best_prices_extreme:
  assumes "book_inv b"
  shows "((p, q) \<in> set (ob_bids b) \<longrightarrow> p \<le> best_bid_price b)
    \<and> ((p, q) \<in> set (ob_asks b) \<longrightarrow> best_ask_price b \<le> p)"
proof (intro conjI impI)
  assume mem: "(p, q) \<in> set (ob_bids b)"
  then have best: "best_bid_price b = fst (hd (ob_bids b))" and "hd (ob_bids b) \<in> set (ob_bids b)"
    by (cases "ob_bids b"; auto simp: best_bid_price_def)+
  then have "price_ok p" "price_ok (best_bid_price b)"
    using assms mem by (auto simp: book_inv_def side_inv_def)
  moreover have "\<not> greater_price p (fst (hd (ob_bids b)))"
    using assms bids.first_least [OF _ mem] by (simp add: book_inv_def side_inv_def)
  ultimately show "p \<le> best_bid_price b"
    by (simp add: best greater_price_def double_not_less price_ok_def)
next
  assume mem: "(p, q) \<in> set (ob_asks b)"
  then have best: "best_ask_price b = fst (hd (ob_asks b))" and "hd (ob_asks b) \<in> set (ob_asks b)"
    by (cases "ob_asks b"; auto simp: best_ask_price_def)+
  then have "price_ok p" "price_ok (best_ask_price b)"
    using assms mem by (auto simp: book_inv_def side_inv_def)
  moreover have "\<not> less_price p (fst (hd (ob_asks b)))"
    using assms asks.first_least [OF _ mem] by (simp add: book_inv_def side_inv_def)
  ultimately show "best_ask_price b \<le> p"
    by (simp add: best less_price_def double_not_less price_ok_def)
qed

lemma vwap_loop_fold:
  "vwap_loop levels count pq q m =
    foldl (\<lambda>(pq, q) (price, qty). (pq + price * qty, q + qty)) (pq, q) (take (levels - count) m)"
proof (induction levels count pq q m rule: vwap_loop.induct)
  case (2 levels count pq q price qty m)
  then show ?case by (auto simp: take_Cons' Suc_diff_Suc [symmetric])
qed simp

text \<open>A VWAP is the quotient of the sums over the first \<open>levels\<close> levels of the side,
  each accumulated from the best price outwards, and zero when the quantities sum to none.\<close>

theorem side_vwap_top_levels:
  "side_vwap levels m =
    (let acc = foldl (\<lambda>(pq, q) (price, qty). (pq + price * qty, q + qty)) (0, 0) (take levels m)
     in if 0 < snd acc then fst acc / snd acc else 0)"
  by (simp add: side_vwap_def vwap_loop_fold Let_def split: prod.split)

section \<open>Spread and mid price under rounding\<close>

lemma spread_sides:
  "ob_bids b \<noteq> [] \<Longrightarrow> ob_asks b \<noteq> [] \<Longrightarrow> spread b = best_ask_price b - best_bid_price b"
  by (simp add: spread_def)

text \<open>With both sides present and finite best prices, the spread is negative exactly
  when the book is crossed and zero exactly when it is locked: rounding never hides it.\<close>

theorem spread_sign:
  assumes "ob_bids b \<noteq> []" "ob_asks b \<noteq> []"
    and "d_finite (best_bid_price b)" "d_finite (best_ask_price b)"
  shows "(spread b < 0 \<longleftrightarrow> best_ask_price b < best_bid_price b)
    \<and> (d_eq (spread b) 0 \<longleftrightarrow> d_eq (best_ask_price b) (best_bid_price b))
    \<and> (0 < spread b \<longleftrightarrow> best_bid_price b < best_ask_price b)"
  using diff_sign [OF assms(4,3)] by (simp add: spread_sides assms)

text \<open>The mid price of an uncrossed book lies between its best prices, whatever the
  rounding of the sum and the halving, as long as the sum does not overflow.\<close>

theorem mid_price_between:
  assumes "ob_bids b \<noteq> []" "ob_asks b \<noteq> []"
    and "d_finite (best_bid_price b)" "d_finite (best_ask_price b)"
    and "best_bid_price b \<le> best_ask_price b"
    and "d_finite (best_bid_price b + best_ask_price b)"
  shows "best_bid_price b \<le> mid_price b \<and> mid_price b \<le> best_ask_price b"
  using half_sum_between [OF assms(3-6)] by (simp add: mid_price_def assms)


section \<open>A concrete book\<close>

definition sample_update :: depth_update where
  "sample_update = make_update ''BTC'' [(100, 9), (99, 4)] [(110, 1), (110, 2), (111, 0)]"

definition sample_book :: order_book where
  "sample_book = \<lparr>ob_symbol = ''BTC'', ob_bids = [(double_of_int 100, double_of_int 9), (double_of_int 99, double_of_int 4)],
     ob_asks = [(double_of_int 110, double_of_int 2)], ob_last_update_id = 1, ob_update_count = 1\<rparr>"

lemma sample_apply: "apply_update sample_update (new_book ''BTC'') = Inr sample_book"
  by code_simp

lemma sample_run: "book_run [sample_update] (new_book ''BTC'') = Inr sample_book"
  by (simp add: sample_apply)

lemma sample_inv: "book_inv sample_book"
  by (rule update_inv [OF book_inv_new sample_apply])

theorem book_run_inv_witness:
  "book_inv sample_book \<and> ob_update_count sample_book = of_nat (length [sample_update])
    \<and> ob_symbol sample_book = ''BTC''"
  using book_run_inv [OF sample_run] by blast

theorem book_run_lookup_witness:
  "map_find greater_price (double_of_int 99) (ob_bids sample_book)
    = side_after greater_price (concat (map counted_bids [sample_update])) [] (double_of_int 99)"
proof -
  have "price_ok (double_of_int 99)" by code_simp
  from book_run_lookup [OF sample_run this] show ?thesis by blast
qed

theorem best_prices_extreme_witness:
  "double_of_int 99 \<le> best_bid_price sample_book \<and> best_ask_price sample_book \<le> double_of_int 110"
  using best_prices_extreme [OF sample_inv, of "double_of_int 99" "double_of_int 4"]
    best_prices_extreme [OF sample_inv, of "double_of_int 110" "double_of_int 2"]
  by (simp add: sample_book_def)

lemma sample_sides: "ob_bids sample_book \<noteq> []" "ob_asks sample_book \<noteq> []"
  by (simp_all add: sample_book_def)

lemma sample_best:
  "d_finite (best_bid_price sample_book)" "d_finite (best_ask_price sample_book)"
  "best_bid_price sample_book \<le> best_ask_price sample_book"
  "d_finite (best_bid_price sample_book + best_ask_price sample_book)"
  by code_simp+

theorem spread_sign_witness: "0 < spread sample_book"
proof -
  have "best_bid_price sample_book < best_ask_price sample_book" by code_simp
  with spread_sign [OF sample_sides sample_best(1,2)] show ?thesis by blast
qed

theorem mid_price_between_witness:
  "best_bid_price sample_book \<le> mid_price sample_book \<and> mid_price sample_book \<le> best_ask_price sample_book"
  by (rule mid_price_between [OF sample_sides sample_best])

end
