(* ===== verification/Aggregator.thy ===== *)
theory Aggregator
  imports Order_Book
begin

text \<open>
  \<open>src/engine/aggregator.h\<close> and \<open>aggregator.cpp\<close>: rolling statistics over the snapshots of
  one order book. The lemmas give the contents of the two windows after any run of books
  and the range of the imbalance.
\<close>

section \<open>Sums\<close>

definition accumulate :: "double list \<Rightarrow> double" where
  "accumulate xs = foldl (+) 0 xs"

text \<open>\<open>std::accumulate(...) / size()\<close>; the size converts to double.\<close>

definition mean :: "double list \<Rightarrow> double" where
  "mean xs = accumulate xs / double_of_int (int (length xs))"

lemma inf_nonneg_sign: "d_inf c \<Longrightarrow> 0 \<le> c \<Longrightarrow> \<not> d_sign c"
  by (auto simp: d_nonneg_iff d_key_def d_inf_def inf_mag_def split: if_splits)

lemma add_inf_left: "d_inf a \<Longrightarrow> \<not> d_nan a \<Longrightarrow> \<not> d_nan b \<Longrightarrow> d_inf b \<longrightarrow> d_sign a = d_sign b \<Longrightarrow> a + b = a"
  by (auto simp add: plus_double_def d_add_def)

lemma add_inf_right: "\<not> d_nan a \<Longrightarrow> \<not> d_inf a \<Longrightarrow> d_inf b \<Longrightarrow> \<not> d_nan b \<Longrightarrow> a + b = b"
  by (simp add: plus_double_def d_add_def)

text \<open>A sum of nonnegative values is the rounded real sum, or one of two infinite operands.\<close>

lemma add_nonneg_cases:
  assumes "0 \<le> a" "0 \<le> (b::double)"
  obtains "d_finite a" "d_finite b" "d_key (a + b) = srnd (d_val a + d_val b)" "\<not> d_nan (a + b)"
    | "d_inf a" "a + b = a" | "d_inf b" "a + b = b"
proof -
  have nan: "\<not> d_nan a" "\<not> d_nan b" using assms by (simp_all add: d_nonneg_iff)
  consider "d_inf a" | "\<not> d_inf a" "d_inf b" | "d_finite a" "d_finite b"
    using nan d_finite_iff by blast
  then show thesis
  proof cases
    case 1
    moreover have "d_inf b \<longrightarrow> d_sign a = d_sign b" using 1 assms by (simp add: inf_nonneg_sign)
    ultimately have "a + b = a" using nan by (intro add_inf_left)
    with 1 show thesis by (rule that(2))
  next
    case 2
    then have "a + b = b" using nan by (intro add_inf_right)
    with 2(2) show thesis by (rule that(3))
  next
    case 3
    then show thesis by (intro that(1)) (simp_all add: ieee)
  qed
qed

lemma add_nonneg:
  assumes "0 \<le> a" "0 \<le> b" shows "0 \<le> a + (b::double)"
  using assms
proof (cases rule: add_nonneg_cases)
  case 1
  moreover have "srnd 0 \<le> srnd (d_val a + d_val b)"
    using assms by (intro srnd_mono) (simp add: d_nonneg_iff d_key_nonneg_val)
  ultimately show ?thesis by (simp add: d_nonneg_iff)
qed (use assms in simp_all)

lemma add_finite:
  assumes "0 \<le> a" "0 \<le> b" "d_finite (a + (b::double))" shows "d_finite a \<and> d_finite b"
  using assms(1,2)
proof (cases rule: add_nonneg_cases)
  case 2
  then show ?thesis using assms(3) by simp
next
  case 3
  then show ?thesis using assms(3) by simp
qed simp

text \<open>The difference of two nonnegative values over their sum stays in [-1, 1].\<close>

lemma imbalance_range:
  assumes "0 \<le> a" "0 \<le> b" "d_finite (a + b)" "0 < a + b"
  shows "- 1 \<le> (a - b) / (a + b) \<and> (a - b) / (a + b) \<le> (1::double)"
proof -
  have fin: "d_finite a" "d_finite b" using add_finite assms by blast+
  have val: "0 \<le> d_val a" "0 \<le> d_val b" using assms by (simp_all add: d_nonneg_iff d_key_nonneg_val)
  have diff: "d_key (a - b) = srnd (d_val a - d_val b)" and sum: "d_key (a + b) = srnd (d_val a + d_val b)"
    and nan: "\<not> d_nan (a - b)" using fin by (simp_all add: ieee)
  have "srnd (d_val a - d_val b) \<le> srnd (d_val a + d_val b)"
    "srnd (- (d_val a + d_val b)) \<le> srnd (d_val a - d_val b)"
    using val by (intro srnd_mono; simp)+
  then have key: "d_key (a - b) \<le> d_key (a + b)" "d_key (- (a + b)) \<le> d_key (a - b)"
    by (simp_all add: diff sum srnd_minus del: minus_add_distrib)
  then have "d_finite (a - b)" using assms(3) unfolding d_finite_key uminus_key by linarith
  moreover have "\<bar>d_val (a - b)\<bar> \<le> d_val (a + b)"
    using key unfolding d_val_le_iff [symmetric] by (simp add: abs_le_iff)
  ultimately show ?thesis using assms(3,4) by (intro div_unit_range)
qed

section \<open>State\<close>

record agg_snapshot =
  as_spread :: double
  as_mid_price :: double
  as_bid_vwap :: double
  as_ask_vwap :: double
  as_mid_price_sma :: double
  as_spread_sma :: double
  as_imbalance :: double
  as_imbalance_delta :: double
  as_sample_count :: u64

definition empty_agg_snapshot :: agg_snapshot where
  "empty_agg_snapshot = \<lparr>as_spread = 0, as_mid_price = 0, as_bid_vwap = 0, as_ask_vwap = 0,
     as_mid_price_sma = 0, as_spread_sma = 0, as_imbalance = 0, as_imbalance_delta = 0, as_sample_count = 0\<rparr>"

record aggregator =
  ag_vwap_levels :: nat
  ag_sma_window :: nat
  ag_mid_prices :: "double list"
  ag_spreads :: "double list"
  ag_snapshot :: agg_snapshot

definition new_aggregator :: "nat \<Rightarrow> nat \<Rightarrow> aggregator" where
  "new_aggregator vwap_levels sma_window = \<lparr>ag_vwap_levels = vwap_levels, ag_sma_window = sma_window,
     ag_mid_prices = [], ag_spreads = [], ag_snapshot = empty_agg_snapshot\<rparr>"

section \<open>Update\<close>

definition book_imbalance :: "order_book \<Rightarrow> double" where
  "book_imbalance book =
     (let total_bid = total_bid_qty book; total_ask = total_ask_qty book; total = total_bid + total_ask
      in if 0 < total then (total_bid - total_ask) / total else 0)"

definition agg_update :: "order_book \<Rightarrow> aggregator \<Rightarrow> aggregator" where
  "agg_update book a =
     (let s0 = ag_snapshot a;
          imbalance = book_imbalance book;
          s1 = s0\<lparr>as_spread := spread book, as_mid_price := mid_price book,
                  as_bid_vwap := bid_vwap (ag_vwap_levels a) book,
                  as_ask_vwap := ask_vwap (ag_vwap_levels a) book,
                  as_imbalance := imbalance,
                  as_imbalance_delta := imbalance - as_imbalance s0\<rparr>;
          (mids, s2) = (if 0 < as_mid_price s1
                        then let mids = push_window (ag_sma_window a) (as_mid_price s1) (ag_mid_prices a)
                             in (mids, s1\<lparr>as_mid_price_sma := mean mids\<rparr>)
                        else (ag_mid_prices a, s1));
          (spreads, s3) = (if 0 \<le> as_spread s2
                           then let spreads = push_window (ag_sma_window a) (as_spread s2) (ag_spreads a)
                                in (spreads, s2\<lparr>as_spread_sma := mean spreads\<rparr>)
                           else (ag_spreads a, s2))
      in a\<lparr>ag_mid_prices := mids, ag_spreads := spreads,
           ag_snapshot := s3\<lparr>as_sample_count := as_sample_count s3 + 1\<rparr>\<rparr>)"

definition agg_reset :: "aggregator \<Rightarrow> aggregator" where
  "agg_reset a = a\<lparr>ag_mid_prices := [], ag_spreads := [], ag_snapshot := empty_agg_snapshot\<rparr>"

text \<open>What one update leaves in each field.\<close>

lemma agg_update_config [simp]:
  "ag_vwap_levels (agg_update book a) = ag_vwap_levels a"
  "ag_sma_window (agg_update book a) = ag_sma_window a"
  by (simp_all add: agg_update_def Let_def split: prod.splits)

lemma agg_update_windows:
  "ag_mid_prices (agg_update book a) =
     (if 0 < mid_price book then push_window (ag_sma_window a) (mid_price book) (ag_mid_prices a) else ag_mid_prices a)"
  "ag_spreads (agg_update book a) =
     (if 0 \<le> spread book then push_window (ag_sma_window a) (spread book) (ag_spreads a) else ag_spreads a)"
  by (simp_all add: agg_update_def Let_def)

lemma agg_update_snapshot:
  "as_spread (ag_snapshot (agg_update book a)) = spread book"
  "as_mid_price (ag_snapshot (agg_update book a)) = mid_price book"
  "as_bid_vwap (ag_snapshot (agg_update book a)) = bid_vwap (ag_vwap_levels a) book"
  "as_ask_vwap (ag_snapshot (agg_update book a)) = ask_vwap (ag_vwap_levels a) book"
  "as_imbalance (ag_snapshot (agg_update book a)) = book_imbalance book"
  "as_imbalance_delta (ag_snapshot (agg_update book a)) = book_imbalance book - as_imbalance (ag_snapshot a)"
  "as_mid_price_sma (ag_snapshot (agg_update book a)) =
     (if 0 < mid_price book then mean (ag_mid_prices (agg_update book a)) else as_mid_price_sma (ag_snapshot a))"
  "as_spread_sma (ag_snapshot (agg_update book a)) =
     (if 0 \<le> spread book then mean (ag_spreads (agg_update book a)) else as_spread_sma (ag_snapshot a))"
  "as_sample_count (ag_snapshot (agg_update book a)) = as_sample_count (ag_snapshot a) + 1"
  by (simp_all add: agg_update_def Let_def)

lemmas agg_update_fields = agg_update_config agg_update_windows agg_update_snapshot

section \<open>Runs\<close>

text \<open>The aggregator after a sequence of books, oldest first.\<close>

definition agg_run :: "order_book list \<Rightarrow> aggregator \<Rightarrow> aggregator" where
  "agg_run books a = fold agg_update books a"

lemma agg_run_simps [simp]:
  "agg_run [] a = a"
  "agg_run (books @ [b]) a = agg_update b (agg_run books a)"
  by (simp_all add: agg_run_def)

lemma agg_run_config [simp]:
  "ag_vwap_levels (agg_run books a) = ag_vwap_levels a"
  "ag_sma_window (agg_run books a) = ag_sma_window a"
  by (induction books rule: rev_induct) simp_all

text \<open>The two histories the windows are cut from.\<close>

definition positive_mids :: "order_book list \<Rightarrow> double list" where
  "positive_mids books = filter (\<lambda>m. 0 < m) (map mid_price books)"

definition nonneg_spreads :: "order_book list \<Rightarrow> double list" where
  "nonneg_spreads books = filter (\<lambda>s. 0 \<le> s) (map spread books)"

lemma history_snoc [simp]:
  "positive_mids (books @ [b]) = positive_mids books @ (if 0 < mid_price b then [mid_price b] else [])"
  "nonneg_spreads (books @ [b]) = nonneg_spreads books @ (if 0 \<le> spread b then [spread b] else [])"
  by (simp_all add: positive_mids_def nonneg_spreads_def)

lemma history_Nil [simp]: "positive_mids [] = []" "nonneg_spreads [] = []"
  by (simp_all add: positive_mids_def nonneg_spreads_def)

lemma agg_run_windows:
  "ag_mid_prices (agg_run books (new_aggregator v w)) = last_n w (positive_mids books)"
  "ag_spreads (agg_run books (new_aggregator v w)) = last_n w (nonneg_spreads books)"
proof (induction books rule: rev_induct)
  case Nil
  show "ag_mid_prices (agg_run [] (new_aggregator v w)) = last_n w (positive_mids [])"
    "ag_spreads (agg_run [] (new_aggregator v w)) = last_n w (nonneg_spreads [])"
    by (simp_all add: new_aggregator_def last_n_def)
next
  case (snoc b books)
  show "ag_mid_prices (agg_run (books @ [b]) (new_aggregator v w)) = last_n w (positive_mids (books @ [b]))"
    by (simp add: agg_update_windows snoc push_window_last_n) (simp add: new_aggregator_def push_window_last_n)
  show "ag_spreads (agg_run (books @ [b]) (new_aggregator v w)) = last_n w (nonneg_spreads (books @ [b]))"
    by (simp add: agg_update_windows snoc push_window_last_n) (simp add: new_aggregator_def push_window_last_n)
qed

text \<open>After any books, the moving averages are the means of the last \<open>sma_window\<close>
  positive mid prices and nonnegative spreads, zero before the first of each; a book without
  one leaves the average as it was. The sample count is the number of books.\<close>

theorem agg_run_averages:
  defines "a books v w \<equiv> agg_run books (new_aggregator v w)"
  shows "as_mid_price_sma (ag_snapshot (a books v w)) =
      (if positive_mids books = [] then 0 else mean (last_n w (positive_mids books)))
    \<and> as_spread_sma (ag_snapshot (a books v w)) =
      (if nonneg_spreads books = [] then 0 else mean (last_n w (nonneg_spreads books)))
    \<and> as_sample_count (ag_snapshot (a books v w)) = of_nat (length books)"
  unfolding a_def
proof (induction books rule: rev_induct)
  case Nil
  show ?case by (simp add: new_aggregator_def empty_agg_snapshot_def)
next
  case (snoc b books)
  then show ?case
    using agg_run_windows [of "books @ [b]" v w] by (simp add: agg_update_snapshot)
qed

lemma agg_run_imbalance:
  "as_imbalance (ag_snapshot (agg_run books (new_aggregator v w))) =
    (if books = [] then 0 else book_imbalance (last books))"
proof (cases books rule: rev_cases)
  case Nil
  then show ?thesis by (simp add: new_aggregator_def empty_agg_snapshot_def)
next
  case (snoc ys y)
  then show ?thesis by (simp only: agg_run_simps agg_update_snapshot last_snoc snoc_eq_iff_butlast) simp
qed

text \<open>The rest of the snapshot is that of the last book, and the imbalance delta is its
  imbalance minus that of the book before it, or minus zero for the first.\<close>

theorem agg_run_last:
  "let s = ag_snapshot (agg_run (books @ [b]) (new_aggregator v w))
   in as_spread s = spread b \<and> as_mid_price s = mid_price b
    \<and> as_bid_vwap s = bid_vwap v b \<and> as_ask_vwap s = ask_vwap v b
    \<and> as_imbalance s = book_imbalance b
    \<and> as_imbalance_delta s = book_imbalance b - (if books = [] then 0 else book_imbalance (last books))"
  by (simp add: agg_update_fields agg_run_imbalance Let_def) (simp add: new_aggregator_def)

definition qty_nonneg :: "double \<times> double \<Rightarrow> bool" where
  "qty_nonneg level = (0 \<le> snd level)"

lemma total_qty_nonneg: "list_all qty_nonneg m \<Longrightarrow> 0 \<le> total_qty m"
proof -
  have "list_all qty_nonneg m \<Longrightarrow> 0 \<le> t \<Longrightarrow> 0 \<le> qty_loop t m" for t
    by (induction t m rule: qty_loop.induct) (simp_all add: qty_nonneg_def add_nonneg)
  then show "list_all qty_nonneg m \<Longrightarrow> 0 \<le> total_qty m" by (simp add: total_qty_def)
qed

text \<open>With no negative quantity in the book and a total that does not overflow, the
  imbalance lies in [-1, 1].\<close>

theorem book_imbalance_range:
  assumes "list_all qty_nonneg (ob_bids b)" "list_all qty_nonneg (ob_asks b)"
    and "d_finite (total_bid_qty b + total_ask_qty b)"
  shows "- 1 \<le> book_imbalance b \<and> book_imbalance b \<le> 1"
proof (cases "0 < total_bid_qty b + total_ask_qty b")
  case True
  moreover have "0 \<le> total_bid_qty b" "0 \<le> total_ask_qty b"
    using assms by (auto simp: total_bid_qty_def total_ask_qty_def intro!: total_qty_nonneg)
  ultimately show ?thesis using imbalance_range assms(3) by (simp add: book_imbalance_def Let_def)
next
  case False
  have "- 1 \<le> (0::double) \<and> 0 \<le> (1::double)" by (simp add: less_eq_double_def) (simp add: d_key_def)
  with False show ?thesis by (simp add: book_imbalance_def Let_def)
qed

theorem book_imbalance_range_witness:
  "- 1 \<le> book_imbalance sample_book \<and> book_imbalance sample_book \<le> 1 \<and> 0 < book_imbalance sample_book"
proof -
  have "list_all qty_nonneg (ob_bids sample_book)" "list_all qty_nonneg (ob_asks sample_book)"
    "d_finite (total_bid_qty sample_book + total_ask_qty sample_book)" "0 < book_imbalance sample_book"
    by code_simp+
  with book_imbalance_range [of sample_book] show ?thesis by blast
qed

end
