(* ===== verification/Trade_Aggregator.thy ===== *)
theory Trade_Aggregator
  imports Aggregator
begin

text \<open>
  \<open>src/engine/trade_aggregator.h\<close> and \<open>trade_aggregator.cpp\<close>: statistics of the trade
  stream. Two windows run side by side: the sliding window of the last \<open>window_ms\<close>
  milliseconds (\<open>ta_trades\<close>), and fixed windows whose volumes feed the moving average
  (\<open>ta_window_start\<close>, \<open>ta_current_volume\<close>, \<open>ta_completed\<close>). The lemmas say exactly which trades
  each of them holds after a stream with nondecreasing times.
\<close>

section \<open>State\<close>

record ta_snapshot =
  ts_buy_volume :: double
  ts_sell_volume :: double
  ts_total_volume :: double
  ts_trade_imbalance :: double
  ts_volume_sma :: double
  ts_trade_count :: u64
  ts_window_count :: u64

definition empty_ta_snapshot :: ta_snapshot where
  "empty_ta_snapshot = \<lparr>ts_buy_volume = 0, ts_sell_volume = 0, ts_total_volume = 0,
     ts_trade_imbalance = 0, ts_volume_sma = 0, ts_trade_count = 0, ts_window_count = 0\<rparr>"

record trade_entry =
  te_timestamp :: u64
  te_quantity :: double
  te_is_buy :: bool

record trade_aggregator =
  ta_window_ms :: u64
  ta_sma_windows :: nat
  ta_trades :: "trade_entry list"
  ta_completed :: "double list"
  ta_window_start :: u64
  ta_current_volume :: double
  ta_snap :: ta_snapshot

definition new_trade_aggregator :: "u64 \<Rightarrow> nat \<Rightarrow> trade_aggregator" where
  "new_trade_aggregator window_ms sma_windows = \<lparr>ta_window_ms = window_ms, ta_sma_windows = sma_windows,
     ta_trades = [], ta_completed = [], ta_window_start = 0, ta_current_volume = 0,
     ta_snap = empty_ta_snapshot\<rparr>"

section \<open>Update\<close>

definition init_window :: "u64 \<Rightarrow> trade_aggregator \<Rightarrow> trade_aggregator" where
  "init_window now_ms a = (if ta_window_start a = 0 then a\<lparr>ta_window_start := now_ms\<rparr> else a)"

text \<open>The sum \<open>window_start_ms_ + window_ms_\<close> wraps as in the code; \<open>%\<close> by zero is a fault.\<close>

definition roll_window :: "u64 \<Rightarrow> trade_aggregator \<Rightarrow> trade_aggregator res" where
  "roll_window now_ms a =
     (if ta_window_start a + ta_window_ms a \<le> now_ms
      then if ta_window_ms a = 0 then Inl Div_By_Zero
           else Inr (a\<lparr>ta_completed := push_window (ta_sma_windows a) (ta_current_volume a) (ta_completed a),
                       ta_snap := (ta_snap a)\<lparr>ts_window_count := ts_window_count (ta_snap a) + 1\<rparr>,
                       ta_current_volume := 0,
                       ta_window_start := now_ms - now_ms mod ta_window_ms a\<rparr>)
      else Inr a)"

definition cutoff :: "u64 \<Rightarrow> u64 \<Rightarrow> u64" where
  "cutoff window_ms now_ms = (if window_ms < now_ms then now_ms - window_ms else 0)"

definition expire_old :: "u64 \<Rightarrow> trade_aggregator \<Rightarrow> trade_aggregator" where
  "expire_old now_ms a =
     a\<lparr>ta_trades := dropWhile (\<lambda>t. te_timestamp t < cutoff (ta_window_ms a) now_ms) (ta_trades a)\<rparr>"

definition entry_of :: "trade \<Rightarrow> trade_entry" where
  "entry_of t = \<lparr>te_timestamp = tr_event_time_ms t, te_quantity = tr_quantity t,
     te_is_buy = (\<not> tr_is_buyer_maker t)\<rparr>"

definition push_trade :: "trade \<Rightarrow> trade_aggregator \<Rightarrow> trade_aggregator" where
  "push_trade t a = a\<lparr>ta_trades := ta_trades a @ [entry_of t],
     ta_current_volume := ta_current_volume a + tr_quantity t\<rparr>"

fun sum_sides :: "double \<Rightarrow> double \<Rightarrow> u64 \<Rightarrow> trade_entry list \<Rightarrow> double \<times> double \<times> u64" where
  "sum_sides buy_vol sell_vol count [] = (buy_vol, sell_vol, count)"
| "sum_sides buy_vol sell_vol count (t # ts) =
     (if te_is_buy t then sum_sides (buy_vol + te_quantity t) sell_vol (count + 1) ts
      else sum_sides buy_vol (sell_vol + te_quantity t) (count + 1) ts)"

definition volume_imbalance :: "double \<Rightarrow> double \<Rightarrow> double" where
  "volume_imbalance buy_vol sell_vol =
     (if 0 < buy_vol + sell_vol then (buy_vol - sell_vol) / (buy_vol + sell_vol) else 0)"

definition recompute :: "trade_aggregator \<Rightarrow> trade_aggregator" where
  "recompute a =
     (case sum_sides 0 0 0 (ta_trades a) of (buy_vol, sell_vol, count) \<Rightarrow>
        a\<lparr>ta_snap := (ta_snap a)\<lparr>ts_buy_volume := buy_vol, ts_sell_volume := sell_vol,
            ts_total_volume := buy_vol + sell_vol,
            ts_trade_imbalance := volume_imbalance buy_vol sell_vol,
            ts_trade_count := count,
            ts_volume_sma := (if ta_completed a = [] then ts_volume_sma (ta_snap a)
                              else mean (ta_completed a))\<rparr>\<rparr>)"

definition ta_update :: "trade \<Rightarrow> trade_aggregator \<Rightarrow> trade_aggregator res" where
  "ta_update t a =
     bind_res (roll_window (tr_event_time_ms t) (init_window (tr_event_time_ms t) a)) (\<lambda>a.
     Inr (recompute (push_trade t (expire_old (tr_event_time_ms t) a))))"

definition ta_reset :: "trade_aggregator \<Rightarrow> trade_aggregator" where
  "ta_reset a = a\<lparr>ta_trades := [], ta_completed := [], ta_window_start := 0, ta_snap := empty_ta_snapshot\<rparr>"

text \<open>The only undefined update is the one that enters a new window of length zero.\<close>

theorem ta_update_ok_iff:
  "ok (ta_update t a) \<longleftrightarrow> \<not> (ta_window_ms a = 0
    \<and> (ta_window_start a = 0 \<or> ta_window_start a \<le> tr_event_time_ms t))"
  by (auto simp: ta_update_def roll_window_def init_window_def)

section \<open>One step\<close>

lemma sum_sides_eq:
  "sum_sides b s n ts = (foldl (+) b (map te_quantity (filter te_is_buy ts)),
     foldl (+) s (map te_quantity (filter (\<lambda>t. \<not> te_is_buy t) ts)), n + of_nat (length ts))"
  by (induction b s n ts rule: sum_sides.induct) simp_all

lemma recompute_fields:
  "ta_window_ms (recompute a) = ta_window_ms a" "ta_sma_windows (recompute a) = ta_sma_windows a"
  "ta_trades (recompute a) = ta_trades a" "ta_completed (recompute a) = ta_completed a"
  "ta_window_start (recompute a) = ta_window_start a"
  "ta_current_volume (recompute a) = ta_current_volume a"
  "ts_window_count (ta_snap (recompute a)) = ts_window_count (ta_snap a)"
  by (simp_all add: recompute_def split: prod.split)

lemma recompute_sums:
  "ts_buy_volume (ta_snap (recompute a)) = accumulate (map te_quantity (filter te_is_buy (ta_trades a)))"
  "ts_sell_volume (ta_snap (recompute a)) = accumulate (map te_quantity (filter (\<lambda>t. \<not> te_is_buy t) (ta_trades a)))"
  "ts_total_volume (ta_snap (recompute a)) = ts_buy_volume (ta_snap (recompute a)) + ts_sell_volume (ta_snap (recompute a))"
  "ts_trade_imbalance (ta_snap (recompute a)) =
     volume_imbalance (ts_buy_volume (ta_snap (recompute a))) (ts_sell_volume (ta_snap (recompute a)))"
  "ts_trade_count (ta_snap (recompute a)) = of_nat (length (ta_trades a))"
  "ts_volume_sma (ta_snap (recompute a)) =
     (if ta_completed a = [] then ts_volume_sma (ta_snap a) else mean (ta_completed a))"
  by (simp_all add: recompute_def sum_sides_eq accumulate_def)

text \<open>Whether the trade opens a new fixed window.\<close>

definition opens_window :: "u64 \<Rightarrow> trade_aggregator \<Rightarrow> bool" where
  "opens_window now_ms a = (ta_window_start (init_window now_ms a) + ta_window_ms a \<le> now_ms)"

lemma ta_update_step:
  assumes "ta_update t a = Inr a'"
  defines "now_ms \<equiv> tr_event_time_ms t"
  shows "ta_window_ms a' = ta_window_ms a" "ta_sma_windows a' = ta_sma_windows a"
    "ta_trades a' = dropWhile (\<lambda>e. te_timestamp e < cutoff (ta_window_ms a) now_ms) (ta_trades a) @ [entry_of t]"
    "ta_completed a' = (if opens_window now_ms a
       then push_window (ta_sma_windows a) (ta_current_volume a) (ta_completed a) else ta_completed a)"
    "ta_window_start a' = (if opens_window now_ms a then now_ms - now_ms mod ta_window_ms a
       else ta_window_start (init_window now_ms a))"
    "ta_current_volume a' = (if opens_window now_ms a then 0 else ta_current_volume a) + tr_quantity t"
    "ts_window_count (ta_snap a') = ts_window_count (ta_snap a) + (if opens_window now_ms a then 1 else 0)"
  using assms(1) unfolding now_ms_def
  by (auto simp: ta_update_def roll_window_def init_window_def opens_window_def expire_old_def
      push_trade_def recompute_fields res_simps split: if_splits)

section \<open>The sliding window\<close>

definition ta_run :: "trade list \<Rightarrow> trade_aggregator \<Rightarrow> trade_aggregator res" where
  "ta_run ts a = fold_res ta_update ts a"

lemma ta_run_simps [simp]:
  "ta_run [] a = Inr a"
  "ta_run (ts @ [t]) a = bind_res (ta_run ts a) (ta_update t)"
  by (simp_all add: ta_run_def fold_res_append)
    (simp add: bind_res_def split: sum.split)

lemma ta_run_snocE:
  assumes "ta_run (ts @ [t]) a0 = Inr a"
  obtains b where "ta_run ts a0 = Inr b" "ta_update t b = Inr a"
  using assms by (auto simp: res_simps)

lemma new_ta_fields [simp]:
  "ta_window_ms (new_trade_aggregator w k) = w" "ta_sma_windows (new_trade_aggregator w k) = k"
  "ta_trades (new_trade_aggregator w k) = []" "ta_completed (new_trade_aggregator w k) = []"
  "ta_window_start (new_trade_aggregator w k) = 0" "ta_current_volume (new_trade_aggregator w k) = 0"
  "ta_snap (new_trade_aggregator w k) = empty_ta_snapshot"
  by (simp_all add: new_trade_aggregator_def)

lemma ta_run_config:
  "ta_run ts (new_trade_aggregator w k) = Inr a \<Longrightarrow> ta_window_ms a = w \<and> ta_sma_windows a = k"
proof (induction ts arbitrary: a rule: rev_induct)
  case Nil
  then show ?case by auto
next
  case (snoc t ts)
  then show ?case by (elim ta_run_snocE) (simp add: ta_update_step)
qed

lemma dropWhile_sorted:
  fixes f :: "'a \<Rightarrow> 'b::linorder"
  shows "sorted (map f xs) \<Longrightarrow> dropWhile (\<lambda>x. f x < c) xs = filter (\<lambda>x. c \<le> f x) xs"
proof (induction xs)
  case (Cons x xs)
  show ?case
  proof (cases "f x < c")
    case False
    then have "filter (\<lambda>x. c \<le> f x) (x # xs) = x # xs"
      using Cons.prems by (intro filter_True) (auto intro: order_trans)
    with False show ?thesis by simp
  qed (use Cons in simp)
qed simp

lemma cutoff_nat: "unat (cutoff w t) = unat t - unat w"
  by (auto simp: cutoff_def word_less_nat_alt unat_sub word_le_nat_alt)

lemma cutoff_mono: "t \<le> t' \<Longrightarrow> cutoff w t \<le> cutoff w t'"
  by (simp add: word_le_nat_alt cutoff_nat diff_le_mono)

lemma cutoff_le: "cutoff w t \<le> t"
  by (simp add: word_le_nat_alt cutoff_nat)

abbreviation times :: "trade list \<Rightarrow> u64 list" where
  "times ts \<equiv> map tr_event_time_ms ts"

definition in_window :: "u64 \<Rightarrow> u64 \<Rightarrow> trade list \<Rightarrow> trade_entry list" where
  "in_window w now_ms ts = filter (\<lambda>e. cutoff w now_ms \<le> te_timestamp e) (map entry_of ts)"

lemma in_window_sorted: "sorted (times ts) \<Longrightarrow> sorted (map te_timestamp (in_window w n ts))"
proof -
  have e: "map te_timestamp (map entry_of ts) = times ts" for ts by (simp add: entry_of_def)
  assume "sorted (times ts)"
  then show ?thesis unfolding in_window_def e [symmetric] by (rule sorted_filter)
qed

lemma ta_run_trades:
  assumes "ta_run (ts @ [t]) (new_trade_aggregator w k) = Inr a" "sorted (times (ts @ [t]))"
  shows "ta_trades a = in_window w (tr_event_time_ms t) (ts @ [t])"
  using assms
proof (induction ts arbitrary: t a rule: rev_induct)
  case Nil
  obtain b where "ta_run [] (new_trade_aggregator w k) = Inr b" "ta_update t b = Inr a"
    using Nil.prems(1) by (rule ta_run_snocE)
  then show ?case by (auto simp add: ta_update_step in_window_def entry_of_def cutoff_le)
next
  case (snoc u ts)
  let ?c = "cutoff w (tr_event_time_ms t)" and ?p = "ts @ [u]"
  obtain b where b: "ta_run ?p (new_trade_aggregator w k) = Inr b" "ta_update t b = Inr a"
    using snoc.prems(1) by (rule ta_run_snocE)
  have srt: "sorted (times ?p)" and le: "tr_event_time_ms u \<le> tr_event_time_ms t"
    using snoc.prems(2) by (auto simp: sorted_append)
  have trades: "ta_trades b = in_window w (tr_event_time_ms u) ?p" using snoc.IH [OF b(1) srt] .
  have "dropWhile (\<lambda>e. te_timestamp e < ?c) (ta_trades b) = filter (\<lambda>e. ?c \<le> te_timestamp e) (ta_trades b)"
    unfolding trades by (rule dropWhile_sorted [OF in_window_sorted [OF srt]])
  also have "\<dots> = in_window w (tr_event_time_ms t) ?p"
    unfolding trades in_window_def filter_filter
    by (rule filter_cong) (auto intro: order_trans [OF cutoff_mono [OF le]])
  finally have "ta_trades a = in_window w (tr_event_time_ms t) ?p @ [entry_of t]"
    using b(2) ta_run_config [OF b(1)] by (simp add: ta_update_step)
  then show ?case by (simp add: in_window_def entry_of_def cutoff_le)
qed

lemma ta_update_sums:
  assumes "ta_update t b = Inr a"
  shows "ts_buy_volume (ta_snap a) = accumulate (map te_quantity (filter te_is_buy (ta_trades a)))"
    "ts_sell_volume (ta_snap a) = accumulate (map te_quantity (filter (\<lambda>t. \<not> te_is_buy t) (ta_trades a)))"
    "ts_total_volume (ta_snap a) = ts_buy_volume (ta_snap a) + ts_sell_volume (ta_snap a)"
    "ts_trade_imbalance (ta_snap a) = volume_imbalance (ts_buy_volume (ta_snap a)) (ts_sell_volume (ta_snap a))"
    "ts_trade_count (ta_snap a) = of_nat (length (ta_trades a))"
  using assms by (auto simp: ta_update_def res_simps recompute_sums recompute_fields)

text \<open>C27: on a stream with nondecreasing times the figures of the sliding window are those of
  exactly the trades no older than \<open>window_ms\<close>, summed per aggressor side in order.\<close>

theorem sliding_window:
  assumes "ta_run (ts @ [t]) (new_trade_aggregator w k) = Inr a" "sorted (times (ts @ [t]))"
  defines "recent \<equiv> in_window w (tr_event_time_ms t) (ts @ [t])"
  shows "ta_trades a = recent
    \<and> ts_buy_volume (ta_snap a) = accumulate (map te_quantity (filter te_is_buy recent))
    \<and> ts_sell_volume (ta_snap a) = accumulate (map te_quantity (filter (\<lambda>e. \<not> te_is_buy e) recent))
    \<and> ts_total_volume (ta_snap a) = ts_buy_volume (ta_snap a) + ts_sell_volume (ta_snap a)
    \<and> ts_trade_count (ta_snap a) = of_nat (length recent)"
proof -
  obtain b where "ta_update t b = Inr a" using assms(1) by (rule ta_run_snocE)
  note ta_update_sums [OF this] ta_run_trades [OF assms(1,2)]
  then show ?thesis unfolding recent_def by simp
qed

lemma accumulate_nonneg: "list_all (\<lambda>x. 0 \<le> x) xs \<Longrightarrow> 0 \<le> accumulate xs"
proof -
  have "list_all (\<lambda>x. 0 \<le> x) xs \<Longrightarrow> 0 \<le> s \<Longrightarrow> 0 \<le> foldl (+) s xs" for s :: double
    by (induction xs arbitrary: s) (simp_all add: add_nonneg)
  then show "list_all (\<lambda>x. 0 \<le> x) xs \<Longrightarrow> 0 \<le> accumulate xs" by (simp add: accumulate_def)
qed

definition entry_nonneg :: "trade_entry \<Rightarrow> bool" where
  "entry_nonneg e = (0 \<le> te_quantity e)"

lemma volume_imbalance_range:
  assumes "0 \<le> x" "0 \<le> y" "d_finite (x + y)"
  shows "- 1 \<le> volume_imbalance x y \<and> volume_imbalance x y \<le> 1"
proof (cases "0 < x + y")
  case True
  then show ?thesis using imbalance_range assms by (simp add: volume_imbalance_def)
next
  case False
  have "- 1 \<le> (0::double) \<and> 0 \<le> (1::double)" by (simp add: less_eq_double_def) (simp add: d_key_def)
  with False show ?thesis by (simp add: volume_imbalance_def)
qed

text \<open>The trade imbalance lies in [-1, 1] when no quantity in the window is negative and
  the total does not overflow.\<close>

theorem trade_imbalance_range:
  assumes "ta_update t b = Inr a" "list_all entry_nonneg (ta_trades a)"
    and "d_finite (ts_total_volume (ta_snap a))"
  shows "- 1 \<le> ts_trade_imbalance (ta_snap a) \<and> ts_trade_imbalance (ta_snap a) \<le> 1"
proof -
  have "list_all (\<lambda>x. 0 \<le> x) (map te_quantity (filter P (ta_trades a)))" for P
    using assms(2) by (simp add: list_all_iff entry_nonneg_def)
  then have "0 \<le> ts_buy_volume (ta_snap a)" "0 \<le> ts_sell_volume (ta_snap a)"
    unfolding ta_update_sums(1,2) [OF assms(1)] by (simp_all only: accumulate_nonneg)
  then show ?thesis using volume_imbalance_range assms(3) ta_update_sums(3,4) [OF assms(1)] by simp
qed

section \<open>The fixed windows\<close>

text \<open>
  The window a time falls in: the first one starts at the first trade and is not aligned;
  from then on the windows start at the multiples of \<open>window_ms\<close> and are numbered by them.
\<close>

definition fixed_window :: "u64 \<Rightarrow> u64 \<Rightarrow> u64 \<Rightarrow> int" where
  "fixed_window w t0 t = (if uint t < uint t0 + uint w then 0 else uint t div uint w)"

definition window_ids :: "u64 \<Rightarrow> trade list \<Rightarrow> int list" where
  "window_ids w ts = map (fixed_window w (hd (times ts))) (times ts)"

definition volume_in :: "u64 \<Rightarrow> trade list \<Rightarrow> int \<Rightarrow> double" where
  "volume_in w ts i = accumulate (map tr_quantity
     (filter (\<lambda>t. fixed_window w (hd (times ts)) (tr_event_time_ms t) = i) ts))"

lemma next_multiple:
  assumes "0 < w" "l \<le> n" shows "w * (l div w) + w \<le> n \<longleftrightarrow> n div w \<noteq> l div (w :: int)"
proof -
  have "l div w + 1 \<le> n div w" if "w * (l div w) + w \<le> n"
    using zdiv_mono1 [OF that assms(1)] assms(1) by simp
  moreover have "w * (l div w) + w \<le> n" if "l div w + 1 \<le> n div w"
  proof -
    have "w * (l div w + 1) \<le> w * (n div w)" using that assms(1) by (intro mult_left_mono) simp_all
    also have "\<dots> \<le> n" using assms(1) by (simp add: minus_mod_eq_mult_div [symmetric])
    finally show ?thesis by (simp add: algebra_simps)
  qed
  moreover have "l div w \<le> n div w" using assms by (simp add: zdiv_mono1)
  ultimately show ?thesis by linarith
qed

lemma window_start_cases:
  fixes t0 last n w :: u64
  assumes "0 < w" "t0 \<le> last" "last \<le> n" "uint n + uint w < 2 ^ 64"
    and "uint s = (if fixed_window w t0 last = 0 then uint t0 else uint w * fixed_window w t0 last)"
  shows "(s + w \<le> n) = (fixed_window w t0 n \<noteq> fixed_window w t0 last)"
    and "fixed_window w t0 last \<le> fixed_window w t0 n"
    and "fixed_window w t0 n \<noteq> fixed_window w t0 last \<Longrightarrow>
      uint (n - n mod w) = uint w * fixed_window w t0 n \<and> fixed_window w t0 n \<noteq> 0"
proof -
  let ?w = "uint w" and ?l = "uint last" and ?n = "uint n" and ?t = "uint t0"
  have w: "0 < ?w" and le: "?t \<le> ?l" "?l \<le> ?n" and t: "0 \<le> ?t"
    using assms by (simp_all add: word_less_def word_le_def)
  have mono: "?l div ?w \<le> ?n div ?w" using w le by (simp add: zdiv_mono1)
  have pos: "1 \<le> x div ?w" if "?t + ?w \<le> x" for x
  proof -
    have "?w \<le> x" using that t by linarith
    then show ?thesis using w by (simp add: pos_imp_zdiv_pos_iff int_one_le_iff_zero_less)
  qed
  have s: "uint s \<le> ?l"
    using assms(5) le w by (auto simp: fixed_window_def minus_mod_eq_mult_div [symmetric] split: if_splits)
  have plus: "uint (s + w) = uint s + ?w"
    using s le assms(4) by (simp add: uint_word_ariths)
  note quot = next_multiple [OF w le(2)]
  show "(s + w \<le> n) = (fixed_window w t0 n \<noteq> fixed_window w t0 last)"
    unfolding word_le_def plus using assms(5) pos [of ?l] pos [of ?n] le quot
    by (auto simp: fixed_window_def split: if_splits)
  show "fixed_window w t0 last \<le> fixed_window w t0 n"
    using pos [of ?n] le mono by (auto simp: fixed_window_def)
  show "uint (n - n mod w) = ?w * fixed_window w t0 n \<and> fixed_window w t0 n \<noteq> 0"
    if "fixed_window w t0 n \<noteq> fixed_window w t0 last"
  proof -
    have "?t + ?w \<le> ?n" using that le by (auto simp: fixed_window_def split: if_splits)
    moreover have "uint (n - n mod w) = ?n - ?n mod ?w"
      by (subst uint_sub_lem [THEN iffD1]) (simp_all add: uint_mod w zmod_le_nonneg_dividend)
    ultimately show ?thesis
      using pos [of ?n] by (simp add: fixed_window_def minus_mod_eq_mult_div)
  qed
qed

lemma remdups_adj_snoc:
  "remdups_adj (xs @ [x]) = (if xs \<noteq> [] \<and> last xs = x then remdups_adj xs else remdups_adj xs @ [x])"
  by (cases xs rule: rev_cases) (simp_all add: remdups_adj_append_two)

lemma distinct_remdups_adj_sorted: "sorted xs \<Longrightarrow> distinct (remdups_adj xs)"
  by (induction xs rule: remdups_adj.induct) auto

lemma sorted_last_max: "sorted xs \<Longrightarrow> i \<in> set xs \<Longrightarrow> i \<le> last xs"
  by (cases xs rule: rev_cases) (auto simp: sorted_append)

lemma last_adj:
  assumes "xs \<noteq> []" "sorted xs"
  shows "remdups_adj xs = butlast (remdups_adj xs) @ [last xs]" "last xs \<notin> set (butlast (remdups_adj xs))"
proof -
  show r: "remdups_adj xs = butlast (remdups_adj xs) @ [last xs]"
    using assms(1) append_butlast_last_id [of "remdups_adj xs"] by simp
  have "distinct (butlast (remdups_adj xs) @ [last xs])"
    using distinct_remdups_adj_sorted [OF assms(2)] unfolding r [symmetric] .
  then show "last xs \<notin> set (butlast (remdups_adj xs))" by simp
qed

lemma volume_in_other: "i \<notin> set (window_ids w ts) \<Longrightarrow> volume_in w ts i = 0"
proof -
  assume "i \<notin> set (window_ids w ts)"
  then have "filter (\<lambda>t. fixed_window w (hd (times ts)) (tr_event_time_ms t) = i) ts = []"
    by (auto simp: window_ids_def filter_empty_conv)
  then show ?thesis by (simp add: volume_in_def accumulate_def)
qed

text \<open>Later trades of another window do not change the volume of this one.\<close>

lemma volume_in_snoc:
  assumes "ts \<noteq> []"
  shows "volume_in w (ts @ [t]) i = (if fixed_window w (hd (times ts)) (tr_event_time_ms t) = i
    then volume_in w ts i + tr_quantity t else volume_in w ts i)"
  using assms by (simp add: volume_in_def accumulate_def hd_append)

lemma window_ids_snoc:
  "ts \<noteq> [] \<Longrightarrow> window_ids w (ts @ [t]) = window_ids w ts @ [fixed_window w (hd (times ts)) (tr_event_time_ms t)]"
  by (simp add: window_ids_def hd_append)

lemma window_ids_single: "0 < w \<Longrightarrow> uint (tr_event_time_ms t) + uint w < 2 ^ 64 \<Longrightarrow> window_ids w [t] = [0]"
  by (simp add: window_ids_def fixed_window_def word_less_def)

definition fixed_inv :: "u64 \<Rightarrow> nat \<Rightarrow> trade list \<Rightarrow> trade_aggregator \<Rightarrow> bool" where
  "fixed_inv w k ts a \<longleftrightarrow>
     (let ids = window_ids w ts; now_id = last ids in
      sorted ids
    \<and> uint (ta_window_start a) = (if now_id = 0 then uint (hd (times ts)) else uint w * now_id)
    \<and> ta_current_volume a = volume_in w ts now_id
    \<and> ta_completed a = last_n k (map (volume_in w ts) (butlast (remdups_adj ids)))
    \<and> ts_window_count (ta_snap a) = of_nat (length (remdups_adj ids) - 1))"

text \<open>One more trade, in the window of the last one or in a later one.\<close>

lemma fixed_inv_step:
  fixes t :: trade and a b :: trade_aggregator
  assumes inv: "fixed_inv w k ts b" and ne: "ts \<noteq> []"
  defines "t0 \<equiv> hd (times ts)"
  defines "n \<equiv> fixed_window w t0 (tr_event_time_ms t)" and "l \<equiv> last (window_ids w ts)"
  assumes completed: "ta_completed a = (if n \<noteq> l then push_window k (ta_current_volume b) (ta_completed b) else ta_completed b)"
    and start: "uint (ta_window_start a) = (if n \<noteq> l then uint w * n else uint (ta_window_start b))"
    and current: "ta_current_volume a = (if n \<noteq> l then 0 else ta_current_volume b) + tr_quantity t"
    and count: "ts_window_count (ta_snap a) = ts_window_count (ta_snap b) + (if n \<noteq> l then 1 else 0)"
    and mono: "l \<le> n" and later: "n \<noteq> l \<Longrightarrow> n \<noteq> 0"
  shows "fixed_inv w k (ts @ [t]) a"
proof -
  let ?ids = "window_ids w ts" and ?r = "remdups_adj (window_ids w ts)"
  have ids: "window_ids w (ts @ [t]) = ?ids @ [n]" and hd: "hd (times (ts @ [t])) = t0"
    using ne by (simp_all add: window_ids_snoc n_def t0_def hd_append)
  have idne: "?ids \<noteq> []" using ne by (simp add: window_ids_def)
  have srt: "sorted ?ids" using inv by (simp add: fixed_inv_def Let_def)
  have below: "\<And>i. i \<in> set ?ids \<Longrightarrow> i \<le> l" using sorted_last_max [OF srt] by (simp add: l_def)
  have srt': "sorted (?ids @ [n])" using srt below mono by (auto simp: sorted_append intro: order_trans)
  have vol: "volume_in w (ts @ [t]) i = (if n = i then volume_in w ts i + tr_quantity t else volume_in w ts i)" for i
    using volume_in_snoc [OF ne] by (simp add: n_def t0_def)
  note r = last_adj(1) [OF idne srt, folded l_def] and dist = last_adj(2) [OF idne srt, folded l_def]
  show ?thesis
  proof (cases "n = l")
    case True
    have adj: "remdups_adj (?ids @ [n]) = ?r" using True idne by (simp add: remdups_adj_snoc l_def)
    have "map (volume_in w (ts @ [t])) (butlast ?r) = map (volume_in w ts) (butlast ?r)"
      using dist True by (auto simp: vol)
    then have "ta_completed a = last_n k (map (volume_in w (ts @ [t])) (butlast ?r))"
      using inv completed True by (simp only: fixed_inv_def Let_def) simp
    then show ?thesis
      using inv srt' True start current count
      unfolding fixed_inv_def Let_def ids hd adj by (simp add: vol l_def t0_def)
  next
    case False
    then have fresh: "n \<notin> set ?ids" using below mono by force
    have adj: "remdups_adj (?ids @ [n]) = ?r @ [n]" using False idne by (simp add: remdups_adj_snoc l_def)
    have "map (volume_in w (ts @ [t])) ?r = map (volume_in w ts) ?r" using fresh by (auto simp: vol)
    also have "\<dots> = map (volume_in w ts) (butlast ?r) @ [volume_in w ts l]" by (subst r) simp
    finally have "push_window k (ta_current_volume b) (ta_completed b) = last_n k (map (volume_in w (ts @ [t])) ?r)"
      using inv by (simp add: fixed_inv_def Let_def push_window_last_n l_def)
    moreover have "length ?r = Suc (length ?r - 1)" using idne by (cases ?r) simp_all
    ultimately show ?thesis
      using inv srt' False completed start current count later
      unfolding fixed_inv_def Let_def ids hd adj
      by (simp add: vol volume_in_other [OF fresh])
  qed
qed

lemma fixed_inv_first:
  assumes "ta_run [t] (new_trade_aggregator w k) = Inr a" "0 < w" "0 < tr_event_time_ms t"
    and "uint (tr_event_time_ms t) + uint w < 2 ^ 64"
  shows "fixed_inv w k [t] a"
proof -
  obtain b where "ta_run [] (new_trade_aggregator w k) = Inr b" and up: "ta_update t b = Inr a"
    using assms(1) by (auto intro: ta_run_snocE [of "[]"])
  then have b: "b = new_trade_aggregator w k" by simp
  have nz: "tr_event_time_ms t \<noteq> 0" using assms(3) by auto
  have "\<not> opens_window (tr_event_time_ms t) b"
    using assms by (simp add: b opens_window_def init_window_def word_le_def uint_word_ariths word_less_def)
  then show ?thesis
    using ta_update_step [OF up] window_ids_single [of w t] assms
    by (simp add: fixed_inv_def b init_window_def Let_def volume_in_def window_ids_def accumulate_def
        fixed_window_def empty_ta_snapshot_def last_n_def)
qed

lemma fixed_inv_run:
  assumes "ta_run ts (new_trade_aggregator w k) = Inr a" "ts \<noteq> []" "sorted (times ts)"
    and "0 < w" "0 < hd (times ts)" "uint (last (times ts)) + uint w < 2 ^ 64"
  shows "fixed_inv w k ts a"
  using assms(2,1,3,5,6)
proof (induction ts arbitrary: a rule: rev_nonempty_induct)
  case (single t)
  then show ?case using fixed_inv_first [of t w k a] assms(4) by simp
next
  case (snoc t ts)
  let ?t0 = "hd (times ts)" and ?l = "last (times ts)" and ?n = "tr_event_time_ms t"
  let ?id = "fixed_window w ?t0" and ?ids = "window_ids w ts"
  obtain b where b: "ta_run ts (new_trade_aggregator w k) = Inr b" and up: "ta_update t b = Inr a"
    using snoc.prems(1) by (rule ta_run_snocE)
  have conf: "ta_window_ms b = w" "ta_sma_windows b = k" using ta_run_config [OF b] by simp_all
  have ne: "times ts \<noteq> []" using snoc.hyps by simp
  have hd: "hd (times (ts @ [t])) = ?t0" using ne by (simp add: hd_append)
  have srt: "sorted (times ts)" "?l \<le> ?n"
    using snoc.prems(2) last_in_set [OF ne] by (auto simp: sorted_append)
  have t0l: "?t0 \<le> ?l" using srt(1) ne by (cases "times ts") (auto dest: last_in_set)
  have nw: "uint ?n + uint w < 2 ^ 64" using snoc.prems(4) by simp
  have "uint ?l + uint w < 2 ^ 64" using srt(2) nw by (simp add: word_le_def)
  then have inv: "fixed_inv w k ts b" using snoc.IH [OF b srt(1)] snoc.prems(3) hd by simp
  have lid: "last ?ids = ?id ?l" using snoc.hyps by (simp add: window_ids_def last_map)
  have start: "uint (ta_window_start b) = (if ?id ?l = 0 then uint ?t0 else uint w * ?id ?l)"
    using inv by (simp add: fixed_inv_def Let_def lid)
  have "uint (ta_window_start b) \<noteq> 0"
    using start assms(4) snoc.prems(3) hd by (auto simp: word_less_def split: if_splits)
  then have started: "init_window ?n b = b" by (auto simp: init_window_def)
  note step = ta_update_step [OF up, unfolded conf started]
  have opens: "opens_window ?n b \<longleftrightarrow> ?id ?n \<noteq> ?id ?l"
    unfolding opens_window_def started conf
    by (rule window_start_cases(1) [OF assms(4) t0l srt(2) nw start])
  have mono: "?id ?l \<le> ?id ?n" by (rule window_start_cases(2) [OF assms(4) t0l srt(2) nw start])
  have next_start: "?id ?n \<noteq> ?id ?l \<Longrightarrow> uint (?n - ?n mod w) = uint w * ?id ?n \<and> ?id ?n \<noteq> 0"
    by (rule window_start_cases(3) [OF assms(4) t0l srt(2) nw start])
  show ?case
    using next_start step(4-7) mono unfolding opens
    by (intro fixed_inv_step [OF inv snoc.hyps]) (simp_all add: lid split: if_splits)
qed

lemma volume_sma_run:
  "ta_run ts (new_trade_aggregator w k) = Inr a \<Longrightarrow>
    ts_volume_sma (ta_snap a) = (if ta_completed a = [] then 0 else mean (ta_completed a))"
proof (induction ts arbitrary: a rule: rev_induct)
  case Nil
  then have "a = new_trade_aggregator w k" by simp
  then show ?case by (simp add: empty_ta_snapshot_def)
next
  case (snoc t ts)
  obtain b where b: "ta_run ts (new_trade_aggregator w k) = Inr b" and up: "ta_update t b = Inr a"
    using snoc.prems by (rule ta_run_snocE)
  have "ta_completed a = [] \<Longrightarrow> ta_completed b = []"
    using ta_update_step(4) [OF up] by (cases "ta_completed b") (auto simp: push_window_def Let_def split: if_splits)
  moreover have "ts_volume_sma (ta_snap a) = (if ta_completed a = [] then ts_volume_sma (ta_snap b) else mean (ta_completed a))"
    using up by (auto simp: ta_update_def res_simps recompute_sums recompute_fields roll_window_def
        init_window_def expire_old_def push_trade_def split: if_splits)
  ultimately show ?case using snoc.IH [OF b] by simp
qed

text \<open>C28: on a stream with nondecreasing times, the volume accumulated for the average is that
  of the trades in the window of the last trade, the archive holds the volumes of the last
  \<open>sma_windows\<close> earlier windows that had trades, in order, and \<open>volume_sma\<close> is their mean.\<close>

theorem fixed_window_volumes:
  assumes "ta_run ts (new_trade_aggregator w k) = Inr a" "ts \<noteq> []" "sorted (times ts)"
    and "0 < w" "0 < hd (times ts)" "uint (last (times ts)) + uint w < 2 ^ 64"
  defines "ids \<equiv> remdups_adj (window_ids w ts)"
  shows "ta_current_volume a = volume_in w ts (last ids)
    \<and> ta_completed a = last_n k (map (volume_in w ts) (butlast ids))
    \<and> ts_volume_sma (ta_snap a) = (if ta_completed a = [] then 0 else mean (ta_completed a))
    \<and> ts_window_count (ta_snap a) = of_nat (length ids - 1)"
  using fixed_inv_run [OF assms(1-6)] volume_sma_run [OF assms(1)]
  by (simp add: fixed_inv_def Let_def ids_def)

section \<open>Reset\<close>

text \<open>\<open>reset\<close> does not clear the volume accumulator. The first window archived after a
  reset still counts the volume of the unfinished window before it.\<close>

theorem reset_keeps_volume:
  assumes "ta_update t (ta_reset a) = Inr b" "ta_update u b = Inr c"
    and "0 < ta_sma_windows a" "0 < tr_event_time_ms t"
    and "uint (tr_event_time_ms t) + uint (ta_window_ms a) < 2 ^ 64" "0 < ta_window_ms a"
    and "tr_event_time_ms t + ta_window_ms a \<le> tr_event_time_ms u"
  shows "ta_completed c = [ta_current_volume a + tr_quantity t]"
proof -
  let ?t = "tr_event_time_ms t"
  have r: "ta_window_start (ta_reset a) = 0" "ta_completed (ta_reset a) = []"
    "ta_window_ms (ta_reset a) = ta_window_ms a" "ta_sma_windows (ta_reset a) = ta_sma_windows a"
    "ta_current_volume (ta_reset a) = ta_current_volume a"
    by (simp_all add: ta_reset_def)
  have "\<not> opens_window ?t (ta_reset a)"
    using assms(5,6) by (simp add: opens_window_def init_window_def r word_le_def uint_word_ariths word_less_def)
  note b = ta_update_step [OF assms(1), unfolded r] and no = this
  have nz: "?t \<noteq> 0" using assms(4) by auto
  have "ta_window_start b = ?t" using b(5) no by (simp add: init_window_def r)
  then have "opens_window (tr_event_time_ms u) b"
    using assms(7) nz b(1) by (simp add: opens_window_def init_window_def)
  then show ?thesis
    using ta_update_step(4) [OF assms(2)] b no assms(3) by (simp add: push_window_def)
qed

section \<open>A concrete stream\<close>

definition sample_trade :: "int \<Rightarrow> int \<Rightarrow> bool \<Rightarrow> trade" where
  "sample_trade time qty maker = new_trade\<lparr>tr_event_time_ms := word_of_int time,
     tr_quantity := double_of_int qty, tr_is_buyer_maker := maker\<rparr>"

definition earlier_trades :: "trade list" where
  "earlier_trades = [sample_trade 1500 3 False, sample_trade 1700 1 True, sample_trade 2600 4 False,
     sample_trade 2900 1 False]"

definition sample_trades :: "trade list" where
  "sample_trades = earlier_trades @ [sample_trade 4100 2 True]"

definition sample_ta :: trade_aggregator where
  "sample_ta = \<lparr>ta_window_ms = 1000, ta_sma_windows = 20,
     ta_trades = [entry_of (sample_trade 4100 2 True)],
     ta_completed = [double_of_int 4, double_of_int 5], ta_window_start = 4000,
     ta_current_volume = double_of_int 2,
     ta_snap = \<lparr>ts_buy_volume = 0, ts_sell_volume = double_of_int 2, ts_total_volume = double_of_int 2,
       ts_trade_imbalance = double_of_int (- 1), ts_volume_sma = double_lit 9 2, ts_trade_count = 1,
       ts_window_count = 2\<rparr>\<rparr>"

lemma sample_ta_run: "ta_run sample_trades (new_trade_aggregator 1000 20) = Inr sample_ta"
  by code_simp

lemma sample_sorted: "sorted (times sample_trades)"
  by code_simp

theorem sliding_window_witness:
  "ta_trades sample_ta = in_window 1000 4100 sample_trades
    \<and> ts_trade_count (ta_snap sample_ta) = of_nat (length (in_window 1000 4100 sample_trades))
    \<and> in_window 1000 4100 sample_trades = [entry_of (sample_trade 4100 2 True)]"
proof -
  have "tr_event_time_ms (sample_trade 4100 2 True) = 4100" by code_simp
  moreover have "in_window 1000 4100 sample_trades = [entry_of (sample_trade 4100 2 True)]" by code_simp
  ultimately show ?thesis
    using sliding_window [OF sample_ta_run [unfolded sample_trades_def] sample_sorted [unfolded sample_trades_def]]
    unfolding sample_trades_def [symmetric] by simp
qed

theorem trade_imbalance_range_witness:
  "- 1 \<le> ts_trade_imbalance (ta_snap sample_ta) \<and> ts_trade_imbalance (ta_snap sample_ta) \<le> 1"
proof -
  obtain b where "ta_update (sample_trade 4100 2 True) b = Inr sample_ta"
    using sample_ta_run unfolding sample_trades_def by (rule ta_run_snocE)
  moreover have "list_all entry_nonneg (ta_trades sample_ta)" "d_finite (ts_total_volume (ta_snap sample_ta))"
    by code_simp+
  ultimately show ?thesis by (rule trade_imbalance_range)
qed

theorem fixed_window_volumes_witness:
  "ta_completed sample_ta = last_n 20 (map (volume_in 1000 sample_trades)
      (butlast (remdups_adj (window_ids 1000 sample_trades))))
    \<and> remdups_adj (window_ids 1000 sample_trades) = [0, 2, 4]"
proof -
  have "0 < (1000::u64)" "sample_trades \<noteq> []" "0 < hd (times sample_trades)"
    "uint (last (times sample_trades)) + uint (1000::u64) < 2 ^ 64"
    "remdups_adj (window_ids 1000 sample_trades) = [0, 2, 4]" by code_simp+
  with fixed_window_volumes [OF sample_ta_run _ sample_sorted] show ?thesis by simp
qed

theorem reset_keeps_volume_witness:
  "\<exists>b c. ta_update (sample_trade 5000 1 False) (ta_reset sample_ta) = Inr b
    \<and> ta_update (sample_trade 6000 1 False) b = Inr c \<and> ta_completed c = [double_of_int 3]"
proof -
  have "ok (ta_update (sample_trade 5000 1 False) (ta_reset sample_ta))"
    by (simp add: ta_update_def roll_window_def init_window_def ta_reset_def sample_ta_def sample_trade_def word_le_def)
  then obtain b where b: "ta_update (sample_trade 5000 1 False) (ta_reset sample_ta) = Inr b" by (rule okE)
  have w: "ta_window_ms b = 1000" using ta_update_step(1) [OF b] by (simp add: ta_reset_def sample_ta_def)
  then have "ok (ta_update (sample_trade 6000 1 False) b)"
    by (auto simp: ta_update_def roll_window_def init_window_def)
  then obtain c where c: "ta_update (sample_trade 6000 1 False) b = Inr c" by (rule okE)
  have "0 < ta_sma_windows sample_ta" "0 < tr_event_time_ms (sample_trade 5000 1 False)"
    "uint (tr_event_time_ms (sample_trade 5000 1 False)) + uint (ta_window_ms sample_ta) < 2 ^ 64"
    "0 < ta_window_ms sample_ta"
    "tr_event_time_ms (sample_trade 5000 1 False) + ta_window_ms sample_ta \<le> tr_event_time_ms (sample_trade 6000 1 False)"
    "ta_current_volume sample_ta + tr_quantity (sample_trade 5000 1 False) = double_of_int 3"
    by code_simp+
  with reset_keeps_volume [OF b c] b c show ?thesis by metis
qed

end
