(* ===== verification/Signal_Detector.thy ===== *)
theory Signal_Detector
  imports Trade_Aggregator
begin

text \<open>
  \<open>src/engine/signal_detector.h\<close> and \<open>signal_detector.cpp\<close>: the conditions evaluated after each
  book or trade change, with a cooldown per signal type and symbol. The callback is a
  function on a state \<open>'s\<close> of its own, absent when the \<open>std::function\<close> is empty; the wall
  clock is a \<open>clock\<close>. The lemmas give the signals of one evaluation, the spacing of the
  signals of any run, and the counters.
\<close>

section \<open>Signals and conditions\<close>

datatype signal_type =
    SPREAD_WIDE | SPREAD_NARROW | IMBALANCE_BID | IMBALANCE_ASK | PRICE_DEVIATION
  | TRADE_IMBALANCE_BUY | TRADE_IMBALANCE_SELL | VOLUME_SPIKE | BOOK_PRESSURE_BID | BOOK_PRESSURE_ASK

record signal =
  sig_type :: signal_type
  sig_symbol :: string
  sig_value :: double
  sig_threshold :: double
  sig_timestamp_us :: u64

record condition =
  cond_type :: signal_type
  cond_threshold :: double
  cond_cooldown_us :: u64

definition default_cooldown :: u64 where
  "default_cooldown = 1000000"

definition signal_type_name :: "signal_type \<Rightarrow> string" where
  "signal_type_name t = (case t of
      SPREAD_WIDE \<Rightarrow> ''SPREAD_WIDE'' | SPREAD_NARROW \<Rightarrow> ''SPREAD_NARROW''
    | IMBALANCE_BID \<Rightarrow> ''IMBALANCE_BID'' | IMBALANCE_ASK \<Rightarrow> ''IMBALANCE_ASK''
    | PRICE_DEVIATION \<Rightarrow> ''PRICE_DEVIATION''
    | TRADE_IMBALANCE_BUY \<Rightarrow> ''TRADE_IMBALANCE_BUY'' | TRADE_IMBALANCE_SELL \<Rightarrow> ''TRADE_IMBALANCE_SELL''
    | VOLUME_SPIKE \<Rightarrow> ''VOLUME_SPIKE''
    | BOOK_PRESSURE_BID \<Rightarrow> ''BOOK_PRESSURE_BID'' | BOOK_PRESSURE_ASK \<Rightarrow> ''BOOK_PRESSURE_ASK'')"

lemma signal_type_name_inj: "inj signal_type_name"
proof (rule injI)
  fix x y :: signal_type
  assume "signal_type_name x = signal_type_name y"
  then show "x = y" by (cases x; cases y) (simp_all add: signal_type_name_def)
qed

section \<open>State\<close>

type_synonym cooldown_key = "signal_type \<times> string"

record detector =
  det_conditions :: "condition list"
  det_last_fired :: "(cooldown_key \<times> u64) list"
  det_signals_fired :: u64
  det_suppressed :: u64

definition new_detector :: detector where
  "new_detector = \<lparr>det_conditions = [], det_last_fired = [], det_signals_fired = 0, det_suppressed = 0\<rparr>"

definition add_condition :: "condition \<Rightarrow> detector \<Rightarrow> detector" where
  "add_condition c d = d\<lparr>det_conditions := det_conditions d @ [c]\<rparr>"

section \<open>Evaluation\<close>

text \<open>The switch: the value of the condition and whether it triggers.\<close>

definition condition_value :: "agg_snapshot \<Rightarrow> ta_snapshot option \<Rightarrow> condition \<Rightarrow> bool \<times> double" where
  "condition_value agg trade_agg c = (case cond_type c of
      SPREAD_WIDE \<Rightarrow> (cond_threshold c < as_spread agg, as_spread agg)
    | SPREAD_NARROW \<Rightarrow> (0 < as_spread agg \<and> as_spread agg < cond_threshold c, as_spread agg)
    | IMBALANCE_BID \<Rightarrow> (cond_threshold c < as_imbalance agg, as_imbalance agg)
    | IMBALANCE_ASK \<Rightarrow> (as_imbalance agg < - cond_threshold c, as_imbalance agg)
    | PRICE_DEVIATION \<Rightarrow>
        (if 0 < as_mid_price_sma agg
         then (cond_threshold c < \<bar>as_mid_price agg - as_mid_price_sma agg\<bar> / as_mid_price_sma agg,
               \<bar>as_mid_price agg - as_mid_price_sma agg\<bar> / as_mid_price_sma agg)
         else (False, 0))
    | TRADE_IMBALANCE_BUY \<Rightarrow> (case trade_agg of None \<Rightarrow> (False, 0) | Some t \<Rightarrow>
        if 0 < ts_trade_count t then (cond_threshold c < ts_trade_imbalance t, ts_trade_imbalance t)
        else (False, 0))
    | TRADE_IMBALANCE_SELL \<Rightarrow> (case trade_agg of None \<Rightarrow> (False, 0) | Some t \<Rightarrow>
        if 0 < ts_trade_count t then (ts_trade_imbalance t < - cond_threshold c, ts_trade_imbalance t)
        else (False, 0))
    | VOLUME_SPIKE \<Rightarrow> (case trade_agg of None \<Rightarrow> (False, 0) | Some t \<Rightarrow>
        if 0 < ts_volume_sma t
        then (cond_threshold c < ts_total_volume t / ts_volume_sma t, ts_total_volume t / ts_volume_sma t)
        else (False, 0))
    | BOOK_PRESSURE_BID \<Rightarrow>
        (if 1 < as_sample_count agg then (cond_threshold c < as_imbalance_delta agg, as_imbalance_delta agg)
         else (False, 0))
    | BOOK_PRESSURE_ASK \<Rightarrow>
        (if 1 < as_sample_count agg then (as_imbalance_delta agg < - cond_threshold c, as_imbalance_delta agg)
         else (False, 0)))"

type_synonym 's callback = "(signal \<Rightarrow> 's \<Rightarrow> 's) option"

definition cooling :: "cooldown_key \<Rightarrow> u64 \<Rightarrow> u64 \<Rightarrow> detector \<Rightarrow> bool" where
  "cooling key now_us cooldown d =
     (case map_of (det_last_fired d) key of None \<Rightarrow> False | Some t \<Rightarrow> now_us - t < cooldown)"

definition make_signal :: "string \<Rightarrow> condition \<Rightarrow> double \<Rightarrow> u64 \<Rightarrow> signal" where
  "make_signal name c v now_us = \<lparr>sig_type = cond_type c, sig_symbol = name, sig_value = v,
     sig_threshold = cond_threshold c, sig_timestamp_us = now_us\<rparr>"

definition run_callback :: "'s callback \<Rightarrow> signal \<Rightarrow> 's \<Rightarrow> 's" where
  "run_callback cb s st = (case cb of None \<Rightarrow> st | Some f \<Rightarrow> f s st)"

definition fire :: "'s callback \<Rightarrow> string \<Rightarrow> condition \<Rightarrow> double \<Rightarrow> u64 \<Rightarrow> detector \<times> 's \<Rightarrow> detector \<times> 's" where
  "fire cb name c v now_us ds =
     (if cooling (cond_type c, name) now_us (cond_cooldown_us c) (fst ds)
      then ((fst ds)\<lparr>det_suppressed := det_suppressed (fst ds) + 1\<rparr>, snd ds)
      else ((fst ds)\<lparr>det_last_fired := put (cond_type c, name) now_us (det_last_fired (fst ds)),
                     det_signals_fired := det_signals_fired (fst ds) + 1\<rparr>,
            run_callback cb (make_signal name c v now_us) (snd ds)))"

definition eval_condition ::
    "'s callback \<Rightarrow> string \<Rightarrow> agg_snapshot \<Rightarrow> ta_snapshot option \<Rightarrow> condition \<Rightarrow>
     (detector \<times> 's) \<times> clock \<Rightarrow> (detector \<times> 's) \<times> clock" where
  "eval_condition cb name agg trade_agg c st =
     (case condition_value agg trade_agg c of (triggered, v) \<Rightarrow>
        if triggered
        then (case wall_us (snd st) of (now_us, clk) \<Rightarrow> (fire cb name c v now_us (fst st), clk))
        else st)"

definition evaluate ::
    "'s callback \<Rightarrow> string \<Rightarrow> order_book \<Rightarrow> agg_snapshot \<Rightarrow> ta_snapshot option \<Rightarrow>
     (detector \<times> 's) \<times> clock \<Rightarrow> (detector \<times> 's) \<times> clock" where
  "evaluate cb name book agg trade_agg st =
     (if as_sample_count agg = 0 then st
      else fold (eval_condition cb name agg trade_agg) (det_conditions (fst (fst st))) st)"

section \<open>One condition\<close>

lemma fire_conditions [simp]: "det_conditions (fst (fire cb name c v t ds)) = det_conditions (fst ds)"
  by (simp add: fire_def)

lemma eval_condition_conditions [simp]:
  "det_conditions (fst (fst (eval_condition cb name agg tr c st))) = det_conditions (fst (fst st))"
  by (simp add: eval_condition_def wall_us_def split: prod.split)

lemma fire_counts:
  "det_signals_fired (fst (fire cb name c v t ds)) + det_suppressed (fst (fire cb name c v t ds)) =
     det_signals_fired (fst ds) + det_suppressed (fst ds) + 1"
  by (simp add: fire_def)

abbreviation triggers :: "agg_snapshot \<Rightarrow> ta_snapshot option \<Rightarrow> condition \<Rightarrow> bool" where
  "triggers agg trade_agg c \<equiv> fst (condition_value agg trade_agg c)"

lemma eval_condition_cases:
  "eval_condition cb name agg tr c (ds, clk) =
     (if triggers agg tr c
      then (fire cb name c (snd (condition_value agg tr c)) (wall_reading clk (wall_count clk)) ds,
            clk\<lparr>wall_count := Suc (wall_count clk)\<rparr>)
      else (ds, clk))"
  by (simp add: eval_condition_def wall_us_def split: prod.split)

lemma cooling_put:
  "cooling key now_us cd (d\<lparr>det_last_fired := put key' t (det_last_fired d), det_signals_fired := n\<rparr>) =
     (if key = key' then now_us - t < cd else cooling key now_us cd d)"
  by (simp add: cooling_def)

text \<open>A condition with cooldown 0 is never suppressed.\<close>

lemma cooling_zero [simp]: "\<not> cooling key now_us 0 d"
  by (simp add: cooling_def split: option.split)

section \<open>Runs\<close>

type_synonym det_input = "string \<times> order_book \<times> agg_snapshot \<times> ta_snapshot option"

definition eval_input :: "'s callback \<Rightarrow> det_input \<Rightarrow> (detector \<times> 's) \<times> clock \<Rightarrow> (detector \<times> 's) \<times> clock" where
  "eval_input cb inp st = (case inp of (name, book, agg, tr) \<Rightarrow> evaluate cb name book agg tr st)"

definition det_run :: "'s callback \<Rightarrow> det_input list \<Rightarrow> (detector \<times> 's) \<times> clock \<Rightarrow> (detector \<times> 's) \<times> clock" where
  "det_run cb inputs st = fold (eval_input cb) inputs st"

definition detector_with :: "condition list \<Rightarrow> detector" where
  "detector_with cs = fold add_condition cs new_detector"

lemma detector_with_eq: "detector_with cs = new_detector\<lparr>det_conditions := cs\<rparr>"
proof -
  have "fold add_condition cs d = d\<lparr>det_conditions := det_conditions d @ cs\<rparr>" for d
    by (induction cs arbitrary: d) (simp_all add: add_condition_def)
  then show ?thesis by (simp add: detector_with_def new_detector_def)
qed

text \<open>A property kept by every condition that triggers is kept by runs.\<close>

lemma fold_conditions_induct:
  assumes "P ds clk" "det_conditions (fst ds) = cs" "set cs' \<subseteq> set cs"
    and "\<And>ds clk name c v. P ds clk \<Longrightarrow> det_conditions (fst ds) = cs \<Longrightarrow> c \<in> set cs \<Longrightarrow>
      P (fire cb name c v (wall_reading clk (wall_count clk)) ds) (clk\<lparr>wall_count := Suc (wall_count clk)\<rparr>)"
  shows "case fold (eval_condition cb name agg tr) cs' (ds, clk) of (ds', clk') \<Rightarrow>
    P ds' clk' \<and> det_conditions (fst ds') = cs"
  using assms(1-3)
  by (induction cs' arbitrary: ds clk) (simp_all add: eval_condition_cases assms(4))

lemma det_run_induct:
  assumes "P ds clk" "det_conditions (fst ds) = cs"
    and "\<And>ds clk name c v. P ds clk \<Longrightarrow> det_conditions (fst ds) = cs \<Longrightarrow> c \<in> set cs \<Longrightarrow>
      P (fire cb name c v (wall_reading clk (wall_count clk)) ds) (clk\<lparr>wall_count := Suc (wall_count clk)\<rparr>)"
  shows "case det_run cb inputs (ds, clk) of (ds', clk') \<Rightarrow> P ds' clk' \<and> det_conditions (fst ds') = cs"
  using assms(1,2)
proof (induction inputs arbitrary: ds clk)
  case Nil
  then show ?case by (simp add: det_run_def)
next
  case (Cons inp inputs)
  obtain name book agg tr where inp: "inp = (name, book, agg, tr)" by (cases inp) auto
  obtain ds' clk' where st: "eval_input cb inp (ds, clk) = (ds', clk')" by fastforce
  have "P ds' clk' \<and> det_conditions (fst ds') = cs"
    using Cons.prems st fold_conditions_induct [of P ds clk cs cs cb name agg tr] assms(3)
    by (auto simp: eval_input_def inp evaluate_def split: if_splits prod.splits)
  then show ?case using Cons.IH by (simp add: det_run_def st)
qed

section \<open>Spacing of the signals\<close>

text \<open>The log of a run, newest signal first, as the callback below collects it.\<close>

definition log_signal :: "signal list callback" where
  "log_signal = Some (\<lambda>s sigs. s # sigs)"

definition key_of :: "signal \<Rightarrow> cooldown_key" where
  "key_of s = (sig_type s, sig_symbol s)"

fun spaced :: "condition list \<Rightarrow> signal list \<Rightarrow> bool" where
  "spaced cs [] = True"
| "spaced cs (s # older) = ((case find (\<lambda>p. key_of p = key_of s) older of
       None \<Rightarrow> True
     | Some p \<Rightarrow> list_ex (\<lambda>c. cond_type c = sig_type s \<and> cond_threshold c = sig_threshold s
                    \<and> cond_cooldown_us c \<le> sig_timestamp_us s - sig_timestamp_us p) cs)
     \<and> spaced cs older)"

definition log_inv :: "condition list \<Rightarrow> detector \<times> signal list \<Rightarrow> bool" where
  "log_inv cs ds \<longleftrightarrow> spaced cs (snd ds)
    \<and> (\<forall>key. map_of (det_last_fired (fst ds)) key =
          map_option sig_timestamp_us (find (\<lambda>p. key_of p = key) (snd ds)))
    \<and> det_signals_fired (fst ds) = of_nat (length (snd ds))"

lemma fire_log_inv:
  assumes "log_inv cs ds" "c \<in> set cs"
  shows "log_inv cs (fire log_signal name c v t ds)"
proof (cases "cooling (cond_type c, name) t (cond_cooldown_us c) (fst ds)")
  case True
  then show ?thesis using assms by (simp add: fire_def log_inv_def)
next
  case False
  let ?s = "make_signal name c v t"
  have key: "key_of ?s = (cond_type c, name)" by (simp add: key_of_def make_signal_def)
  have "list_ex (\<lambda>c'. cond_type c' = sig_type ?s \<and> cond_threshold c' = sig_threshold ?s
      \<and> cond_cooldown_us c' \<le> sig_timestamp_us ?s - sig_timestamp_us p) cs"
    if "find (\<lambda>p. key_of p = key_of ?s) (snd ds) = Some p" for p
  proof -
    have "map_of (det_last_fired (fst ds)) (cond_type c, name) = Some (sig_timestamp_us p)"
      using assms(1) that by (simp add: log_inv_def key)
    then have "cond_cooldown_us c \<le> t - sig_timestamp_us p" using False by (simp add: cooling_def not_less)
    then show ?thesis using assms(2) by (auto simp: list_ex_iff make_signal_def)
  qed
  then have "spaced cs (?s # snd ds)" using assms(1) by (simp add: log_inv_def split: option.split)
  then show ?thesis
    using False assms(1) by (auto simp: fire_def log_inv_def run_callback_def log_signal_def key)
      (auto simp: make_signal_def key_of_def)
qed

text \<open>Whatever the clock, a signal is separated from the previous one of its type and symbol
  by the cooldown of a condition that produced it, measured on the recorded timestamps; and
  the counter of fired signals is the number of callback calls.\<close>

theorem cooldown_spacing:
  "case det_run log_signal inputs ((detector_with cs, []), clk) of ((d, sigs), clk') \<Rightarrow>
     spaced cs sigs \<and> det_signals_fired d = of_nat (length sigs)"
proof -
  have "log_inv cs (detector_with cs, [])" by (simp add: log_inv_def detector_with_eq new_detector_def)
  then have "case det_run log_signal inputs ((detector_with cs, []), clk) of (ds, clk') \<Rightarrow>
      log_inv cs ds \<and> det_conditions (fst ds) = cs"
    by (intro det_run_induct [where P = "\<lambda>ds clk. log_inv cs ds"]) (auto simp: detector_with_eq intro: fire_log_inv)
  then show ?thesis by (auto simp: log_inv_def split: prod.splits)
qed

section \<open>Accounting\<close>

text \<open>The conditions that trigger on an input; an aggregator without samples triggers none.\<close>

definition triggered :: "condition list \<Rightarrow> det_input \<Rightarrow> condition list" where
  "triggered cs inp = (case inp of (name, book, agg, tr) \<Rightarrow>
     if as_sample_count agg = 0 then [] else filter (triggers agg tr) cs)"

definition outcomes :: "(detector \<times> 's) \<times> clock \<Rightarrow> u64" where
  "outcomes st = det_signals_fired (fst (fst st)) + det_suppressed (fst (fst st))"

lemma eval_condition_count:
  "outcomes (eval_condition cb name agg tr c st) = outcomes st + (if triggers agg tr c then 1 else 0)"
  "wall_count (snd (eval_condition cb name agg tr c st)) = wall_count (snd st) + (if triggers agg tr c then 1 else 0)"
  by (cases st; simp add: eval_condition_cases outcomes_def fire_counts)+

lemma fold_conditions_count:
  "outcomes (fold (eval_condition cb name agg tr) cs st) = outcomes st + of_nat (length (filter (triggers agg tr) cs))"
  "wall_count (snd (fold (eval_condition cb name agg tr) cs st)) = wall_count (snd st) + length (filter (triggers agg tr) cs)"
  "det_conditions (fst (fst (fold (eval_condition cb name agg tr) cs st))) = det_conditions (fst (fst st))"
  by (induction cs arbitrary: st) (simp_all add: eval_condition_count)

lemma eval_input_count:
  "outcomes (eval_input cb inp st) = outcomes st + of_nat (length (triggered (det_conditions (fst (fst st))) inp))"
  "wall_count (snd (eval_input cb inp st)) = wall_count (snd st) + length (triggered (det_conditions (fst (fst st))) inp)"
  "det_conditions (fst (fst (eval_input cb inp st))) = det_conditions (fst (fst st))"
  by (cases inp; simp add: eval_input_def evaluate_def triggered_def fold_conditions_count)+

lemma det_run_count:
  "outcomes (det_run cb inputs st) = outcomes st
     + of_nat (length (concat (map (triggered (det_conditions (fst (fst st)))) inputs)))"
  "wall_count (snd (det_run cb inputs st)) = wall_count (snd st)
     + length (concat (map (triggered (det_conditions (fst (fst st)))) inputs))"
  by (induction inputs arbitrary: st) (simp_all add: det_run_def eval_input_count)

text \<open>Every triggered condition is either fired or counted as suppressed, and the clock is
  read once for each of them and never otherwise.\<close>

theorem fired_plus_suppressed:
  "case det_run cb inputs ((detector_with cs, st), clk) of ((d, st'), clk') \<Rightarrow>
     det_signals_fired d + det_suppressed d = of_nat (length (concat (map (triggered cs) inputs)))
   \<and> wall_count clk' = wall_count clk + length (concat (map (triggered cs) inputs))"
  using det_run_count [of cb inputs "((detector_with cs, st), clk)"]
  by (auto simp: outcomes_def detector_with_eq new_detector_def split: prod.splits)

section \<open>The signals of one evaluation\<close>

text \<open>
  The triggered conditions, each with the reading of the clock it gets; those that are not
  cooling down at that reading fire.
\<close>

definition fires :: "detector \<Rightarrow> clock \<Rightarrow> string \<Rightarrow> nat \<times> condition \<Rightarrow> bool" where
  "fires d clk name ic =
     (\<not> cooling (cond_type (snd ic), name) (wall_reading clk (fst ic)) (cond_cooldown_us (snd ic)) d)"

definition signal_at :: "agg_snapshot \<Rightarrow> ta_snapshot option \<Rightarrow> clock \<Rightarrow> string \<Rightarrow> nat \<times> condition \<Rightarrow> signal" where
  "signal_at agg tr clk name ic =
     make_signal name (snd ic) (snd (condition_value agg tr (snd ic))) (wall_reading clk (fst ic))"

lemma fold_conditions_signals:
  assumes "distinct (map cond_type cs)"
  shows "snd (fst (fold (eval_condition log_signal name agg tr) cs ((d, sigs), clk))) =
     rev (map (signal_at agg tr clk name)
       (filter (fires d clk name) (enumerate (wall_count clk) (filter (triggers agg tr) cs)))) @ sigs"
  using assms
proof (induction cs arbitrary: d sigs clk)
  case (Cons c cs)
  show ?case
  proof (cases "triggers agg tr c")
    case False
    then show ?thesis using Cons by (simp add: eval_condition_cases)
  next
    case True
    let ?t = "wall_reading clk (wall_count clk)" and ?clk = "clk\<lparr>wall_count := Suc (wall_count clk)\<rparr>"
    obtain d' sigs' where f: "fire log_signal name c (snd (condition_value agg tr c)) ?t (d, sigs) = (d', sigs')"
      by fastforce
    have same: "fires d' ?clk name (i, c') = fires d clk name (i, c')" if "c' \<in> set cs" for i c'
    proof -
      have "cond_type c' \<noteq> cond_type c" using Cons.prems that by (auto simp: image_iff)
      then have "map_of (det_last_fired d') (cond_type c', name) = map_of (det_last_fired d) (cond_type c', name)"
        using f by (auto simp: fire_def split: if_splits)
      then show ?thesis by (simp add: fires_def cooling_def)
    qed
    have "filter (fires d' ?clk name) (enumerate n (filter P cs)) = filter (fires d clk name) (enumerate n (filter P cs))" for n P
      by (rule filter_cong) (auto simp: enumerate_eq_zip same dest!: set_zip_rightD)
    moreover have "signal_at agg tr ?clk name = signal_at agg tr clk name"
      by (simp add: signal_at_def fun_eq_iff)
    moreover have "sigs' = (if fires d clk name (wall_count clk, c)
        then [signal_at agg tr clk name (wall_count clk, c)] else []) @ sigs"
      using f by (auto simp: fire_def fires_def signal_at_def run_callback_def log_signal_def split: if_splits)
    ultimately show ?thesis using Cons True by (simp add: eval_condition_cases f)
  qed
qed simp


section \<open>A book without one side\<close>

text \<open>An update that leaves the book one-sided keeps the moving average of the mid price but
  sets the mid price itself to the sentinel 0, so the relative deviation is 1 and every
  deviation condition with a threshold below 1 triggers.\<close>

theorem one_sided_deviation:
  assumes "ob_asks b = []" "0 < as_mid_price_sma (ag_snapshot a)" "d_finite (as_mid_price_sma (ag_snapshot a))"
    and "cond_type c = PRICE_DEVIATION"
  shows "d_eq (snd (condition_value (ag_snapshot (agg_update b a)) tr c)) 1
    \<and> (triggers (ag_snapshot (agg_update b a)) tr c \<longleftrightarrow> cond_threshold c < 1)"
proof -
  let ?m = "as_mid_price_sma (ag_snapshot a)" and ?s = "ag_snapshot (agg_update b a)"
  have "mid_price b = 0" using assms(1) by (simp add: mid_price_def)
  then have snap: "as_mid_price ?s = 0" "as_mid_price_sma ?s = ?m" by (simp_all add: agg_update_snapshot)
  have sign: "\<not> d_sign ?m" using assms(2) d_mag_nonneg [of ?m]
    unfolding d_pos_iff d_key_def by (cases "d_sign ?m") simp_all
  have "d_key (0 - ?m) = - d_key ?m"
    using key_diff [OF _ assms(3), of 0] srnd_d_val [OF assms(3)] by (simp add: srnd_minus)
  then have "d_mag (0 - ?m) = d_mag ?m" using abs_d_key [of "0 - ?m"] abs_d_key [of ?m] by simp
  then have "\<bar>0 - ?m\<bar> = mk_double (d_sign ?m) (d_mag ?m)" using sign by (simp add: abs_double_def)
  then have abs: "\<bar>0 - ?m\<bar> = ?m" by simp
  have nz: "d_mag ?m \<noteq> 0" using assms(2) by (rule d_pos_mag)
  have "0 < d_val ?m" using assms(2) by (simp add: d_pos_iff d_key_pos_val)
  then have "d_key (?m / ?m) = d_key 1" using key_div [OF assms(3,3) nz] srnd_d_val [of 1] nz by simp
  moreover have "\<not> d_nan (?m / ?m)" using assms(3) nz by (simp add: ieee)
  ultimately have "d_eq (?m / ?m) 1" "cond_threshold c < ?m / ?m \<longleftrightarrow> cond_threshold c < 1"
    by (simp_all add: d_eq_def less_double_def)
  then show ?thesis using assms(2,4) by (simp add: condition_value_def snap abs)
qed

section \<open>Concrete evaluations\<close>

definition sample_conditions :: "condition list" where
  "sample_conditions =
    [\<lparr>cond_type = SPREAD_WIDE, cond_threshold = double_of_int 5, cond_cooldown_us = default_cooldown\<rparr>,
     \<lparr>cond_type = SPREAD_NARROW, cond_threshold = double_of_int 2, cond_cooldown_us = default_cooldown\<rparr>,
     \<lparr>cond_type = IMBALANCE_BID, cond_threshold = double_lit 1 2, cond_cooldown_us = default_cooldown\<rparr>]"

definition sample_agg :: aggregator where
  "sample_agg = agg_update sample_book (new_aggregator 5 20)"


theorem one_sided_deviation_witness:
  "triggers (ag_snapshot (agg_update (sample_book\<lparr>ob_asks := []\<rparr>) sample_agg)) None
     \<lparr>cond_type = PRICE_DEVIATION, cond_threshold = double_lit 1 100, cond_cooldown_us = 0\<rparr>"
proof -
  have "0 < as_mid_price_sma (ag_snapshot sample_agg)" "d_finite (as_mid_price_sma (ag_snapshot sample_agg))"
    "double_lit 1 100 < 1" by code_simp+
  then show ?thesis
    using one_sided_deviation [of "sample_book\<lparr>ob_asks := []\<rparr>" sample_agg
        "\<lparr>cond_type = PRICE_DEVIATION, cond_threshold = double_lit 1 100, cond_cooldown_us = 0\<rparr>" None]
    by simp
qed

end
