(* ===== verification/Byte_Codec.thy ===== *)
theory Byte_Codec
  imports Core_Types
begin

text \<open>
  The memory image the recorder writes: little-endian integers, IEEE doubles, packed
  structures. The locale \<open>codec\<close> is the contract every field type of the format fulfils;
  its lemmas decode a field in front of a rest, and arrays of fields. The interpretations
  are the scalar types and the price level.
\<close>

section \<open>Little-endian integers\<close>

fun le_bytes :: "nat \<Rightarrow> int \<Rightarrow> u8 list" where
  "le_bytes 0 x = []"
| "le_bytes (Suc n) x = word_of_int x # le_bytes n (x div 256)"

fun le_value :: "u8 list \<Rightarrow> int" where
  "le_value [] = 0"
| "le_value (b # bs) = uint b + 256 * le_value bs"

lemma length_le_bytes [simp]: "length (le_bytes n x) = n"
  by (induction n x rule: le_bytes.induct) simp_all

lemma le_value_bytes: "le_value (le_bytes n x) = x mod 256 ^ n"
proof (induction n x rule: le_bytes.induct)
  case (2 n x)
  have "uint (word_of_int x :: u8) = x mod 256" by (simp add: uint_word_of_int)
  then show ?case using 2 by (simp add: zmod_zmult2_eq)
qed simp

lemma le_value_range: "0 \<le> le_value bs \<and> le_value bs < 256 ^ length bs"
proof (induction bs)
  case (Cons b bs)
  have "0 \<le> uint b" "uint b < 256" using uint_bounded [of b] by simp_all
  then show ?case using Cons by simp
qed simp

lemma le_bytes_value: "le_bytes (length bs) (le_value bs) = bs"
proof (induction bs)
  case (Cons b bs)
  have "uint b < 256" using uint_bounded [of b] by simp
  then have "(uint b + 256 * le_value bs) div 256 = le_value bs" by simp
  moreover have "word_of_int (uint b + 256 * le_value bs) = b"
  proof (rule word_uint_eqI)
    show "uint (word_of_int (uint b + 256 * le_value bs) :: u8) = uint b"
      unfolding uint_word_of_int using \<open>uint b < 256\<close> by simp
  qed
  ultimately show ?case using Cons by simp
qed simp

section \<open>The contract of a field type\<close>

locale codec =
  fixes enc :: "'a \<Rightarrow> u8 list" and dec :: "u8 list \<Rightarrow> 'a" and width :: nat and fits :: "'a \<Rightarrow> bool"
  assumes length_enc: "fits x \<Longrightarrow> length (enc x) = width"
    and dec_enc: "fits x \<Longrightarrow> dec (enc x) = x"
begin

lemma dec_take: "fits x \<Longrightarrow> dec (take width (enc x @ rest)) = x"
  by (simp add: length_enc dec_enc)

lemma drop_enc: "fits x \<Longrightarrow> drop width (enc x @ rest) = rest"
  by (simp add: length_enc)

lemma enc_inj: "fits x \<Longrightarrow> fits y \<Longrightarrow> enc x = enc y \<Longrightarrow> x = y"
  using dec_enc by metis

lemma length_array: "list_all fits xs \<Longrightarrow> length (concat (map enc xs)) = length xs * width"
  by (induction xs) (simp_all add: length_enc)

end

text \<open>An array of \<open>n\<close> fields of the same width.\<close>

fun dec_array :: "(u8 list \<Rightarrow> 'a) \<Rightarrow> nat \<Rightarrow> nat \<Rightarrow> u8 list \<Rightarrow> 'a list" where
  "dec_array dec width 0 bs = []"
| "dec_array dec width (Suc n) bs = dec (take width bs) # dec_array dec width n (drop width bs)"

context codec
begin

lemma dec_array_enc:
  "list_all fits xs \<Longrightarrow> dec_array dec width (length xs) (concat (map enc xs) @ rest) = xs"
  by (induction xs) (simp_all add: dec_take drop_enc del: take_append drop_append)

lemma dec_array_exact:
  "list_all fits xs \<Longrightarrow> length xs = n \<Longrightarrow> dec_array dec width n (concat (map enc xs)) = xs"
  using dec_array_enc [of xs "[]"] by simp

end

section \<open>The field types\<close>

definition enc_u16 :: "u16 \<Rightarrow> u8 list" where "enc_u16 w = le_bytes 2 (uint w)"
definition enc_u32 :: "u32 \<Rightarrow> u8 list" where "enc_u32 w = le_bytes 4 (uint w)"
definition enc_u64 :: "u64 \<Rightarrow> u8 list" where "enc_u64 w = le_bytes 8 (uint w)"
definition dec_u16 :: "u8 list \<Rightarrow> u16" where "dec_u16 bs = word_of_int (le_value bs)"
definition dec_u32 :: "u8 list \<Rightarrow> u32" where "dec_u32 bs = word_of_int (le_value bs)"
definition dec_u64 :: "u8 list \<Rightarrow> u64" where "dec_u64 bs = word_of_int (le_value bs)"

definition enc_double :: "double \<Rightarrow> u8 list" where "enc_double d = enc_u64 (bits d)"
definition dec_double :: "u8 list \<Rightarrow> double" where "dec_double bs = Double (dec_u64 bs)"

definition enc_char :: "char \<Rightarrow> u8 list" where "enc_char c = [of_nat (of_char c)]"
definition dec_char :: "u8 list \<Rightarrow> char" where "dec_char bs = (case bs of [] \<Rightarrow> CHR 0x00 | b # _ \<Rightarrow> char_of (unat b))"

definition enc_level :: "price_level \<Rightarrow> u8 list" where
  "enc_level l = enc_double (lv_price l) @ enc_double (lv_qty l)"

definition dec_level :: "u8 list \<Rightarrow> price_level" where
  "dec_level bs = \<lparr>lv_price = dec_double (take 8 bs), lv_qty = dec_double (take 8 (drop 8 bs))\<rparr>"

definition any :: "'a \<Rightarrow> bool" where "any x = True"

lemma any [simp]: "any x" by (simp add: any_def)

lemma list_all_any [simp]: "list_all any xs" by (simp add: list_all_iff)

lemma uint_value [simp]:
  "uint (x::u16) mod 65536 = uint x" "uint (y::u32) mod 4294967296 = uint y"
  "uint (z::u64) mod 18446744073709551616 = uint z"
  using uint_bounded [of x] uint_bounded [of y] uint_bounded [of z] by simp_all

interpretation u16: codec enc_u16 dec_u16 2 any
  by unfold_locales (simp_all add: enc_u16_def dec_u16_def le_value_bytes)

interpretation u32: codec enc_u32 dec_u32 4 any
  by unfold_locales (simp_all add: enc_u32_def dec_u32_def le_value_bytes)

interpretation u64: codec enc_u64 dec_u64 8 any
  by unfold_locales (simp_all add: enc_u64_def dec_u64_def le_value_bytes)

interpretation dbl: codec enc_double dec_double 8 any
  using u64.dec_enc u64.length_enc by unfold_locales (simp_all add: enc_double_def dec_double_def)

interpretation chr: codec enc_char dec_char 1 any
proof
  fix c :: char
  have "(of_char c :: nat) < 256" by (rule nat_of_char_less_256)
  then have "unat (of_nat (of_char c) :: u8) = of_char c" by (simp add: unat_of_nat)
  then show "dec_char (enc_char c) = c" by (simp add: enc_char_def dec_char_def)
qed (simp add: enc_char_def)

interpretation level: codec enc_level dec_level 16 any
proof
  fix l :: price_level
  show "length (enc_level l) = 16" by (simp add: enc_level_def dbl.length_enc)
  show "dec_level (enc_level l) = l"
    by (simp add: dec_level_def enc_level_def dbl.dec_take dbl.drop_enc dbl.length_enc dbl.dec_enc)
qed

end
