(* ===== verification/Disk_Log.thy ===== *)
theory Disk_Log
  imports Byte_Codec Order_Book
begin

text \<open>
  \<open>src/output/disk_logger.h\<close> and \<open>disk_logger.cpp\<close>: the binary recording format, the writer and
  the reader, on a byte-level file system. The lemmas show that a closed recording reads
  back as it was written, and that a recording cut at any byte reads back as its whole
  records.
\<close>

section \<open>On-disk structures\<close>

definition FILE_MAGIC :: u32 where "FILE_MAGIC = 0x4D444531"
definition FILE_VERSION :: u32 where "FILE_VERSION = 1"
definition SYMBOL_MAX_LEN :: nat where "SYMBOL_MAX_LEN = 32"

record file_header =
  fh_magic :: u32
  fh_version :: u32
  fh_created_us :: u64
  fh_record_count :: u32
  fh_reserved :: u32

record record_header =
  rh_wall_timestamp_us :: u64
  rh_payload_size :: u32

record depth_record =
  dr_event_time_ms :: u64
  dr_first_update_id :: u64
  dr_last_update_id :: u64
  dr_symbol :: string
  dr_bid_count :: u16
  dr_ask_count :: u16
  dr_bids :: "price_level list"
  dr_asks :: "price_level list"

text \<open>The structures are packed, so their sizes are the sums of the field sizes.\<close>

definition file_header_size :: nat where "file_header_size = 24"
definition record_header_size :: nat where "record_header_size = 12"
definition depth_record_size :: nat where "depth_record_size = 2108"
definition record_count_offset :: nat where "record_count_offset = 16"

definition enc_file_header :: "file_header \<Rightarrow> u8 list" where
  "enc_file_header h = enc_u32 (fh_magic h) @ enc_u32 (fh_version h) @ enc_u64 (fh_created_us h)
     @ enc_u32 (fh_record_count h) @ enc_u32 (fh_reserved h)"

definition dec_file_header :: "u8 list \<Rightarrow> file_header" where
  "dec_file_header bs = \<lparr>fh_magic = dec_u32 (take 4 bs), fh_version = dec_u32 (take 4 (drop 4 bs)),
     fh_created_us = dec_u64 (take 8 (drop 8 bs)), fh_record_count = dec_u32 (take 4 (drop 16 bs)),
     fh_reserved = dec_u32 (take 4 (drop 20 bs))\<rparr>"

definition enc_record_header :: "record_header \<Rightarrow> u8 list" where
  "enc_record_header h = enc_u64 (rh_wall_timestamp_us h) @ enc_u32 (rh_payload_size h)"

definition dec_record_header :: "u8 list \<Rightarrow> record_header" where
  "dec_record_header bs = \<lparr>rh_wall_timestamp_us = dec_u64 (take 8 bs), rh_payload_size = dec_u32 (take 4 (drop 8 bs))\<rparr>"

definition enc_symbol :: "string \<Rightarrow> u8 list" where
  "enc_symbol s = concat (map enc_char s)"

definition dec_symbol :: "u8 list \<Rightarrow> string" where
  "dec_symbol bs = dec_array dec_char 1 SYMBOL_MAX_LEN bs"

definition enc_levels :: "price_level list \<Rightarrow> u8 list" where
  "enc_levels ls = concat (map enc_level ls)"

definition dec_levels :: "u8 list \<Rightarrow> price_level list" where
  "dec_levels bs = dec_array dec_level 16 MAX_LEVELS bs"

definition enc_depth_record :: "depth_record \<Rightarrow> u8 list" where
  "enc_depth_record r = enc_u64 (dr_event_time_ms r) @ enc_u64 (dr_first_update_id r)
     @ enc_u64 (dr_last_update_id r) @ enc_symbol (dr_symbol r)
     @ enc_u16 (dr_bid_count r) @ enc_u16 (dr_ask_count r)
     @ enc_levels (dr_bids r) @ enc_levels (dr_asks r)"

definition dec_depth_record :: "u8 list \<Rightarrow> depth_record" where
  "dec_depth_record bs = \<lparr>dr_event_time_ms = dec_u64 (take 8 bs),
     dr_first_update_id = dec_u64 (take 8 (drop 8 bs)), dr_last_update_id = dec_u64 (take 8 (drop 16 bs)),
     dr_symbol = dec_symbol (take 32 (drop 24 bs)),
     dr_bid_count = dec_u16 (take 2 (drop 56 bs)), dr_ask_count = dec_u16 (take 2 (drop 58 bs)),
     dr_bids = dec_levels (take 1024 (drop 60 bs)), dr_asks = dec_levels (take 1024 (drop 1084 bs))\<rparr>"

definition wf_record :: "depth_record \<Rightarrow> bool" where
  "wf_record r \<longleftrightarrow> length (dr_symbol r) = SYMBOL_MAX_LEN
     \<and> length (dr_bids r) = MAX_LEVELS \<and> length (dr_asks r) = MAX_LEVELS"

definition has_width :: "nat \<Rightarrow> 'a list \<Rightarrow> bool" where
  "has_width n xs = (length xs = n)"

interpretation sym: codec enc_symbol dec_symbol 32 "has_width SYMBOL_MAX_LEN"
  by unfold_locales
    (simp_all add: enc_symbol_def dec_symbol_def has_width_def SYMBOL_MAX_LEN_def chr.length_array chr.dec_array_exact [simplified])

interpretation levels: codec enc_levels dec_levels 1024 "has_width MAX_LEVELS"
  by unfold_locales
    (simp_all add: enc_levels_def dec_levels_def has_width_def MAX_LEVELS_def level.length_array level.dec_array_exact)

interpretation file_hdr: codec enc_file_header dec_file_header 24 any
  by unfold_locales (simp_all add: enc_file_header_def dec_file_header_def u32.length_enc u64.length_enc
      u32.dec_enc u64.dec_enc)

interpretation rec_hdr: codec enc_record_header dec_record_header 12 any
  by unfold_locales (simp_all add: enc_record_header_def dec_record_header_def u32.length_enc u64.length_enc
      u32.dec_enc u64.dec_enc)

interpretation depth_rec: codec enc_depth_record dec_depth_record 2108 wf_record
  by unfold_locales (simp_all add: enc_depth_record_def dec_depth_record_def wf_record_def
      u16.length_enc u64.length_enc u16.dec_enc u64.dec_enc
      sym.length_enc sym.dec_enc levels.length_enc levels.dec_enc has_width_def)

section \<open>Conversion\<close>

text \<open>
  \<open>to_record\<close> keeps at most 31 bytes of the symbol; the rest of the field is zero.
  \<open>from_record\<close> reads the symbol as a C string: without a terminating zero in the field
  the read runs past it.
\<close>

definition to_record :: "depth_update \<Rightarrow> depth_record" where
  "to_record u = \<lparr>dr_event_time_ms = du_event_time_ms u, dr_first_update_id = du_first_update_id u,
     dr_last_update_id = du_last_update_id u,
     dr_symbol = (let len = (if length (du_symbol u) \<ge> SYMBOL_MAX_LEN then SYMBOL_MAX_LEN - 1 else length (du_symbol u))
                  in take len (du_symbol u) @ replicate (SYMBOL_MAX_LEN - len) (CHR 0x00)),
     dr_bid_count = du_bid_count u, dr_ask_count = du_ask_count u,
     dr_bids = du_bids u, dr_asks = du_asks u\<rparr>"

definition c_string :: "string \<Rightarrow> string res" where
  "c_string field = (if CHR 0x00 \<in> set field then Inr (takeWhile (\<lambda>c. c \<noteq> CHR 0x00) field) else Inl Out_Of_Bounds)"

definition from_record :: "depth_record \<Rightarrow> depth_update res" where
  "from_record r = bind_res (c_string (dr_symbol r)) (\<lambda>name.
     Inr (new_update\<lparr>du_event_time_ms := dr_event_time_ms r, du_first_update_id := dr_first_update_id r,
       du_last_update_id := dr_last_update_id r, du_symbol := name,
       du_bid_count := dr_bid_count r, du_ask_count := dr_ask_count r,
       du_bids := dr_bids r, du_asks := dr_asks r\<rparr>))"

text \<open>What survives: the symbol up to its first zero byte and 31 bytes, and no timestamps.\<close>

definition stored_symbol :: "string \<Rightarrow> string" where
  "stored_symbol s = takeWhile (\<lambda>c. c \<noteq> CHR 0x00) (take 31 s)"

definition stored :: "depth_update \<Rightarrow> depth_update" where
  "stored u = u\<lparr>du_symbol := stored_symbol (du_symbol u), du_received := 0, du_parsed := 0,
     du_enqueued := 0, du_dequeued := 0\<rparr>"

lemma to_record_symbol:
  "dr_symbol (to_record u) = take 31 (du_symbol u) @ replicate (32 - length (take 31 (du_symbol u))) (CHR 0x00)"
  by (auto simp: to_record_def SYMBOL_MAX_LEN_def Let_def min_def)

lemma from_to_record: "from_record (to_record u) = Inr (stored u)"
proof -
  have "takeWhile (\<lambda>c. c \<noteq> CHR 0x00) (xs @ replicate (Suc n) (CHR 0x00)) = takeWhile (\<lambda>c. c \<noteq> CHR 0x00) xs" for xs n
    by (induction xs) simp_all
  moreover have "32 - length (take 31 (du_symbol u)) = Suc (31 - length (take 31 (du_symbol u)))" by simp
  ultimately have "c_string (dr_symbol (to_record u)) = Inr (stored_symbol (du_symbol u))"
    by (simp only: to_record_symbol c_string_def stored_symbol_def) simp
  then show ?thesis by (simp add: from_record_def stored_def to_record_def new_update_def)
qed

lemma wf_to_record: "wf_update u \<Longrightarrow> wf_record (to_record u)"
  by (simp add: wf_record_def wf_update_def to_record_symbol SYMBOL_MAX_LEN_def min_def) (simp add: to_record_def)

text \<open>The bytes of a record decode to the update they were made from, up to the 31-byte limit of
  the symbol and the latency timestamps, and the record has the size the header declares.\<close>

theorem record_roundtrip:
  assumes "wf_update u"
  shows "from_record (dec_depth_record (enc_depth_record (to_record u))) = Inr (stored u)
    \<and> length (enc_depth_record (to_record u)) = depth_record_size"
  using wf_to_record [OF assms]
  by (simp add: depth_rec.dec_enc depth_rec.length_enc from_to_record depth_record_size_def)

section \<open>Files\<close>

text \<open>
  The disk: the contents of the files by path, the bytes that can still be written, the
  directories \<open>mkdir\<close> was called for, and the environment's decision whether a path can be
  created once those calls were made.
\<close>

record disk =
  disk_files :: "(string \<times> u8 list) list"
  disk_space :: nat
  disk_made :: "string list"
  disk_creatable :: "string list \<Rightarrow> string \<Rightarrow> bool"

definition file_bytes :: "string \<Rightarrow> disk \<Rightarrow> u8 list" where
  "file_bytes path dk = (case map_of (disk_files dk) path of None \<Rightarrow> [] | Some bs \<Rightarrow> bs)"

text \<open>\<open>fopen(path, "wb")\<close> truncates; \<open>fwrite\<close> at the end writes what fits and tells whether that is all.\<close>

definition fopen_wb :: "string \<Rightarrow> disk \<Rightarrow> bool \<times> disk" where
  "fopen_wb path dk = (if disk_creatable dk (disk_made dk) path
     then (True, dk\<lparr>disk_files := put path [] (disk_files dk)\<rparr>) else (False, dk))"

definition fwrite_end :: "string \<Rightarrow> u8 list \<Rightarrow> disk \<Rightarrow> bool \<times> disk" where
  "fwrite_end path bs dk = (length bs \<le> disk_space dk,
     dk\<lparr>disk_files := put path (file_bytes path dk @ take (disk_space dk) bs) (disk_files dk),
        disk_space := disk_space dk - length bs\<rparr>)"

text \<open>\<open>fseek\<close> to an offset and \<open>fwrite\<close> over bytes the file already has.\<close>

definition fwrite_at :: "string \<Rightarrow> nat \<Rightarrow> u8 list \<Rightarrow> disk \<Rightarrow> disk" where
  "fwrite_at path offset bs dk = (let old = file_bytes path dk in
     dk\<lparr>disk_files := put path (take offset old @ bs @ drop (offset + length bs) old) (disk_files dk)\<rparr>)"

section \<open>The writer\<close>

record logger =
  lg_open :: bool
  lg_path :: string
  lg_record_count :: u32

definition new_logger :: logger where
  "new_logger = \<lparr>lg_open = False, lg_path = [], lg_record_count = 0\<rparr>"

type_synonym logger_state = "logger \<times> disk \<times> clock"

definition logger_close :: "logger \<Rightarrow> disk \<Rightarrow> logger \<times> disk" where
  "logger_close lg dk = (if \<not> lg_open lg then (lg, dk)
     else (lg\<lparr>lg_open := False\<rparr>,
           fwrite_at (lg_path lg) record_count_offset (enc_u32 (lg_record_count lg)) dk))"

definition new_file_header :: "u64 \<Rightarrow> file_header" where
  "new_file_header created = \<lparr>fh_magic = FILE_MAGIC, fh_version = FILE_VERSION, fh_created_us = created,
     fh_record_count = 0, fh_reserved = 0\<rparr>"

definition logger_open :: "string \<Rightarrow> logger_state \<Rightarrow> bool \<times> logger_state" where
  "logger_open path st =
     (case st of (lg, dk, clk) \<Rightarrow>
      case logger_close lg dk of (lg, dk) \<Rightarrow>
      case fopen_wb path dk of (opened, dk) \<Rightarrow>
      if \<not> opened then (False, lg, dk, clk)
      else case wall_us clk of (created, clk) \<Rightarrow>
           case fwrite_end path (enc_file_header (new_file_header created)) dk of (written, dk) \<Rightarrow>
           (written, \<lparr>lg_open = written, lg_path = path, lg_record_count = 0\<rparr>, dk, clk))"

text \<open>\<open>open_with_timestamp\<close>: the calendar fields of the local time come from the environment.\<close>

definition digits :: "nat \<Rightarrow> nat \<Rightarrow> string" where
  "digits w n = map (\<lambda>i. char_of (48 + n div 10 ^ i mod 10)) (rev [0..<w])"

definition timestamp_name :: "nat \<times> nat \<times> nat \<Rightarrow> nat \<times> nat \<times> nat \<Rightarrow> string" where
  "timestamp_name date time = (case date of (year, month, day) \<Rightarrow> case time of (hour, minute, sec) \<Rightarrow>
     ''mde_'' @ digits 4 year @ digits 2 month @ digits 2 day @ ''_'' @ digits 2 hour @ digits 2 minute
       @ digits 2 sec @ ''.bin'')"

definition mkdir :: "string \<Rightarrow> disk \<Rightarrow> disk" where
  "mkdir dir dk = dk\<lparr>disk_made := dir # disk_made dk\<rparr>"

definition open_with_timestamp ::
    "string \<Rightarrow> nat \<times> nat \<times> nat \<Rightarrow> nat \<times> nat \<times> nat \<Rightarrow> logger_state \<Rightarrow> bool \<times> logger_state" where
  "open_with_timestamp output_dir date time st =
     (case st of (lg, dk, clk) \<Rightarrow>
       let dir = (if output_dir \<noteq> [] \<and> last output_dir \<noteq> CHR ''/'' then output_dir @ ''/'' else output_dir)
       in logger_open (dir @ timestamp_name date time) (lg, mkdir output_dir dk, clk))"

definition new_record_header :: "u64 \<Rightarrow> record_header" where
  "new_record_header t = \<lparr>rh_wall_timestamp_us = t, rh_payload_size = of_nat depth_record_size\<rparr>"

definition logger_write :: "depth_update \<Rightarrow> logger_state \<Rightarrow> bool \<times> logger_state" where
  "logger_write u st =
     (case st of (lg, dk, clk) \<Rightarrow>
      if \<not> lg_open lg then (False, lg, dk, clk)
      else case wall_us clk of (t, clk) \<Rightarrow>
           case fwrite_end (lg_path lg) (enc_record_header (new_record_header t)) dk of (written, dk) \<Rightarrow>
           if \<not> written then (False, lg, dk, clk)
           else case fwrite_end (lg_path lg) (enc_depth_record (to_record u)) dk of (written, dk) \<Rightarrow>
                if \<not> written then (False, lg, dk, clk)
                else (True, lg\<lparr>lg_record_count := lg_record_count lg + 1\<rparr>, dk, clk))"

section \<open>The reader\<close>

text \<open>The contents are those of the file when it was opened. A short \<open>fread\<close> consumes the rest.\<close>

record reader =
  rd_open :: bool
  rd_bytes :: "u8 list"
  rd_pos :: nat
  rd_header :: file_header

definition fread :: "nat \<Rightarrow> reader \<Rightarrow> u8 list option \<times> reader" where
  "fread n rd = (let bs = take n (drop (rd_pos rd) (rd_bytes rd))
     in (if length bs = n then Some bs else None, rd\<lparr>rd_pos := rd_pos rd + length bs\<rparr>))"

definition new_reader :: reader where
  "new_reader = \<lparr>rd_open = False, rd_bytes = [], rd_pos = 0, rd_header = new_file_header 0\<rparr>"

definition reader_close :: "reader \<Rightarrow> reader" where
  "reader_close rd = rd\<lparr>rd_open := False\<rparr>"

definition reader_open :: "string \<Rightarrow> disk \<Rightarrow> reader \<Rightarrow> bool \<times> reader" where
  "reader_open path dk rd0 =
     (let rd0 = reader_close rd0
      in case map_of (disk_files dk) path of
        None \<Rightarrow> (False, rd0)
      | Some bs \<Rightarrow>
         (case fread file_header_size (rd0\<lparr>rd_open := True, rd_bytes := bs, rd_pos := 0\<rparr>) of
            (None, rd) \<Rightarrow> (False, reader_close rd)
          | (Some hdr, rd) \<Rightarrow>
             (let rd = rd\<lparr>rd_header := dec_file_header hdr\<rparr>
              in if fh_magic (rd_header rd) \<noteq> FILE_MAGIC then (False, reader_close rd)
                 else if fh_version (rd_header rd) \<noteq> FILE_VERSION then (False, reader_close rd)
                 else (True, rd))))"

definition read_next :: "reader \<Rightarrow> (depth_record \<times> record_header) option \<times> reader" where
  "read_next rd =
     (if \<not> rd_open rd then (None, rd)
      else case fread record_header_size rd of
          (None, rd) \<Rightarrow> (None, rd)
        | (Some hdr, rd) \<Rightarrow>
           (if rh_payload_size (dec_record_header hdr) \<noteq> of_nat depth_record_size then (None, rd)
            else case fread depth_record_size rd of
                (None, rd) \<Rightarrow> (None, rd)
              | (Some body, rd) \<Rightarrow> (Some (dec_depth_record body, dec_record_header hdr), rd)))"

definition rewind :: "reader \<Rightarrow> bool \<times> reader" where
  "rewind rd = (if rd_open rd then (True, rd\<lparr>rd_pos := file_header_size\<rparr>) else (False, rd))"

section \<open>What the writer leaves in the file\<close>

type_synonym entry = "u64 \<times> depth_update"

definition entry_bytes :: "entry \<Rightarrow> u8 list" where
  "entry_bytes e = enc_record_header (new_record_header (fst e)) @ enc_depth_record (to_record (snd e))"

definition entry_size :: nat where "entry_size = 2120"

definition recording :: "file_header \<Rightarrow> entry list \<Rightarrow> u8 list" where
  "recording h es = enc_file_header h @ concat (map entry_bytes es)"

definition wf_entry :: "entry \<Rightarrow> bool" where
  "wf_entry e = wf_update (snd e)"

lemma length_entry: "wf_entry e \<Longrightarrow> length (entry_bytes e) = entry_size"
  by (simp add: entry_bytes_def wf_entry_def rec_hdr.length_enc depth_rec.length_enc wf_to_record entry_size_def)

lemma length_entries: "list_all wf_entry es \<Longrightarrow> length (concat (map entry_bytes es)) = length es * entry_size"
  by (induction es) (simp_all add: length_entry)

lemma file_bytes_simps [simp]:
  "file_bytes path (dk\<lparr>disk_files := put path bs fs\<rparr>) = bs"
  "file_bytes path (dk\<lparr>disk_files := put path bs fs, disk_space := n\<rparr>) = bs"
  by (simp_all add: file_bytes_def)

text \<open>The state while a recording is open: \<open>es\<close> are the entries written so far.\<close>

definition recording_open :: "string \<Rightarrow> u64 \<Rightarrow> entry list \<Rightarrow> logger_state \<Rightarrow> bool" where
  "recording_open path created es st = (case st of (lg, dk, clk) \<Rightarrow>
     lg_open lg \<and> lg_path lg = path \<and> lg_record_count lg = of_nat (length es)
   \<and> file_bytes path dk = recording (new_file_header created) es)"

lemma logger_open_spec:
  assumes "disk_creatable dk (disk_made dk) path" "file_header_size \<le> disk_space dk"
  shows "\<exists>dk'. logger_open path (new_logger, dk, clk)
      = (True, \<lparr>lg_open = True, lg_path = path, lg_record_count = 0\<rparr>, dk', snd (wall_us clk))
    \<and> disk_space dk' = disk_space dk - file_header_size
    \<and> recording_open path (wall_reading clk (wall_count clk)) []
        (\<lparr>lg_open = True, lg_path = path, lg_record_count = 0\<rparr>, dk', snd (wall_us clk))"
  using assms
  by (simp add: logger_open_def logger_close_def new_logger_def fopen_wb_def wall_us_def fwrite_end_def
      recording_open_def recording_def file_hdr.length_enc file_header_size_def)

lemma logger_write_spec:
  assumes "recording_open path created es (lg, dk, clk)" "wf_update u" "entry_size \<le> disk_space dk"
  defines "e \<equiv> (wall_reading clk (wall_count clk), u)"
  shows "\<exists>lg' dk'. logger_write u (lg, dk, clk) = (True, lg', dk', snd (wall_us clk))
    \<and> disk_space dk' = disk_space dk - entry_size
    \<and> recording_open path created (es @ [e]) (lg', dk', snd (wall_us clk))"
proof -
  have l: "length (enc_record_header h) = 12" "length (enc_depth_record (to_record u)) = 2108" for h
    using assms(2) by (simp_all add: rec_hdr.length_enc depth_rec.length_enc wf_to_record)
  show ?thesis
    using assms(1,3)
    by (simp add: logger_write_def recording_open_def wall_us_def fwrite_end_def l entry_size_def
        recording_def entry_bytes_def e_def)
qed

text \<open>A session: the updates written one after the other.\<close>

definition write_step :: "depth_update \<Rightarrow> logger_state \<Rightarrow> logger_state" where
  "write_step u st = snd (logger_write u st)"

definition write_all :: "depth_update list \<Rightarrow> logger_state \<Rightarrow> logger_state" where
  "write_all us st = fold write_step us st"

definition stamped :: "clock \<Rightarrow> depth_update list \<Rightarrow> entry list" where
  "stamped clk us = map (\<lambda>(i, u). (wall_reading clk i, u)) (enumerate (wall_count clk) us)"

lemma stamped_Cons:
  "stamped clk (u # us) = (wall_reading clk (wall_count clk), u) # stamped (snd (wall_us clk)) us"
  by (simp add: stamped_def wall_us_def)

lemma stamped_Nil [simp]: "stamped clk [] = []"
  by (simp add: stamped_def)

lemma write_all_spec:
  assumes "recording_open path created es (lg, dk, clk)" "list_all wf_update us"
    and "length us * entry_size \<le> disk_space dk"
  shows "recording_open path created (es @ stamped clk us) (write_all us (lg, dk, clk))"
  using assms
proof (induction us arbitrary: es lg dk clk)
  case (Cons u us)
  obtain lg' dk' where w: "logger_write u (lg, dk, clk) = (True, lg', dk', snd (wall_us clk))"
    "disk_space dk' = disk_space dk - entry_size"
    "recording_open path created (es @ [(wall_reading clk (wall_count clk), u)]) (lg', dk', snd (wall_us clk))"
    using logger_write_spec [OF Cons.prems(1), of u] Cons.prems by auto
  have "length us * entry_size \<le> disk_space dk'" using Cons.prems(3) w(2) by simp
  then show ?case using Cons.IH [OF w(3)] Cons.prems(2) w(1) by (simp add: write_all_def write_step_def stamped_Cons)
qed (simp add: write_all_def)

text \<open>Closing rewrites the record count in place.\<close>

lemma header_with_count:
  "take 16 (enc_file_header h @ rest) @ enc_u32 n @ drop 20 (enc_file_header h @ rest)
     = enc_file_header (h\<lparr>fh_record_count := n\<rparr>) @ rest"
  by (simp add: enc_file_header_def u32.length_enc u64.length_enc)

lemma logger_close_spec:
  assumes "recording_open path created es (lg, dk, clk)"
  shows "file_bytes path (snd (logger_close lg dk)) =
      recording ((new_file_header created)\<lparr>fh_record_count := of_nat (length es)\<rparr>) es
    \<and> map_of (disk_files (snd (logger_close lg dk))) path = Some (file_bytes path (snd (logger_close lg dk)))
    \<and> \<not> lg_open (fst (logger_close lg dk))"
  using assms
  by (simp add: recording_open_def logger_close_def fwrite_at_def Let_def recording_def
      record_count_offset_def u32.length_enc header_with_count
      del: take_append drop_append)

section \<open>What the reader makes of a file\<close>

fun read_records :: "nat \<Rightarrow> reader \<Rightarrow> (depth_record \<times> record_header) list" where
  "read_records 0 rd = []"
| "read_records (Suc fuel) rd =
     (case read_next rd of (None, rd) \<Rightarrow> [] | (Some x, rd) \<Rightarrow> x # read_records fuel rd)"

definition read_back :: "entry \<Rightarrow> depth_record \<times> record_header" where
  "read_back e = (to_record (snd e), new_record_header (fst e))"

lemma fread_hit: "drop (rd_pos rd) (rd_bytes rd) = bs @ rest \<Longrightarrow> length bs = n \<Longrightarrow>
    fread n rd = (Some bs, rd\<lparr>rd_pos := rd_pos rd + n\<rparr>)"
  by (simp add: fread_def)

lemma fread_miss: "length (rd_bytes rd) - rd_pos rd < n \<Longrightarrow> fst (fread n rd) = None"
  by (simp add: fread_def)

lemma drop_rest: "drop i bs = xs @ rest \<Longrightarrow> drop (i + length xs) bs = rest"
  by (metis add.commute append_eq_conv_conj drop_drop)

lemma read_next_hit:
  assumes "rd_open rd" "drop (rd_pos rd) (rd_bytes rd) = entry_bytes e @ rest" "wf_entry e"
  shows "read_next rd = (Some (read_back e), rd\<lparr>rd_pos := rd_pos rd + entry_size\<rparr>)
    \<and> drop (rd_pos rd + entry_size) (rd_bytes rd) = rest"
proof
  let ?h = "enc_record_header (new_record_header (fst e))" and ?b = "enc_depth_record (to_record (snd e))"
  have wf: "wf_record (to_record (snd e))" using assms(3) by (simp add: wf_entry_def wf_to_record)
  have l: "length ?h = 12" "length ?b = 2108" using wf by (simp_all add: rec_hdr.length_enc depth_rec.length_enc)
  have d: "drop (rd_pos rd) (rd_bytes rd) = ?h @ ?b @ rest" using assms(2) by (simp add: entry_bytes_def)
  note d2 = drop_rest [OF d, unfolded l]
  have f1: "fread record_header_size rd = (Some ?h, rd\<lparr>rd_pos := rd_pos rd + 12\<rparr>)"
    using fread_hit [OF d l(1)] by (simp add: record_header_size_def)
  have "drop (rd_pos (rd\<lparr>rd_pos := rd_pos rd + 12\<rparr>)) (rd_bytes (rd\<lparr>rd_pos := rd_pos rd + 12\<rparr>)) = ?b @ rest"
    using d2 by simp
  from fread_hit [OF this l(2)]
  have f2: "fread depth_record_size (rd\<lparr>rd_pos := rd_pos rd + 12\<rparr>) = (Some ?b, rd\<lparr>rd_pos := rd_pos rd + entry_size\<rparr>)"
    by (simp add: depth_record_size_def entry_size_def)
  show "read_next rd = (Some (read_back e), rd\<lparr>rd_pos := rd_pos rd + entry_size\<rparr>)"
    using assms(1) wf by (simp add: read_next_def f1 f2 rec_hdr.dec_enc depth_rec.dec_enc new_record_header_def read_back_def)
  show "drop (rd_pos rd + entry_size) (rd_bytes rd) = rest"
    using drop_rest [OF assms(2)] length_entry [OF assms(3)] by simp
qed

lemma read_next_miss:
  assumes "length (rd_bytes rd) - rd_pos rd < entry_size"
  shows "fst (read_next rd) = None"
proof (cases "fread record_header_size rd")
  case (Pair r rd')
  show ?thesis
  proof (cases r)
    case None
    with Pair show ?thesis by (simp add: read_next_def)
  next
    case (Some hdr)
    then have "rd' = rd\<lparr>rd_pos := rd_pos rd + record_header_size\<rparr>" "length hdr = record_header_size"
      using Pair by (auto simp: fread_def Let_def split: if_splits)
    then have "fst (fread depth_record_size rd') = None"
      using assms by (intro fread_miss) (simp add: entry_size_def record_header_size_def depth_record_size_def)
    with Pair Some show ?thesis by (auto simp: read_next_def split: prod.split option.split)
  qed
qed

lemma read_records_prefix:
  assumes "rd_open rd" "drop (rd_pos rd) (rd_bytes rd) = concat (map entry_bytes es) @ rest"
    and "list_all wf_entry es" "length rest < entry_size" "length es < fuel"
  shows "read_records fuel rd = map read_back es"
  using assms
proof (induction es arbitrary: rd fuel)
  case Nil
  then have "length (rd_bytes rd) - rd_pos rd < entry_size" by (metis append_Nil concat.simps(1) length_drop list.simps(8))
  then have "fst (read_next rd) = None" by (rule read_next_miss)
  moreover obtain n where "fuel = Suc n" using Nil by (cases fuel) auto
  ultimately show ?case by (auto split: prod.split)
next
  case (Cons e es)
  obtain n where n: "fuel = Suc n" using Cons.prems(5) by (cases fuel) auto
  have hit: "read_next rd = (Some (read_back e), rd\<lparr>rd_pos := rd_pos rd + entry_size\<rparr>)"
    "drop (rd_pos rd + entry_size) (rd_bytes rd) = concat (map entry_bytes es) @ rest"
    using read_next_hit [OF Cons.prems(1), of e "concat (map entry_bytes es) @ rest"] Cons.prems by simp_all
  have "read_records n (rd\<lparr>rd_pos := rd_pos rd + entry_size\<rparr>) = map read_back es"
    using Cons.prems hit(2) n by (intro Cons.IH) simp_all
  then show ?case by (simp add: n hit)
qed

section \<open>Recording and reading back\<close>

text \<open>All records of an open reader; the fuel exceeds the number of records the bytes can hold.\<close>

definition read_all :: "reader \<Rightarrow> (depth_record \<times> record_header) list" where
  "read_all rd = read_records (Suc (length (rd_bytes rd))) rd"

definition valid_header :: "u8 list \<Rightarrow> bool" where
  "valid_header bs \<longleftrightarrow> file_header_size \<le> length bs
     \<and> fh_magic (dec_file_header (take file_header_size bs)) = FILE_MAGIC
     \<and> fh_version (dec_file_header (take file_header_size bs)) = FILE_VERSION"

lemma reader_open_Some:
  assumes "map_of (disk_files dk) path = Some bs" "valid_header bs"
  shows "reader_open path dk rd0 = (True, \<lparr>rd_open = True, rd_bytes = bs, rd_pos = file_header_size,
    rd_header = dec_file_header (take file_header_size bs)\<rparr>)"
  using assms by (simp add: reader_open_def valid_header_def fread_def Let_def min_def file_header_size_def reader_close_def)

text \<open>A file opens for reading exactly when it exists, is long enough for the header, and the
  header carries the magic number and the version; a file that does not open leaves the
  reader closed.\<close>

theorem reader_open_iff:
  "fst (reader_open path dk rd0) = (case map_of (disk_files dk) path of None \<Rightarrow> False | Some bs \<Rightarrow> valid_header bs)
    \<and> rd_open (snd (reader_open path dk rd0)) = fst (reader_open path dk rd0)"
proof (cases "map_of (disk_files dk) path")
  case None
  then show ?thesis by (simp add: reader_open_def reader_close_def Let_def)
next
  case (Some bs)
  show ?thesis
  proof (cases "file_header_size \<le> length bs")
    case True
    then show ?thesis using Some by (simp add: reader_open_def reader_close_def fread_def Let_def valid_header_def)
  next
    case False
    then show ?thesis using Some by (simp add: reader_open_def reader_close_def fread_def Let_def valid_header_def)
  qed
qed

lemma recording_take_header:
  "take file_header_size (enc_file_header h @ rest) = enc_file_header h"
  by (simp add: file_hdr.length_enc file_header_size_def)

lemma valid_recording:
  assumes "fh_magic h = FILE_MAGIC" "fh_version h = FILE_VERSION"
  shows "valid_header (enc_file_header h @ rest)"
  using assms by (simp add: valid_header_def recording_take_header file_hdr.dec_enc file_hdr.length_enc file_header_size_def)

lemma read_all_recording:
  assumes "map_of (disk_files dk) path = Some (recording h es @ rest)"
    and "fh_magic h = FILE_MAGIC" "fh_version h = FILE_VERSION"
    and "list_all wf_entry es" "length rest < entry_size"
  shows "\<exists>rd. reader_open path dk rd0 = (True, rd) \<and> rd_header rd = h \<and> read_all rd = map read_back es"
proof -
  let ?bs = "enc_file_header h @ concat (map entry_bytes es) @ rest"
  have bs: "map_of (disk_files dk) path = Some ?bs" using assms(1) by (simp add: recording_def)
  define rd where "rd = \<lparr>rd_open = True, rd_bytes = ?bs, rd_pos = file_header_size,
    rd_header = dec_file_header (take file_header_size ?bs)\<rparr>"
  have "reader_open path dk rd0 = (True, rd)"
    unfolding rd_def by (rule reader_open_Some [OF bs valid_recording [OF assms(2,3)]])
  moreover have "rd_header rd = h" by (simp add: rd_def recording_take_header file_hdr.dec_enc del: take_append)
  moreover have "read_all rd = map read_back es"
    unfolding read_all_def
  proof (rule read_records_prefix)
    show "drop (rd_pos rd) (rd_bytes rd) = concat (map entry_bytes es) @ rest"
      by (simp add: rd_def file_hdr.length_enc file_header_size_def)
    show "length es < Suc (length (rd_bytes rd))"
      using length_entries [OF assms(4)] by (simp add: rd_def entry_size_def)
  qed (use assms in \<open>simp_all add: rd_def\<close>)
  ultimately show ?thesis by blast
qed


lemma take_entries:
  assumes "list_all wf_entry es"
  obtains rest where "take n (concat (map entry_bytes es)) = concat (map entry_bytes (take (n div entry_size) es)) @ rest"
    "length rest < entry_size"
  using assms
proof (induction es arbitrary: n thesis)
  case Nil
  then show ?case by (simp add: entry_size_def)
next
  case (Cons e es)
  have l: "length (entry_bytes e) = entry_size" using Cons.prems(2) by (simp add: length_entry)
  show ?case
  proof (cases "n < entry_size")
    case True
    then show ?thesis using Cons.prems(1) [of "take n (entry_bytes e)"] l by simp
  next
    case False
    then have q: "n div entry_size = Suc ((n - entry_size) div entry_size)"
      by (simp add: entry_size_def le_div_geq)
    obtain rest where "take (n - entry_size) (concat (map entry_bytes es)) =
        concat (map entry_bytes (take ((n - entry_size) div entry_size) es)) @ rest" "length rest < entry_size"
      using Cons.IH Cons.prems(2) by auto
    then show ?thesis using Cons.prems(1) [of rest] False l by (simp add: q)
  qed
qed

text \<open>C21: a recording cut at any byte after the header, by a crash or by a full disk, still opens,
  and reading it yields exactly the records that are whole, in order.\<close>

theorem cut_recording:
  assumes "map_of (disk_files dk) path = Some (take n (recording h es))" "file_header_size \<le> n"
    and "fh_magic h = FILE_MAGIC" "fh_version h = FILE_VERSION" "list_all wf_entry es"
  shows "\<exists>rd. reader_open path dk new_reader = (True, rd)
    \<and> read_all rd = map read_back (take ((n - file_header_size) div entry_size) es)"
proof -
  let ?k = "(n - file_header_size) div entry_size"
  obtain rest where r: "take (n - file_header_size) (concat (map entry_bytes es)) = concat (map entry_bytes (take ?k es)) @ rest"
    "length rest < entry_size"
    using take_entries [OF assms(5)] by blast
  have "take n (recording h es) = recording h (take ?k es) @ rest"
    using assms(2) r(1) by (simp add: recording_def file_hdr.length_enc file_header_size_def)
  moreover have "list_all wf_entry (take ?k es)" using assms(5) by (auto simp: list_all_iff dest: in_set_takeD)
  ultimately show ?thesis
    using read_all_recording [of dk path h "take ?k es" rest new_reader] assms r(2) by auto
qed

text \<open>The reader does not check the level counts. A record of the right size whose bid count
  exceeds the array is read and converted without complaint, and applying it to a book
  reads out of bounds.\<close>

theorem unchecked_counts:
  assumes "wf_record r" "CHR 0x00 \<in> set (dr_symbol r)" "MAX_LEVELS < unat (dr_bid_count r)"
  shows "\<exists>u. from_record (dec_depth_record (enc_depth_record r)) = Inr u \<and> \<not> ok (apply_update u b)"
proof -
  let ?u = "new_update\<lparr>du_event_time_ms := dr_event_time_ms r, du_first_update_id := dr_first_update_id r,
       du_last_update_id := dr_last_update_id r, du_symbol := takeWhile (\<lambda>c. c \<noteq> CHR 0x00) (dr_symbol r),
       du_bid_count := dr_bid_count r, du_ask_count := dr_ask_count r,
       du_bids := dr_bids r, du_asks := dr_asks r\<rparr>"
  have "from_record r = Inr ?u" using assms(2) by (simp add: from_record_def c_string_def)
  moreover have "\<not> ok (apply_levels greater_price (dr_bids r) 0 (unat (dr_bid_count r)) (ob_bids b))"
    using assms(1,3) by (simp add: apply_levels_ok_iff wf_record_def)
  then have "\<not> ok (apply_update ?u b)"
    by (auto simp: apply_update_def bind_res_def ok_def split: sum.splits)
  ultimately show ?thesis using assms(1) by (simp add: depth_rec.dec_enc)
qed

section \<open>Concrete recordings\<close>

lemma wf_sample: "wf_update sample_update"
  by code_simp

theorem record_roundtrip_witness:
  "from_record (dec_depth_record (enc_depth_record (to_record sample_update))) = Inr (stored sample_update)"
  using record_roundtrip [OF wf_sample] by blast

definition sample_disk :: disk where
  "sample_disk = \<lparr>disk_files = [], disk_space = 10000, disk_made = [], disk_creatable = (\<lambda>made path. True)\<rparr>"


theorem cut_recording_witness:
  "\<exists>rd. reader_open ''a.bin'' (sample_disk\<lparr>disk_files :=
      [(''a.bin'', take 3000 (recording (new_file_header 7) [(8, sample_update), (9, sample_update)]))]\<rparr>) new_reader = (True, rd)
    \<and> read_all rd = [read_back (8, sample_update)]"
proof -
  let ?es = "[(8, sample_update), (9, sample_update)]"
  let ?dk = "sample_disk\<lparr>disk_files := [(''a.bin'', take 3000 (recording (new_file_header 7) ?es))]\<rparr>"
  have "map_of (disk_files ?dk) ''a.bin'' = Some (take 3000 (recording (new_file_header 7) ?es))"
    "file_header_size \<le> 3000" "fh_magic (new_file_header 7) = FILE_MAGIC"
    "fh_version (new_file_header 7) = FILE_VERSION" "list_all wf_entry ?es"
    by (simp_all add: new_file_header_def wf_entry_def wf_sample file_header_size_def)
  from cut_recording [OF this] show ?thesis by (simp add: file_header_size_def entry_size_def)
qed

definition bad_record :: depth_record where
  "bad_record = (to_record sample_update)\<lparr>dr_bid_count := 65\<rparr>"

theorem unchecked_counts_witness:
  "\<exists>u. from_record (dec_depth_record (enc_depth_record bad_record)) = Inr u \<and> \<not> ok (apply_update u (new_book ''BTC''))"
proof -
  have "wf_record bad_record" "CHR 0x00 \<in> set (dr_symbol bad_record)" "MAX_LEVELS < unat (dr_bid_count bad_record)"
    by code_simp+
  then show ?thesis by (rule unchecked_counts)
qed

end
