(* ===== verification/Processing_Thread.thy ===== *)
theory Processing_Thread
  imports Spsc_Queue Signal_Detector Disk_Log
begin

text \<open>
  \<open>src/engine/processing_thread.h\<close> and \<open>processing_thread.cpp\<close>: the consumer of the message
  queue. A message is recorded, applied to the book of its symbol, aggregated, checked
  against the signal conditions, and the result published as a snapshot. The mutex and the
  atomics guard single reads and writes of whole values by other threads; the only writer
  of the state is this thread, which the model follows. The lemmas reduce the engine to
  one independent state per symbol, and account for every message, signal and record.
\<close>

section \<open>State\<close>

record symbol_state =
  st_book :: order_book
  st_aggregator :: aggregator
  st_trade_aggregator :: trade_aggregator

text \<open>The default arguments of the two aggregators.\<close>

definition default_aggregator :: aggregator where
  "default_aggregator = new_aggregator 5 20"

definition default_trade_aggregator :: trade_aggregator where
  "default_trade_aggregator = new_trade_aggregator 1000 20"

definition new_symbol_state :: "string \<Rightarrow> symbol_state" where
  "new_symbol_state name = \<lparr>st_book = new_book name, st_aggregator = default_aggregator,
     st_trade_aggregator = default_trade_aggregator\<rparr>"

record symbol_snapshot =
  sn_symbol :: string
  sn_bids :: side
  sn_asks :: side
  sn_aggregation :: agg_snapshot
  sn_best_bid :: double
  sn_best_ask :: double
  sn_spread :: double
  sn_mid_price :: double
  sn_update_count :: u64

record engine_snapshot =
  es_symbols :: "symbol_snapshot list"
  es_recent_signals :: "signal list"
  es_processed_count :: u64
  es_trades_processed :: u64
  es_signals_fired :: u64
  es_last_parse_us :: int
  es_last_queue_us :: int
  es_last_total_us :: int

definition empty_engine_snapshot :: engine_snapshot where
  "empty_engine_snapshot = \<lparr>es_symbols = [], es_recent_signals = [], es_processed_count = 0,
     es_trades_processed = 0, es_signals_fired = 0, es_last_parse_us = 0, es_last_queue_us = 0,
     es_last_total_us = 0\<rparr>"

text \<open>What the signal callback changes: the signals kept for the dashboard and the counter.\<close>

definition MAX_RECENT_SIGNALS :: nat where "MAX_RECENT_SIGNALS = 50"

record signal_sink =
  sk_recent_signals :: "signal list"
  sk_signals_fired :: u64

definition on_signal :: "signal \<Rightarrow> signal_sink \<Rightarrow> signal_sink" where
  "on_signal s sk =
     (let recent = s # sk_recent_signals sk
      in sk\<lparr>sk_signals_fired := sk_signals_fired sk + 1,
            sk_recent_signals := (if MAX_RECENT_SIGNALS < length recent then butlast recent else recent)\<rparr>)"

record engine =
  en_states :: "(string \<times> symbol_state) list"
  en_detector :: detector
  en_sink :: signal_sink
  en_processed :: u64
  en_trades_processed :: u64
  en_last_parse_us :: int
  en_last_queue_us :: int
  en_last_total_us :: int
  en_snapshot :: engine_snapshot
  en_recorder :: "(logger \<times> disk) option"

definition new_engine :: "condition list \<Rightarrow> (logger \<times> disk) option \<Rightarrow> engine" where
  "new_engine conditions recorder = \<lparr>en_states = [], en_detector = fold add_condition conditions new_detector,
     en_sink = \<lparr>sk_recent_signals = [], sk_signals_fired = 0\<rparr>, en_processed = 0, en_trades_processed = 0,
     en_last_parse_us = 0, en_last_queue_us = 0, en_last_total_us = 0,
     en_snapshot = empty_engine_snapshot, en_recorder = recorder\<rparr>"

type_synonym world = "engine \<times> clock"

section \<open>Handlers\<close>

definition get_or_create_state :: "string \<Rightarrow> engine \<Rightarrow> symbol_state \<times> engine" where
  "get_or_create_state name e =
     (case map_of (en_states e) name of
        Some st \<Rightarrow> (st, e)
      | None \<Rightarrow> (new_symbol_state name, e\<lparr>en_states := put name (new_symbol_state name) (en_states e)\<rparr>))"

definition record_depth :: "depth_update \<Rightarrow> world \<Rightarrow> world" where
  "record_depth u w = (case en_recorder (fst w) of
      None \<Rightarrow> w
    | Some (lg, dk) \<Rightarrow> (case logger_write u (lg, dk, snd w) of
        (written, lg, dk, clk) \<Rightarrow> ((fst w)\<lparr>en_recorder := Some (lg, dk)\<rparr>, clk)))"

definition store_latencies :: "depth_update \<Rightarrow> engine \<Rightarrow> engine" where
  "store_latencies u e = e\<lparr>en_last_parse_us := elapsed_us (du_received u) (du_parsed u),
     en_last_queue_us := elapsed_us (du_parsed u) (du_dequeued u),
     en_last_total_us := elapsed_us (du_received u) (du_dequeued u)\<rparr>"

definition trade_ptr :: "symbol_state \<Rightarrow> ta_snapshot option" where
  "trade_ptr st = (let snap = ta_snap (st_trade_aggregator st)
     in if 0 < ts_trade_count snap then Some snap else None)"

definition detect :: "string \<Rightarrow> symbol_state \<Rightarrow> world \<Rightarrow> world" where
  "detect name st w =
     (case evaluate (Some on_signal) name (st_book st) (ag_snapshot (st_aggregator st)) (trade_ptr st)
             ((en_detector (fst w), en_sink (fst w)), snd w) of
        ((d, sk), clk) \<Rightarrow> ((fst w)\<lparr>en_detector := d, en_sink := sk\<rparr>, clk))"

definition depth_state :: "depth_update \<Rightarrow> symbol_state \<Rightarrow> symbol_state res" where
  "depth_state u st = bind_res (apply_update u (st_book st)) (\<lambda>book.
     Inr (st\<lparr>st_book := book, st_aggregator := agg_update book (st_aggregator st)\<rparr>))"

definition process_depth :: "depth_update \<Rightarrow> world \<Rightarrow> world res" where
  "process_depth u w =
     (case record_depth u w of (e, clk) \<Rightarrow>
      case get_or_create_state (du_symbol u) (store_latencies u e) of (st, e) \<Rightarrow>
      bind_res (depth_state u st) (\<lambda>st.
      Inr (detect (du_symbol u) st (e\<lparr>en_states := put (du_symbol u) st (en_states e)\<rparr>, clk))))"

definition trade_state :: "trade \<Rightarrow> symbol_state \<Rightarrow> symbol_state res" where
  "trade_state t st = bind_res (ta_update t (st_trade_aggregator st)) (\<lambda>ta.
     Inr (st\<lparr>st_trade_aggregator := ta\<rparr>))"

definition process_trade :: "trade \<Rightarrow> world \<Rightarrow> world res" where
  "process_trade t w =
     (case get_or_create_state (tr_symbol t)
             ((fst w)\<lparr>en_trades_processed := en_trades_processed (fst w) + 1\<rparr>) of (st, e) \<Rightarrow>
      bind_res (trade_state t st) (\<lambda>st.
      Inr (e\<lparr>en_states := put (tr_symbol t) st (en_states e)\<rparr>, snd w)))"

definition symbol_snapshot_of :: "string \<times> symbol_state \<Rightarrow> symbol_snapshot" where
  "symbol_snapshot_of p = (case p of (name, st) \<Rightarrow> \<lparr>sn_symbol = name, sn_bids = ob_bids (st_book st),
     sn_asks = ob_asks (st_book st), sn_aggregation = ag_snapshot (st_aggregator st),
     sn_best_bid = best_bid_price (st_book st), sn_best_ask = best_ask_price (st_book st),
     sn_spread = spread (st_book st), sn_mid_price = mid_price (st_book st),
     sn_update_count = ob_update_count (st_book st)\<rparr>)"

definition snapshot_of :: "engine \<Rightarrow> engine_snapshot" where
  "snapshot_of e = \<lparr>es_symbols = map symbol_snapshot_of (en_states e),
     es_recent_signals = sk_recent_signals (en_sink e),
     es_processed_count = en_processed e, es_trades_processed = en_trades_processed e,
     es_signals_fired = sk_signals_fired (en_sink e), es_last_parse_us = en_last_parse_us e,
     es_last_queue_us = en_last_queue_us e, es_last_total_us = en_last_total_us e\<rparr>"

definition update_snapshot :: "engine \<Rightarrow> engine" where
  "update_snapshot e = e\<lparr>en_snapshot := snapshot_of e\<rparr>"

definition process :: "queue_message \<Rightarrow> world \<Rightarrow> world res" where
  "process m w =
     (let w = ((fst w)\<lparr>en_processed := en_processed (fst w) + 1\<rparr>, snd w)
      in bind_res (case msg_type m of TRADE \<Rightarrow> process_trade (msg_trade m) w
                   | DEPTH_UPDATE \<Rightarrow> process_depth (msg_depth m) w) (\<lambda>w.
         Inr (update_snapshot (fst w), snd w)))"

definition get_order_book :: "string \<Rightarrow> engine \<Rightarrow> order_book option" where
  "get_order_book name e = map_option st_book (map_of (en_states e) name)"

definition get_aggregator :: "string \<Rightarrow> engine \<Rightarrow> agg_snapshot option" where
  "get_aggregator name e = map_option (\<lambda>st. ag_snapshot (st_aggregator st)) (map_of (en_states e) name)"

definition take_snapshot :: "engine \<Rightarrow> engine_snapshot" where
  "take_snapshot e = en_snapshot e"

section \<open>The loop\<close>

text \<open>A message that was popped is stamped with the steady clock, then processed.\<close>

definition stamp_dequeued :: "int \<Rightarrow> queue_message \<Rightarrow> queue_message" where
  "stamp_dequeued t m = (case msg_type m of
      TRADE \<Rightarrow> m\<lparr>msg_trade := (msg_trade m)\<lparr>tr_dequeued := t\<rparr>\<rparr>
    | DEPTH_UPDATE \<Rightarrow> m\<lparr>msg_depth := (msg_depth m)\<lparr>du_dequeued := t\<rparr>\<rparr>)"

definition handle :: "queue_message \<Rightarrow> world \<Rightarrow> world res" where
  "handle m w = (case now (snd w) of (t, clk) \<Rightarrow> process (stamp_dequeued t m) (fst w, clk))"

text \<open>
  One iteration of \<open>while (running)\<close> processes one message or yields; the loop after it drains
  the queue (\<open>None\<close> when the fuel runs out). Both are stated for any queue and any handler:
  the thread runs them with the ring and \<open>handle\<close>.
\<close>

definition run_iteration ::
    "('q \<Rightarrow> ('m \<times> 'q) option) \<Rightarrow> ('m \<Rightarrow> 'w \<Rightarrow> 'w res) \<Rightarrow> 'q \<Rightarrow> 'w \<Rightarrow> ('q \<times> 'w) res" where
  "run_iteration pop hdl q w = (case pop q of
      None \<Rightarrow> Inr (q, w)
    | Some (m, q) \<Rightarrow> bind_res (hdl m w) (\<lambda>w. Inr (q, w)))"

fun drain ::
    "('q \<Rightarrow> ('m \<times> 'q) option) \<Rightarrow> ('m \<Rightarrow> 'w \<Rightarrow> 'w res) \<Rightarrow> nat \<Rightarrow> 'q \<Rightarrow> 'w \<Rightarrow> ('q \<times> 'w) res option" where
  "drain pop hdl 0 q w = None"
| "drain pop hdl (Suc fuel) q w = (case pop q of
      None \<Rightarrow> Some (Inr (q, w))
    | Some (m, q) \<Rightarrow> (case hdl m w of
        Inl f \<Rightarrow> Some (Inl f)
      | Inr w \<Rightarrow> drain pop hdl fuel q w))"

definition QUEUE_CAPACITY :: u64 where "QUEUE_CAPACITY = 8192"

section \<open>One state per symbol\<close>

definition name_of :: "queue_message \<Rightarrow> string" where
  "name_of m = (case msg_type m of TRADE \<Rightarrow> tr_symbol (msg_trade m) | DEPTH_UPDATE \<Rightarrow> du_symbol (msg_depth m))"

definition state_step :: "queue_message \<Rightarrow> symbol_state \<Rightarrow> symbol_state res" where
  "state_step m st = (case msg_type m of TRADE \<Rightarrow> trade_state (msg_trade m) st
     | DEPTH_UPDATE \<Rightarrow> depth_state (msg_depth m) st)"

definition state_of :: "string \<Rightarrow> engine \<Rightarrow> symbol_state" where
  "state_of name e = (case map_of (en_states e) name of None \<Rightarrow> new_symbol_state name | Some st \<Rightarrow> st)"

lemma record_depth_fields:
  "en_states (fst (record_depth u w)) = en_states (fst w)"
  "en_detector (fst (record_depth u w)) = en_detector (fst w)" "en_sink (fst (record_depth u w)) = en_sink (fst w)"
  "en_processed (fst (record_depth u w)) = en_processed (fst w)"
  "en_trades_processed (fst (record_depth u w)) = en_trades_processed (fst w)"
  by (simp_all add: record_depth_def split: option.split prod.split)

lemma detect_fields:
  "en_states (fst (detect name st w)) = en_states (fst w)"
  "en_processed (fst (detect name st w)) = en_processed (fst w)"
  "en_trades_processed (fst (detect name st w)) = en_trades_processed (fst w)"
  "en_recorder (fst (detect name st w)) = en_recorder (fst w)"
  by (simp_all add: detect_def split: prod.split)

lemma update_snapshot_fields [simp]:
  "en_states (update_snapshot e) = en_states e" "en_detector (update_snapshot e) = en_detector e"
  "en_sink (update_snapshot e) = en_sink e" "en_processed (update_snapshot e) = en_processed e"
  "en_trades_processed (update_snapshot e) = en_trades_processed e"
  "en_recorder (update_snapshot e) = en_recorder e"
  by (simp_all add: update_snapshot_def)

lemmas world_fields = record_depth_fields detect_fields update_snapshot_fields

text \<open>What one message does, or the fault it meets.\<close>

lemma process_depth_eq:
  "process_depth u w =
     (let e = store_latencies u (fst (record_depth u w))
      in bind_res (depth_state u (state_of (du_symbol u) (fst w))) (\<lambda>st.
         Inr (detect (du_symbol u) st (e\<lparr>en_states := put (du_symbol u) st (en_states (fst w))\<rparr>, snd (record_depth u w)))))"
proof -
  obtain e clk where r: "record_depth u w = (e, clk)" by fastforce
  have "en_states e = en_states (fst w)" using record_depth_fields(1) [of u w] r by simp
  then show ?thesis
    by (simp add: process_depth_def r Let_def get_or_create_state_def state_of_def store_latencies_def split: option.split)
qed

lemma process_trade_eq:
  "process_trade t w =
     bind_res (trade_state t (state_of (tr_symbol t) (fst w))) (\<lambda>st.
       Inr ((fst w)\<lparr>en_trades_processed := en_trades_processed (fst w) + 1,
                   en_states := put (tr_symbol t) st (en_states (fst w))\<rparr>, snd w))"
  by (simp add: process_trade_def get_or_create_state_def state_of_def split: option.split)

definition is_depth :: "queue_message \<Rightarrow> bool" where
  "is_depth m = (msg_type m = DEPTH_UPDATE)"

text \<open>The world after one message, given the new state of its symbol.\<close>

definition after :: "queue_message \<Rightarrow> symbol_state \<Rightarrow> world \<Rightarrow> world" where
  "after m st w =
     (case msg_type m of
        TRADE \<Rightarrow> (update_snapshot ((fst w)\<lparr>en_processed := en_processed (fst w) + 1,
                     en_trades_processed := en_trades_processed (fst w) + 1,
                     en_states := put (name_of m) st (en_states (fst w))\<rparr>), snd w)
      | DEPTH_UPDATE \<Rightarrow>
          (let u = msg_depth m;
               w0 = record_depth u ((fst w)\<lparr>en_processed := en_processed (fst w) + 1\<rparr>, snd w);
               w1 = detect (du_symbol u) st ((store_latencies u (fst w0))\<lparr>en_states := put (du_symbol u) st (en_states (fst w))\<rparr>, snd w0)
           in (update_snapshot (fst w1), snd w1)))"

lemma process_eq:
  "process m w = bind_res (state_step m (state_of (name_of m) (fst w))) (\<lambda>st. Inr (after m st w))"
  by (cases "msg_type m")
    (simp_all add: process_def Let_def process_depth_eq process_trade_eq state_step_def name_of_def
      state_of_def after_def bind_res_assoc)

lemma after_fields:
  "en_states (fst (after m st w)) = put (name_of m) st (en_states (fst w))"
  "en_processed (fst (after m st w)) = en_processed (fst w) + 1"
  "en_trades_processed (fst (after m st w)) = en_trades_processed (fst w) + (if is_depth m then 0 else 1)"
  "en_snapshot (fst (after m st w)) = snapshot_of (fst (after m st w))"
  by (cases "msg_type m"; simp add: after_def Let_def world_fields store_latencies_def name_of_def is_depth_def
      update_snapshot_def snapshot_of_def)+

text \<open>The same with the message stamped by the thread.\<close>

definition turn :: "queue_message \<Rightarrow> symbol_state \<Rightarrow> world \<Rightarrow> world" where
  "turn m st w = after (stamp_dequeued (fst (now (snd w))) m) st (fst w, snd (now (snd w)))"

lemma stamp_transparent [simp]:
  "name_of (stamp_dequeued t m) = name_of m" "is_depth (stamp_dequeued t m) = is_depth m"
  "state_step (stamp_dequeued t m) st = state_step m st"
  by (cases "msg_type m"; simp add: stamp_dequeued_def name_of_def is_depth_def state_step_def depth_state_def
      apply_update_def trade_state_def ta_update_def push_trade_def entry_of_def)+

lemma handle_eq:
  "handle m w = bind_res (state_step m (state_of (name_of m) (fst w))) (\<lambda>st. Inr (turn m st w))"
  by (simp add: handle_def process_eq turn_def split: prod.split)

lemma turn_fields:
  "en_states (fst (turn m st w)) = put (name_of m) st (en_states (fst w))"
  "en_processed (fst (turn m st w)) = en_processed (fst w) + 1"
  "en_trades_processed (fst (turn m st w)) = en_trades_processed (fst w) + (if is_depth m then 0 else 1)"
  "en_snapshot (fst (turn m st w)) = snapshot_of (fst (turn m st w))"
  by (simp_all add: turn_def after_fields(1-3)) (simp add: after_fields(4))

section \<open>Runs\<close>

definition process_all :: "queue_message list \<Rightarrow> world \<Rightarrow> world res" where
  "process_all ms w = fold_res handle ms w"

lemma process_all_Nil [simp]: "process_all [] w = Inr w"
  by (simp add: process_all_def)

lemma process_all_snoc: "process_all (ms @ [m]) w = bind_res (process_all ms w) (handle m)"
  by (simp add: process_all_def fold_res_append) (simp add: bind_res_def split: sum.split)

lemma process_all_snocE:
  assumes "process_all (ms @ [m]) w0 = Inr w'"
  obtains w st where "process_all ms w0 = Inr w" "state_step m (state_of (name_of m) (fst w)) = Inr st" "w' = turn m st w"
  using assms by (auto simp: process_all_snoc handle_eq res_simps)

text \<open>A property kept by every message is kept by runs.\<close>

lemma process_all_induct [consumes 2, case_names step]:
  assumes "process_all ms w0 = Inr w'" "P [] w0"
    and "\<And>ms m w st. P ms w \<Longrightarrow> state_step m (state_of (name_of m) (fst w)) = Inr st \<Longrightarrow> P (ms @ [m]) (turn m st w)"
  shows "P ms w'"
  using assms(1)
proof (induction ms arbitrary: w' rule: rev_induct)
  case Nil
  then show ?case using assms(2) by simp
next
  case (snoc m ms)
  show ?case using snoc.prems
    by (rule process_all_snocE) (use snoc.IH assms(3) in auto)
qed

text \<open>The messages of one symbol, and the state they lead to on their own.\<close>

definition messages_of :: "string \<Rightarrow> queue_message list \<Rightarrow> queue_message list" where
  "messages_of name ms = filter (\<lambda>m. name_of m = name) ms"

definition symbol_run :: "queue_message list \<Rightarrow> symbol_state \<Rightarrow> symbol_state res" where
  "symbol_run ms st = fold_res state_step ms st"

lemma symbol_run_simps [simp]:
  "symbol_run [] st = Inr st"
  "symbol_run (ms @ [m]) st = bind_res (symbol_run ms st) (state_step m)"
  by (simp_all add: symbol_run_def fold_res_append) (simp add: bind_res_def split: sum.split)

lemma messages_of_snoc:
  "messages_of name (ms @ [m]) = messages_of name ms @ (if name_of m = name then [m] else [])"
  by (simp add: messages_of_def)

text \<open>
  The engines reached from \<open>e0\<close> by handling \<open>ms\<close>, whatever the clocks show at each turn: other
  threads read the clocks too.
\<close>

inductive engine_after :: "engine \<Rightarrow> queue_message list \<Rightarrow> engine \<Rightarrow> bool" for e0 where
  none: "engine_after e0 [] e0"
| one_more: "engine_after e0 ms e \<Longrightarrow> handle m (e, clk) = Inr (e', clk') \<Longrightarrow> engine_after e0 (ms @ [m]) e'"

lemma process_all_engine_after: "process_all ms w0 = Inr w \<Longrightarrow> engine_after (fst w0) ms (fst w)"
proof (induction ms arbitrary: w rule: rev_induct)
  case (snoc m ms)
  then obtain w1 where "process_all ms w0 = Inr w1" "handle m w1 = Inr w" by (auto simp: process_all_snoc res_simps)
  then show ?case using snoc.IH [of w1] by (cases w1; cases w) (auto intro: engine_after.intros)
qed (simp add: engine_after.none)

lemma engine_after_symbols:
  assumes "engine_after (new_engine conds rec) ms e"
  shows "symbol_run (messages_of name ms) (new_symbol_state name) = Inr (state_of name e)
    \<and> (name \<in> fst ` set (en_states e) \<longleftrightarrow> messages_of name ms \<noteq> []) \<and> distinct (map fst (en_states e))"
  using assms
proof induction
  case none
  show ?case by (simp add: messages_of_def new_engine_def state_of_def)
next
  case (one_more ms e m clk e' clk')
  then obtain st where st: "state_step m (state_of (name_of m) e) = Inr st" "(e', clk') = turn m st (e, clk)"
    by (auto simp: handle_eq res_simps)
  have states: "en_states e' = put (name_of m) st (en_states e)"
    using turn_fields(1) [of m st "(e, clk)"] st(2) [symmetric] by simp
  have d: "distinct (map fst (put (name_of m) st (en_states e)))" using one_more.IH by (simp add: distinct_put)
  show ?case
  proof (cases "name_of m = name")
    case True
    then show ?thesis using one_more.IH st(1) d by (simp add: messages_of_snoc states state_of_def)
  next
    case False
    then show ?thesis using one_more.IH d by (simp add: messages_of_snoc states state_of_def)
  qed
qed

lemma engine_symbol_runs:
  assumes "process_all ms (new_engine conds rec, clk) = Inr (e, clk')"
  shows "symbol_run (messages_of name ms) (new_symbol_state name) = Inr (state_of name e)
    \<and> (name \<in> fst ` set (en_states e) \<longleftrightarrow> messages_of name ms \<noteq> []) \<and> distinct (map fst (en_states e))"
  using process_all_engine_after [OF assms] by (intro engine_after_symbols) simp

text \<open>C9: symbols do not interfere. After any messages the engine holds one state for each symbol
  that occurred, and it is the state reached from a new one by the messages of that symbol
  alone, in order.\<close>

theorem symbol_isolation:
  assumes "process_all ms (new_engine conds rec, clk) = Inr (e, clk')"
  shows "case map_of (en_states e) name of
      None \<Rightarrow> messages_of name ms = []
    | Some st \<Rightarrow> messages_of name ms \<noteq> [] \<and> symbol_run (messages_of name ms) (new_symbol_state name) = Inr st"
proof (cases "map_of (en_states e) name")
  case None
  then have "name \<notin> fst ` set (en_states e)" by (metis map_of_eq_None_iff)
  then show ?thesis using engine_symbol_runs [OF assms, of name] by (simp add: None)
next
  case (Some st)
  then have "name \<in> fst ` set (en_states e)" by (metis map_of_eq_None_iff option.distinct(1))
  then show ?thesis using engine_symbol_runs [OF assms, of name] Some by (simp add: state_of_def)
qed

section \<open>The book and the aggregators of a symbol\<close>

definition depths :: "queue_message list \<Rightarrow> depth_update list" where
  "depths ms = map msg_depth (filter is_depth ms)"

definition trades :: "queue_message list \<Rightarrow> trade list" where
  "trades ms = map msg_trade (filter (\<lambda>m. \<not> is_depth m) ms)"

text \<open>The books after each update, as long as the updates are defined.\<close>

fun book_trace :: "depth_update list \<Rightarrow> order_book \<Rightarrow> order_book list" where
  "book_trace [] b = []"
| "book_trace (u # us) b = (case apply_update u b of Inl f \<Rightarrow> [] | Inr b' \<Rightarrow> b' # book_trace us b')"

lemma book_trace_snoc:
  "book_run us b = Inr b' \<Longrightarrow> apply_update u b' = Inr b'' \<Longrightarrow> book_trace (us @ [u]) b = book_trace us b @ [b'']"
  by (induction us arbitrary: b) (auto simp: res_simps)

lemma symbol_run_parts:
  assumes "symbol_run ms (new_symbol_state name) = Inr st"
  shows "book_run (depths ms) (new_book name) = Inr (st_book st)
    \<and> st_aggregator st = agg_run (book_trace (depths ms) (new_book name)) default_aggregator
    \<and> ta_run (trades ms) default_trade_aggregator = Inr (st_trade_aggregator st)"
  using assms
proof (induction ms arbitrary: st rule: rev_induct)
  case Nil
  then have "st = new_symbol_state name" by simp
  then show ?case by (simp add: depths_def trades_def new_symbol_state_def)
next
  case (snoc m ms)
  then obtain st0 where st0: "symbol_run ms (new_symbol_state name) = Inr st0" "state_step m st0 = Inr st"
    by (auto simp: res_simps)
  note IH = snoc.IH [OF st0(1)]
  show ?case
  proof (cases "is_depth m")
    case True
    then obtain b where b: "apply_update (msg_depth m) (st_book st0) = Inr b"
      "st = st0\<lparr>st_book := b, st_aggregator := agg_update b (st_aggregator st0)\<rparr>"
      using st0(2) by (auto simp: state_step_def is_depth_def depth_state_def res_simps)
    then show ?thesis using True IH
      by (simp add: depths_def trades_def book_run_append book_trace_snoc)
  next
    case False
    then have "msg_type m = TRADE" by (cases "msg_type m") (simp_all add: is_depth_def)
    then obtain ta where "ta_update (msg_trade m) (st_trade_aggregator st0) = Inr ta"
      "st = st0\<lparr>st_trade_aggregator := ta\<rparr>"
      using st0(2) by (auto simp: state_step_def trade_state_def res_simps)
    then show ?thesis using False IH by (simp add: depths_def trades_def)
  qed
qed

lemma engine_after_books:
  assumes "engine_after (new_engine conds rec) ms e"
  shows "get_order_book name e = (if messages_of name ms = [] then None else
      Some (st_book (state_of name e)))
    \<and> book_run (depths (messages_of name ms)) (new_book name) = Inr (st_book (state_of name e))
    \<and> get_aggregator name e = (if messages_of name ms = [] then None else Some (ag_snapshot
        (agg_run (book_trace (depths (messages_of name ms)) (new_book name)) default_aggregator)))"
proof -
  note run = engine_after_symbols [OF assms, of name]
  have st: "map_of (en_states e) name = (if messages_of name ms = [] then None else Some (state_of name e))"
    using run by (auto simp: state_of_def map_of_eq_None_iff split: option.split)
  show ?thesis
    using symbol_run_parts [OF run [THEN conjunct1]] by (simp add: get_order_book_def get_aggregator_def st)
qed

text \<open>C12: the book of a symbol is the fold of its depth updates over the empty book, its aggregator
  has seen the book after each of them, and its trade aggregator has seen its trades.\<close>

theorem engine_books:
  assumes "process_all ms (new_engine conds rec, clk) = Inr (e, clk')" "messages_of name ms \<noteq> []"
  defines "us \<equiv> depths (messages_of name ms)"
  shows "\<exists>b. get_order_book name e = Some b \<and> book_run us (new_book name) = Inr b \<and> book_inv b
    \<and> get_aggregator name e = Some (ag_snapshot (agg_run (book_trace us (new_book name)) default_aggregator))
    \<and> ta_run (trades (messages_of name ms)) default_trade_aggregator = Inr (st_trade_aggregator (state_of name e))"
proof -
  note run = engine_symbol_runs [OF assms(1), of name]
  then obtain st where st: "map_of (en_states e) name = Some st"
    using assms(2) by (metis map_of_eq_None_iff option.exhaust)
  then have "symbol_run (messages_of name ms) (new_symbol_state name) = Inr st"
    using run by (simp add: state_of_def)
  from symbol_run_parts [OF this] show ?thesis
    using st book_run_inv' [OF book_inv_new]
    by (auto simp: get_order_book_def get_aggregator_def us_def state_of_def)
qed

section \<open>Undefined behaviour\<close>

text \<open>A message the engine can apply: its counts are within the arrays and no counted price is NaN.\<close>

definition applicable :: "queue_message \<Rightarrow> bool" where
  "applicable m \<longleftrightarrow> is_depth m \<longrightarrow>
     unat (du_bid_count (msg_depth m)) \<le> length (du_bids (msg_depth m))
   \<and> unat (du_ask_count (msg_depth m)) \<le> length (du_asks (msg_depth m))
   \<and> \<not> list_ex (\<lambda>l. d_nan (lv_price l)) (counted_bids (msg_depth m))
   \<and> \<not> list_ex (\<lambda>l. d_nan (lv_price l)) (counted_asks (msg_depth m))"

definition windows_set :: "world \<Rightarrow> bool" where
  "windows_set w \<longleftrightarrow> (\<forall>name. ta_window_ms (st_trade_aggregator (state_of name (fst w))) = 1000)"

lemma apply_update_defined:
  "ok (apply_update u b) \<longleftrightarrow>
     unat (du_bid_count u) \<le> length (du_bids u) \<and> unat (du_ask_count u) \<le> length (du_asks u)
   \<and> \<not> list_ex (\<lambda>l. d_nan (lv_price l)) (counted_bids u)
   \<and> \<not> list_ex (\<lambda>l. d_nan (lv_price l)) (counted_asks u)"
proof -
  have "ok (apply_update u b) \<longleftrightarrow>
      ok (apply_levels greater_price (du_bids u) 0 (unat (du_bid_count u)) (ob_bids b))
    \<and> ok (apply_levels less_price (du_asks u) 0 (unat (du_ask_count u)) (ob_asks b))"
    by (auto simp: apply_update_def ok_def bind_res_def split: sum.splits)
  then show ?thesis
    by (auto simp: apply_levels_ok_iff price_ok_def counted_bids_def counted_asks_def list_ex_iff)
qed

lemma ok_bind_Inr [simp]: "ok (bind_res r (\<lambda>x. Inr (f x))) = ok r"
  by (cases r) simp_all

lemma state_step_ok: "windows_set w \<Longrightarrow> ok (state_step m (state_of name (fst w))) = applicable m"
  by (cases "msg_type m")
    (simp_all add: state_step_def applicable_def is_depth_def depth_state_def trade_state_def apply_update_defined
      windows_set_def ta_update_def roll_window_def init_window_def)

lemma state_step_window:
  "state_step m st = Inr st' \<Longrightarrow> ta_window_ms (st_trade_aggregator st') = ta_window_ms (st_trade_aggregator st)"
  by (cases "msg_type m")
    (auto simp: state_step_def depth_state_def trade_state_def res_simps ta_update_step)

lemma windows_set_turn:
  "windows_set w \<Longrightarrow> state_step m (state_of (name_of m) (fst w)) = Inr st \<Longrightarrow> windows_set (turn m st w)"
  using state_step_window [of m] by (auto simp: windows_set_def state_of_def turn_fields)

lemma windows_set_new: "windows_set (new_engine conds rec, clk)"
  by (simp add: windows_set_def state_of_def new_engine_def new_symbol_state_def default_trade_aggregator_def)

lemma windows_set_run: "process_all ms (new_engine conds rec, clk) = Inr w \<Longrightarrow> windows_set w"
  by (erule process_all_induct [where P = "\<lambda>ms. windows_set"]) (simp_all add: windows_set_new windows_set_turn)

lemma engine_defined:
  "ok (process_all ms (new_engine conds rec, clk)) = list_all applicable ms"
proof (induction ms rule: rev_induct)
  case (snoc m ms)
  show ?case
  proof (cases "process_all ms (new_engine conds rec, clk)")
    case (Inl f)
    then show ?thesis using snoc by (simp add: process_all_snoc)
  next
    case (Inr w)
    then show ?thesis
      using snoc state_step_ok [OF windows_set_run [OF Inr]] by (simp add: process_all_snoc handle_eq)
  qed
qed simp

text \<open>C32: the engine meets undefined behaviour on a sequence of messages exactly when one of them is
  a depth update with a count beyond its array or a NaN price; no trade, no history and no
  configuration of signals can cause it.\<close>

theorem engine_defined_iff:
  "ok (process_all ms (new_engine conds rec, clk)) = list_all applicable ms"
  by (rule engine_defined)

section \<open>Signals and counters\<close>

text \<open>The signals so far, newest first, as a ghost list: what the sink keeps is its beginning.\<close>

definition sink_inv :: "condition list \<Rightarrow> detector \<times> signal_sink \<Rightarrow> signal list \<Rightarrow> bool" where
  "sink_inv cs ds sigs \<longleftrightarrow> log_inv cs (fst ds, sigs)
     \<and> sk_recent_signals (snd ds) = take MAX_RECENT_SIGNALS sigs
     \<and> sk_signals_fired (snd ds) = of_nat (length sigs)"

lemma on_signal_recent:
  "sk_recent_signals (on_signal s sk) = take MAX_RECENT_SIGNALS (s # sk_recent_signals sk)"
  if "length (sk_recent_signals sk) \<le> MAX_RECENT_SIGNALS"
proof (cases "length (sk_recent_signals sk) = MAX_RECENT_SIGNALS")
  case True
  then show ?thesis by (simp add: on_signal_def Let_def butlast_conv_take)
next
  case False
  then show ?thesis using that by (simp add: on_signal_def Let_def)
qed

lemma fire_sink_inv:
  assumes "sink_inv cs ds sigs" "c \<in> set cs"
  shows "\<exists>sigs'. sink_inv cs (fire (Some on_signal) name c v t ds) sigs'"
proof -
  let ?ls = "fire log_signal name c v t (fst ds, sigs)"
  have li: "log_inv cs ?ls" using assms by (intro fire_log_inv) (simp_all add: sink_inv_def)
  have same: "fst (fire (Some on_signal) name c v t ds) = fst ?ls" by (simp add: fire_def)
  show ?thesis
  proof (cases "cooling (cond_type c, name) t (cond_cooldown_us c) (fst ds)")
    case True
    then have "snd (fire (Some on_signal) name c v t ds) = snd ds" "snd ?ls = sigs" by (simp_all add: fire_def)
    then show ?thesis using li same assms(1) unfolding sink_inv_def by (metis prod.collapse)
  next
    case False
    let ?s = "make_signal name c v t"
    have "snd (fire (Some on_signal) name c v t ds) = on_signal ?s (snd ds)" "snd ?ls = ?s # sigs"
      using False by (simp_all add: fire_def run_callback_def log_signal_def)
    moreover have "sk_recent_signals (on_signal ?s (snd ds)) = take MAX_RECENT_SIGNALS (?s # sigs)"
      using assms(1) by (subst on_signal_recent) (auto simp: sink_inv_def take_Cons' MAX_RECENT_SIGNALS_def)
    moreover have "sk_signals_fired (on_signal ?s (snd ds)) = of_nat (length (?s # sigs))"
      using assms(1) by (simp add: sink_inv_def on_signal_def Let_def)
    ultimately have "sink_inv cs (fire (Some on_signal) name c v t ds) (?s # sigs)"
      using li same unfolding sink_inv_def by (metis prod.collapse)
    then show ?thesis ..
  qed
qed

definition engine_inv :: "condition list \<Rightarrow> engine \<Rightarrow> bool" where
  "engine_inv cs e \<longleftrightarrow> det_conditions (en_detector e) = cs \<and> (\<exists>sigs. sink_inv cs (en_detector e, en_sink e) sigs)"

lemma detect_inv:
  assumes "engine_inv cs (fst w)" shows "engine_inv cs (fst (detect name st w))"
proof -
  let ?ds = "(en_detector (fst w), en_sink (fst w))"
  obtain d sk clk where ev: "evaluate (Some on_signal) name (st_book st) (ag_snapshot (st_aggregator st)) (trade_ptr st)
      (?ds, snd w) = ((d, sk), clk)" by (metis prod.collapse)
  have "case fold (eval_condition (Some on_signal) name agg tr) cs (?ds, snd w) of (ds', clk') \<Rightarrow>
      (\<exists>sigs. sink_inv cs ds' sigs) \<and> det_conditions (fst ds') = cs" for agg tr
    using assms by (intro fold_conditions_induct [where P = "\<lambda>ds clk. \<exists>sigs. sink_inv cs ds sigs"])
      (auto simp: engine_inv_def dest: fire_sink_inv)
  from this [of "ag_snapshot (st_aggregator st)" "trade_ptr st"]
  have "(\<exists>sigs. sink_inv cs (d, sk) sigs) \<and> det_conditions d = cs"
    using ev assms by (auto simp: evaluate_def engine_inv_def split: if_splits prod.splits)
  then show ?thesis by (simp add: detect_def ev engine_inv_def)
qed

lemma engine_inv_after:
  assumes "engine_inv cs (fst w)" shows "engine_inv cs (fst (after m st w))"
proof (cases "msg_type m")
  case TRADE
  then show ?thesis using assms by (simp add: after_def engine_inv_def)
next
  case DEPTH_UPDATE
  let ?u = "msg_depth m"
  define w0 where "w0 = record_depth ?u ((fst w)\<lparr>en_processed := en_processed (fst w) + 1\<rparr>, snd w)"
  define w1 where "w1 = ((store_latencies ?u (fst w0))\<lparr>en_states := put (du_symbol ?u) st (en_states (fst w))\<rparr>, snd w0)"
  have "engine_inv cs (fst w1)"
    using assms by (simp add: w1_def w0_def engine_inv_def store_latencies_def record_depth_fields)
  then have "engine_inv cs (fst (detect (du_symbol ?u) st w1))" by (rule detect_inv)
  then show ?thesis by (simp add: after_def DEPTH_UPDATE Let_def engine_inv_def w1_def w0_def)
qed

lemma engine_inv_turn: "engine_inv cs (fst w) \<Longrightarrow> engine_inv cs (fst (turn m st w))"
  unfolding turn_def by (rule engine_inv_after) simp

lemma engine_inv_new: "engine_inv cs (new_engine cs rec)"
  using detector_with_eq [of cs]
  by (auto simp: engine_inv_def sink_inv_def log_inv_def new_engine_def detector_with_def new_detector_def
      intro!: exI [of _ "[]"])

text \<open>Whatever the clocks show at each turn.\<close>

lemma engine_after_counts:
  "engine_after (new_engine cs rec) ms e \<Longrightarrow> engine_inv cs e \<and> en_processed e = of_nat (length ms)
    \<and> en_trades_processed e = of_nat (length (trades ms))"
proof (induction rule: engine_after.induct)
  case none
  show ?case by (simp add: engine_inv_new) (simp add: new_engine_def trades_def)
next
  case (one_more ms e m clk e' clk')
  then obtain st where st: "turn m st (e, clk) = (e', clk')" by (auto simp: handle_eq res_simps)
  then show ?case using one_more.IH engine_inv_turn [of cs "(e, clk)" m st] turn_fields [of m st "(e, clk)"]
    by (simp add: trades_def)
qed

lemma engine_inv_run: "process_all ms (new_engine cs rec, clk) = Inr w \<Longrightarrow> engine_inv cs (fst w)"
  using process_all_engine_after [of ms "(new_engine cs rec, clk)" w] by (auto dest: engine_after_counts)

lemma counters_run:
  "process_all ms (new_engine cs rec, clk) = Inr w \<Longrightarrow>
    en_processed (fst w) = of_nat (length ms) \<and> en_trades_processed (fst w) = of_nat (length (trades ms))"
  using process_all_engine_after [of ms "(new_engine cs rec, clk)" w] by (auto dest: engine_after_counts)


section \<open>The published snapshot\<close>

lemma snapshot_run:
  "process_all ms (new_engine cs rec, clk) = Inr w \<Longrightarrow> ms \<noteq> [] \<longrightarrow> en_snapshot (fst w) = snapshot_of (fst w)"
  by (erule process_all_induct [where P = "\<lambda>ms w. ms \<noteq> [] \<longrightarrow> en_snapshot (fst w) = snapshot_of (fst w)"])
    (simp_all add: turn_fields)

lemma book_run_count:
  "book_run us b = Inr b' \<Longrightarrow> ob_update_count b' = ob_update_count b + of_nat (length us)"
  by (induction us arbitrary: b) (auto simp: res_simps update_fields)

text \<open>C31: after every message the published snapshot has exactly one entry per symbol seen, each with
  sides in strict price order, the best prices of those sides, and the number of depth
  updates of the symbol.\<close>

theorem snapshot_sound:
  assumes "process_all ms (new_engine cs rec, clk) = Inr (e, clk')" "ms \<noteq> []"
  defines "entries \<equiv> es_symbols (take_snapshot e)"
  shows "distinct (map sn_symbol entries) \<and> set (map sn_symbol entries) = set (map name_of ms)
    \<and> (\<forall>sn\<in>set entries. side_inv greater_price (sn_bids sn) \<and> side_inv less_price (sn_asks sn)
        \<and> sn_best_bid sn = (case sn_bids sn of [] \<Rightarrow> 0 | (p, _) # _ \<Rightarrow> p)
        \<and> sn_best_ask sn = (case sn_asks sn of [] \<Rightarrow> 0 | (p, _) # _ \<Rightarrow> p)
        \<and> sn_update_count sn = of_nat (length (depths (messages_of (sn_symbol sn) ms))))"
proof -
  have entries: "entries = map symbol_snapshot_of (en_states e)"
    using snapshot_run [OF assms(1)] assms(2) by (simp add: entries_def take_snapshot_def snapshot_of_def)
  have names: "map sn_symbol entries = map fst (en_states e)"
    by (simp add: entries symbol_snapshot_of_def split: prod.split)
  note runs = engine_symbol_runs [OF assms(1)]
  have "fst ` set (en_states e) = {n. messages_of n ms \<noteq> []}" using runs by blast
  then have "set (map sn_symbol entries) = set (map name_of ms)"
    unfolding names by (auto simp: messages_of_def filter_empty_conv)
  moreover have "distinct (map sn_symbol entries)" unfolding names using runs by blast
  moreover have "side_inv greater_price (sn_bids sn) \<and> side_inv less_price (sn_asks sn)
        \<and> sn_best_bid sn = (case sn_bids sn of [] \<Rightarrow> 0 | (p, _) # _ \<Rightarrow> p)
        \<and> sn_best_ask sn = (case sn_asks sn of [] \<Rightarrow> 0 | (p, _) # _ \<Rightarrow> p)
        \<and> sn_update_count sn = of_nat (length (depths (messages_of (sn_symbol sn) ms)))"
    if sn: "sn \<in> set entries" for sn
  proof -
    obtain name st where p: "(name, st) \<in> set (en_states e)" "sn = symbol_snapshot_of (name, st)"
      using sn unfolding entries by auto
    have "map_of (en_states e) name = Some st" using runs p(1) by (simp add: map_of_is_SomeI)
    then have "symbol_run (messages_of name ms) (new_symbol_state name) = Inr st"
      using runs [of name] by (simp add: state_of_def)
    note b = symbol_run_parts [OF this, THEN conjunct1]
    have "book_inv (st_book st)" by (rule book_run_inv' [OF book_inv_new b])
    moreover have "ob_update_count (st_book st) = of_nat (length (depths (messages_of name ms)))"
      using book_run_count [OF b] by (simp add: new_book_def)
    ultimately show ?thesis
      by (simp add: p(2) symbol_snapshot_of_def book_inv_def best_bid_price_def best_ask_price_def)
  qed
  ultimately show ?thesis by blast
qed

section \<open>The recorder\<close>

lemma record_depth_recording:
  assumes "en_recorder (fst w) = Some (lg, dk)" "recording_open path created es (lg, dk, snd w)"
    and "wf_update u" "entry_size \<le> disk_space dk"
  shows "\<exists>lg' dk' t. en_recorder (fst (record_depth u w)) = Some (lg', dk')
    \<and> recording_open path created (es @ [(t, u)]) (lg', dk', clk) \<and> disk_space dk' = disk_space dk - entry_size"
  using logger_write_spec [OF assms(2-4)] assms(1)
  by (auto simp: record_depth_def recording_open_def)

text \<open>The state of the recorder: what it has written are the depth updates so far.\<close>

definition recorded :: "string \<Rightarrow> u64 \<Rightarrow> nat \<Rightarrow> depth_update list \<Rightarrow> engine \<Rightarrow> bool" where
  "recorded path created space us e \<longleftrightarrow> (\<exists>lg dk es. en_recorder e = Some (lg, dk)
     \<and> (\<forall>clk. recording_open path created es (lg, dk, clk)) \<and> map (stored \<circ> snd) es = map stored us
     \<and> list_all wf_entry es
     \<and> disk_space dk = space - length us * entry_size)"

lemma recorded_cong: "map stored us = map stored vs \<Longrightarrow> recorded path created space us e \<Longrightarrow> recorded path created space vs e"
proof -
  assume m: "map stored us = map stored vs" and r: "recorded path created space us e"
  have "length us = length vs" using m by (rule map_eq_imp_length_eq)
  with m r show "recorded path created space vs e" by (simp add: recorded_def)
qed

lemma recorded_after_trade:
  "recorded path created space us (fst w) \<Longrightarrow> \<not> is_depth m \<Longrightarrow> recorded path created space us (fst (after m st w))"
  by (cases "msg_type m") (simp_all add: after_def recorded_def is_depth_def)

lemma recorded_after_depth:
  assumes "recorded path created space us (fst w)" "is_depth m" "wf_update (msg_depth m)"
    and "Suc (length us) * entry_size \<le> space"
  shows "recorded path created space (us @ [msg_depth m]) (fst (after m st w))"
proof -
  let ?u = "msg_depth m" and ?w = "((fst w)\<lparr>en_processed := en_processed (fst w) + 1\<rparr>, snd w)"
  obtain lg dk es where r: "en_recorder (fst w) = Some (lg, dk)" "\<And>clk. recording_open path created es (lg, dk, clk)"
    "map (stored \<circ> snd) es = map stored us" "list_all wf_entry es" "disk_space dk = space - length us * entry_size"
    using assms(1) by (auto simp: recorded_def)
  have "entry_size \<le> disk_space dk" using assms(4) by (simp add: r(5))
  then obtain lg' dk' t where w: "en_recorder (fst (record_depth ?u ?w)) = Some (lg', dk')"
    "\<And>clk. recording_open path created (es @ [(t, ?u)]) (lg', dk', clk)" "disk_space dk' = disk_space dk - entry_size"
    using record_depth_recording [of ?w lg dk path created es ?u] r(1,2) assms(3)
    by (fastforce simp: recording_open_def)
  have "msg_type m = DEPTH_UPDATE" using assms(2) by (simp add: is_depth_def)
  then have "en_recorder (fst (after m st w)) = en_recorder (fst (record_depth ?u ?w))"
    by (simp add: after_def Let_def detect_fields store_latencies_def)
  moreover have "disk_space dk' = space - length (us @ [?u]) * entry_size"
    using w(3) r(5) by simp
  ultimately show ?thesis
    unfolding recorded_def using w(1,2) r(3,4) assms(3)
    by (intro exI [of _ lg'] exI [of _ dk'] exI [of _ "es @ [(t, ?u)]"]) (simp add: wf_entry_def)
qed

lemma recorded_turn:
  assumes "recorded path created space (depths ms) (fst w)" "is_depth m \<longrightarrow> wf_update (msg_depth m)"
    and "length (depths (ms @ [m])) * entry_size \<le> space"
  shows "recorded path created space (depths (ms @ [m])) (fst (turn m st w))"
proof (cases "is_depth m")
  case False
  then show ?thesis using assms(1) by (simp add: turn_def depths_def recorded_after_trade)
next
  case True
  let ?m = "stamp_dequeued (fst (now (snd w))) m"
  have m: "stored (msg_depth ?m) = stored (msg_depth m)" "wf_update (msg_depth ?m) = wf_update (msg_depth m)"
    using True by (simp_all add: stamp_dequeued_def is_depth_def stored_def wf_update_def)
  have "recorded path created space (depths ms @ [msg_depth ?m]) (fst (turn m st w))"
    unfolding turn_def using assms True m
    by (intro recorded_after_depth) (simp_all add: depths_def)
  then show ?thesis using True m(1) by (elim recorded_cong [rotated]) (simp add: depths_def)
qed

lemma engine_after_recorded:
  assumes "engine_after (new_engine cs (Some (lg, dk))) ms e"
    and "\<And>clk. recording_open path created [] (lg, dk, clk)"
    and "\<And>m. m \<in> set ms \<Longrightarrow> is_depth m \<Longrightarrow> wf_update (msg_depth m)"
    and "length (depths ms) * entry_size \<le> disk_space dk"
  shows "recorded path created (disk_space dk) (depths ms) e"
  using assms(1,3,4)
proof induction
  case none
  show ?case using assms(2) by (auto simp: recorded_def new_engine_def depths_def intro!: exI [of _ "[]"])
next
  case (one_more ms e m clk e' clk')
  obtain st where st: "(e', clk') = turn m st (e, clk)" using one_more.hyps(2) by (auto simp: handle_eq res_simps dest: sym)
  have "length (depths ms) * entry_size \<le> length (depths (ms @ [m])) * entry_size"
    by (rule mult_le_mono1) (simp add: depths_def)
  then have "length (depths ms) * entry_size \<le> disk_space dk" using one_more.prems(2) by linarith
  then have "recorded path created (disk_space dk) (depths ms) (fst (e, clk))" using one_more.IH one_more.prems(1) by simp
  then show ?case using recorded_turn [of path created "disk_space dk" ms "(e, clk)" m st] one_more.prems
    by (simp flip: st)
qed

lemma engine_recorded:
  assumes "process_all ms (new_engine cs (Some (lg, dk)), clk) = Inr w"
    and "\<And>clk. recording_open path created [] (lg, dk, clk)"
    and "\<And>m. m \<in> set ms \<Longrightarrow> is_depth m \<Longrightarrow> wf_update (msg_depth m)"
    and "length (depths ms) * entry_size \<le> disk_space dk"
  shows "recorded path created (disk_space dk) (depths ms) (fst w)"
  using process_all_engine_after [OF assms(1)] assms(2-4) by (auto intro: engine_after_recorded)

lemma recorded_read:
  assumes "recorded path created space us e"
  shows "\<exists>lg dk rd. en_recorder e = Some (lg, dk) \<and> reader_open path (snd (logger_close lg dk)) new_reader = (True, rd)
    \<and> fh_record_count (rd_header rd) = of_nat (length us)
    \<and> map (from_record \<circ> fst) (read_all rd) = map (Inr \<circ> stored) us"
proof -
  obtain lg dk es where r: "en_recorder e = Some (lg, dk)" "\<And>clk. recording_open path created es (lg, dk, clk)"
    "map (stored \<circ> snd) es = map stored us" "list_all wf_entry es"
    using assms by (auto simp: recorded_def)
  let ?disk = "snd (logger_close lg dk)" and ?h = "(new_file_header created)\<lparr>fh_record_count := of_nat (length es)\<rparr>"
  have "map_of (disk_files ?disk) path = Some (recording ?h es @ [])"
    using logger_close_spec [OF r(2)] by simp
  then obtain rd where rd: "reader_open path ?disk new_reader = (True, rd)" "rd_header rd = ?h" "read_all rd = map read_back es"
    using read_all_recording [of ?disk path ?h es "[]" new_reader] r(4) by (auto simp: new_file_header_def entry_size_def)
  have "map (from_record \<circ> fst) (read_all rd) = map Inr (map (stored \<circ> snd) es)"
    by (simp add: rd(3) read_back_def from_to_record)
  moreover have "length es = length us" using r(3) by (metis length_map)
  ultimately show ?thesis using r(1,3) rd by (intro exI [of _ lg] exI [of _ dk] exI [of _ rd]) simp
qed

text \<open>With a recorder whose file is open and enough space, closing the recorder after any run
  leaves a file that reads back as the depth updates of all symbols, in the order they were
  processed, and no trades.\<close>

theorem engine_recording:
  assumes "process_all ms (new_engine cs (Some (lg, dk)), clk) = Inr (e, clk')"
    and "\<And>clk. recording_open path created [] (lg, dk, clk)"
    and "list_all wf_update (depths ms)" "length (depths ms) * entry_size \<le> disk_space dk"
  shows "\<exists>lg' dk' rd. en_recorder e = Some (lg', dk') \<and> reader_open path (snd (logger_close lg' dk')) new_reader = (True, rd)
    \<and> fh_record_count (rd_header rd) = of_nat (length (depths ms))
    \<and> map (from_record \<circ> fst) (read_all rd) = map (Inr \<circ> stored) (depths ms)"
proof -
  have "recorded path created (disk_space dk) (depths ms) (fst (e, clk'))"
    using assms by (intro engine_recorded) (auto simp: depths_def list_all_iff)
  from recorded_read [OF this] show ?thesis by simp
qed

section \<open>The queue and the thread\<close>

text \<open>
  A schedule of the two threads at the level of whole queue operations: the producer
  tries to push a message, or the consumer makes one iteration of its loop. The third
  component collects the messages the queue accepted.
\<close>

datatype 'm action = Produce 'm | Consume

fun run_schedule ::
    "('m \<Rightarrow> 'q \<Rightarrow> bool \<times> 'q) \<Rightarrow> ('q \<Rightarrow> ('m \<times> 'q) option) \<Rightarrow> ('m \<Rightarrow> 'w \<Rightarrow> 'w res) \<Rightarrow> 'm action list \<Rightarrow>
     'q \<times> 'w \<times> 'm list \<Rightarrow> ('q \<times> 'w \<times> 'm list) res" where
  "run_schedule push pop hdl [] st = Inr st"
| "run_schedule push pop hdl (Produce m # as) (q, w, acc) =
     (case push m q of (accepted, q) \<Rightarrow>
        run_schedule push pop hdl as (q, w, if accepted then acc @ [m] else acc))"
| "run_schedule push pop hdl (Consume # as) (q, w, acc) =
     bind_res (run_iteration pop hdl q w) (\<lambda>qw. run_schedule push pop hdl as (fst qw, snd qw, acc))"

definition run_thread ::
    "('m \<Rightarrow> 'q \<Rightarrow> bool \<times> 'q) \<Rightarrow> ('q \<Rightarrow> ('m \<times> 'q) option) \<Rightarrow> ('m \<Rightarrow> 'w \<Rightarrow> 'w res) \<Rightarrow> 'm action list \<Rightarrow>
     nat \<Rightarrow> 'q \<Rightarrow> 'w \<Rightarrow> ('m list \<times> ('q \<times> 'w) res option) res" where
  "run_thread push pop hdl as fuel q w =
     bind_res (run_schedule push pop hdl as (q, w, [])) (\<lambda>st.
     Inr (snd (snd st), drain pop hdl fuel (fst st) (fst (snd st))))"

context bounded_fifo
begin

text \<open>Draining processes what waits, in order, and ends with an empty queue.\<close>

lemma drain_items:
  assumes "inv q" "length (items q) < fuel"
  shows "\<exists>q'. items q' = [] \<and> drain pop hdl fuel q w = Some (bind_res (fold_res hdl (items q) w) (\<lambda>w'. Inr (q', w')))"
  using assms
proof (induction fuel arbitrary: q w)
  case (Suc fuel)
  from Suc.prems(1) show ?case
  proof (cases rule: pop_cases)
    case empty
    then show ?thesis by auto
  next
    case (item x q')
    then have "length (items q') < fuel" using Suc.prems(2) by simp
    then show ?thesis using Suc.IH [OF item(3)] item by (cases "hdl x w") auto
  qed
qed simp

text \<open>Any schedule: what was processed, then what waits, is what was accepted.\<close>

lemma run_schedule_items:
  assumes "inv q" "fold_res hdl done w0 = Inr w" "acc = done @ items q"
    and "run_schedule push pop hdl as (q, w, acc) = Inr (q', w', acc')"
  shows "\<exists>done'. inv q' \<and> fold_res hdl done' w0 = Inr w' \<and> acc' = done' @ items q'"
  using assms
proof (induction as arbitrary: q w acc "done")
  case Nil
  then show ?case by auto
next
  case (Cons a as)
  show ?case
  proof (cases a)
    case (Produce m)
    from Cons.prems(1) show ?thesis
    proof (cases rule: push_cases [where x = m])
      case full
      then show ?thesis using Cons.IH [OF Cons.prems(1-3)] Cons.prems(4) by (simp add: Produce)
    next
      case (room q1)
      have "acc @ [m] = done @ items q1" using room(4) Cons.prems(3) by simp
      from Cons.IH [OF room(3) Cons.prems(2) this] show ?thesis
        using Cons.prems(4) room(2) by (simp add: Produce)
    qed
  next
    case Consume
    from Cons.prems(1) show ?thesis
    proof (cases rule: pop_cases)
      case empty
      then show ?thesis using Cons.IH [OF Cons.prems(1-3)] Cons.prems(4)
        by (simp add: Consume run_iteration_def)
    next
      case (item x q1)
      then obtain w1 where w1: "hdl x w = Inr w1" "run_schedule push pop hdl as (q1, w1, acc) = Inr (q', w', acc')"
        using Cons.prems(4) by (auto simp: Consume run_iteration_def res_simps)
      have "fold_res hdl (done @ [x]) w0 = Inr w1" using Cons.prems(2) w1(1) by (simp add: fold_res_append)
      moreover have "acc = (done @ [x]) @ items q1" using item(1) Cons.prems(3) by simp
      ultimately show ?thesis using Cons.IH [OF item(3)] w1(2) by blast
    qed
  qed
qed

text \<open>A burst that fits is accepted as a whole.\<close>

lemma burst_accepted:
  "inv q \<Longrightarrow> length (items q) + length ms \<le> room \<Longrightarrow>
    \<exists>q'. run_schedule push pop hdl (map Produce ms) (q, w, acc) = Inr (q', w, acc @ ms)
      \<and> inv q' \<and> items q' = items q @ ms"
proof (induction ms arbitrary: q acc)
  case (Cons m ms)
  have "length (items q) < room" using Cons.prems(2) by simp
  with push_room [OF Cons.prems(1)] obtain q1 where q1: "push m q = (True, q1)" "inv q1" "items q1 = items q @ [m]"
    by blast
  then show ?case using Cons.IH [OF q1(2), of "acc @ [m]"] Cons.prems(2) by auto
qed simp

lemma run_thread_exactly_once:
  assumes "inv q" "items q = []" "room < fuel"
    and "run_thread push pop hdl as fuel q w0 = Inr (accepted, result)"
  shows "\<exists>q'. items q' = [] \<and> result = Some (bind_res (fold_res hdl accepted w0) (\<lambda>w. Inr (q', w)))"
proof -
  obtain q1 w1 where run: "run_schedule push pop hdl as (q, w0, []) = Inr (q1, w1, accepted)"
    and result: "result = drain pop hdl fuel q1 w1"
    using assms(4) by (auto simp: run_thread_def res_simps)
  obtain done' where d: "inv q1" "fold_res hdl done' w0 = Inr w1" "accepted = done' @ items q1"
    using run_schedule_items [OF assms(1) _ _ run, of "[]" w0] assms(2) by auto
  have "length (items q1) < fuel" using items_room [OF d(1)] assms(3) by simp
  from drain_items [OF d(1) this, of hdl w1] show ?thesis
    unfolding result d(3) fold_res_append d(2) by simp
qed

end

text \<open>C7: whatever the interleaving of the feed's pushes with the thread's iterations, once the queue
  is drained every accepted message was processed exactly once and in the order of the
  pushes, and the queue is empty; as many turns as the queue has slots are enough.\<close>

theorem processed_exactly_once:
  assumes "run_thread (try_push QUEUE_CAPACITY) (try_pop moved QUEUE_CAPACITY) handle as 8192
      (spsc_new QUEUE_CAPACITY m0) w0 = Inr (accepted, result)"
  shows "\<exists>q. q_items QUEUE_CAPACITY q = [] \<and>
    result = Some (bind_res (fold_res handle accepted w0) (\<lambda>w. Inr (q, w)))"
proof -
  have v: "valid_capacity QUEUE_CAPACITY" by (simp add: valid_capacity_def QUEUE_CAPACITY_def)
  have "unat QUEUE_CAPACITY - 1 < 8192" by (simp add: QUEUE_CAPACITY_def)
  then show ?thesis
    by (rule ring.run_thread_exactly_once [OF ring_new [OF v] q_new_items _ assms])
qed

section \<open>Concrete runs\<close>

definition depth_message :: "depth_update \<Rightarrow> queue_message" where
  "depth_message u = new_message\<lparr>msg_type := DEPTH_UPDATE, msg_depth := u\<rparr>"

definition trade_message :: "trade \<Rightarrow> queue_message" where
  "trade_message t = new_message\<lparr>msg_type := TRADE, msg_trade := t\<rparr>"

definition sample_messages :: "queue_message list" where
  "sample_messages = [depth_message sample_update,
     trade_message ((sample_trade 1500 3 False)\<lparr>tr_symbol := ''ETH''\<rparr>),
     depth_message (make_update ''ETH'' [(20, 1)] [(30, 2)]),
     depth_message (make_update ''BTC'' [(100, 0)] [(105, 7)])]"

definition sample_world :: world where
  "sample_world = (new_engine sample_conditions None, sample_clock)"

lemma sample_engine: obtains e clk where "process_all sample_messages (new_engine sample_conditions None, sample_clock) = Inr (e, clk)"
proof -
  have "list_all applicable sample_messages" by code_simp
  then have "ok (process_all sample_messages (new_engine sample_conditions None, sample_clock))"
    by (simp add: engine_defined)
  then show thesis using that by (metis okE prod.collapse)
qed

lemma sample_names: "map name_of sample_messages = [''BTC'', ''ETH'', ''ETH'', ''BTC'']"
  by code_simp

theorem symbol_isolation_witness:
  "\<exists>e clk st. process_all sample_messages (new_engine sample_conditions None, sample_clock) = Inr (e, clk)
    \<and> map_of (en_states e) ''XRP'' = None \<and> map_of (en_states e) ''ETH'' = Some st
    \<and> symbol_run (messages_of ''ETH'' sample_messages) (new_symbol_state ''ETH'') = Inr st"
proof -
  obtain e clk where run: "process_all sample_messages (new_engine sample_conditions None, sample_clock) = Inr (e, clk)"
    by (rule sample_engine)
  have m: "messages_of ''XRP'' sample_messages = []" "length (messages_of ''ETH'' sample_messages) = 2"
    by code_simp+
  have "map_of (en_states e) ''XRP'' = None" using symbol_isolation [OF run, of "''XRP''"] m(1) by (cases "map_of (en_states e) ''XRP''") auto
  moreover have "messages_of ''ETH'' sample_messages \<noteq> []" using m(2) by auto
  then obtain st where "map_of (en_states e) ''ETH'' = Some st"
      "symbol_run (messages_of ''ETH'' sample_messages) (new_symbol_state ''ETH'') = Inr st"
    using symbol_isolation [OF run, of "''ETH''"] by (cases "map_of (en_states e) ''ETH''") auto
  ultimately show ?thesis using run by blast
qed

definition sample_final_book :: order_book where
  "sample_final_book = \<lparr>ob_symbol = ''BTC'', ob_bids = [(double_of_int 99, double_of_int 4)],
     ob_asks = [(double_of_int 105, double_of_int 7), (double_of_int 110, double_of_int 2)],
     ob_last_update_id = 1, ob_update_count = 2\<rparr>"

theorem engine_books_witness:
  "\<exists>e clk. process_all sample_messages (new_engine sample_conditions None, sample_clock) = Inr (e, clk)
    \<and> get_order_book ''BTC'' e = Some sample_final_book"
proof -
  obtain e clk where run: "process_all sample_messages (new_engine sample_conditions None, sample_clock) = Inr (e, clk)"
    by (rule sample_engine)
  have "messages_of ''BTC'' sample_messages \<noteq> []" by (simp add: messages_of_def sample_messages_def depth_message_def name_of_def sample_update_def make_update_def)
  moreover have "book_run (depths (messages_of ''BTC'' sample_messages)) (new_book ''BTC'') = Inr sample_final_book"
    by code_simp
  ultimately show ?thesis using engine_books [OF run, of "''BTC''"] run by auto
qed


theorem snapshot_sound_witness:
  "\<exists>e clk. process_all sample_messages (new_engine sample_conditions None, sample_clock) = Inr (e, clk)
    \<and> set (map sn_symbol (es_symbols (take_snapshot e))) = {''BTC'', ''ETH''}"
proof -
  obtain e clk where run: "process_all sample_messages (new_engine sample_conditions None, sample_clock) = Inr (e, clk)"
    by (rule sample_engine)
  have "sample_messages \<noteq> []" by (simp add: sample_messages_def)
  from snapshot_sound [OF run this] have "set (map sn_symbol (es_symbols (take_snapshot e))) = set (map name_of sample_messages)"
    by blast
  then show ?thesis using run unfolding sample_names by auto
qed

theorem engine_recording_witness:
  "\<exists>lg0 dk0 e clk lg dk rd. process_all sample_messages (new_engine [] (Some (lg0, dk0)), sample_clock) = Inr (e, clk)
    \<and> en_recorder e = Some (lg, dk) \<and> reader_open ''a.bin'' (snd (logger_close lg dk)) new_reader = (True, rd)
    \<and> fh_record_count (rd_header rd) = 3"
proof -
  obtain lg0 dk0 where o: "disk_space dk0 = disk_space sample_disk - file_header_size"
    "recording_open ''a.bin'' (wall_reading sample_clock (wall_count sample_clock)) [] (lg0, dk0, snd (wall_us sample_clock))"
    using logger_open_spec [of sample_disk "''a.bin''" sample_clock]
    by (auto simp: sample_disk_def file_header_size_def)
  then have ro: "recording_open ''a.bin'' (wall_reading sample_clock (wall_count sample_clock)) [] (lg0, dk0, clk)" for clk
    by (simp add: recording_open_def)
  have "list_all applicable sample_messages" by code_simp
  then have "ok (process_all sample_messages (new_engine [] (Some (lg0, dk0)), sample_clock))"
    by (simp add: engine_defined)
  then obtain e clk where run: "process_all sample_messages (new_engine [] (Some (lg0, dk0)), sample_clock) = Inr (e, clk)"
    by (metis okE prod.collapse)
  have "list_all wf_update (depths sample_messages)" "length (depths sample_messages) = 3" by code_simp+
  moreover from this have "length (depths sample_messages) * entry_size \<le> disk_space dk0"
    by (simp add: o(1) sample_disk_def file_header_size_def entry_size_def)
  ultimately show ?thesis using engine_recording [OF run ro] run by fastforce
qed

theorem processed_exactly_once_witness:
  "\<exists>accepted result q. run_thread (try_push QUEUE_CAPACITY) (try_pop id QUEUE_CAPACITY) handle (map Produce sample_messages)
      8192 (spsc_new QUEUE_CAPACITY new_message) sample_world = Inr (accepted, result)
    \<and> accepted = sample_messages \<and> q_items QUEUE_CAPACITY q = []
    \<and> result = Some (bind_res (fold_res handle sample_messages sample_world) (\<lambda>w. Inr (q, w)))"
proof -
  have v: "valid_capacity QUEUE_CAPACITY" by (simp add: valid_capacity_def QUEUE_CAPACITY_def)
  have "length sample_messages \<le> unat QUEUE_CAPACITY - 1" by (simp add: sample_messages_def QUEUE_CAPACITY_def)
  then obtain q' where "run_schedule (try_push QUEUE_CAPACITY) (try_pop id QUEUE_CAPACITY) handle (map Produce sample_messages)
      (spsc_new QUEUE_CAPACITY new_message, sample_world, []) = Inr (q', sample_world, sample_messages)"
    using ring.burst_accepted [OF ring_new [OF v], of new_message sample_messages id handle sample_world "[]"]
    by (auto simp: q_new_items)
  then have run: "run_thread (try_push QUEUE_CAPACITY) (try_pop id QUEUE_CAPACITY) handle (map Produce sample_messages)
      8192 (spsc_new QUEUE_CAPACITY new_message) sample_world
    = Inr (sample_messages, drain (try_pop id QUEUE_CAPACITY) handle 8192 q' sample_world)"
    by (simp add: run_thread_def)
  from processed_exactly_once [OF this] show ?thesis using run by auto
qed

end
