(* ===== verification/Feed_Parser.thy ===== *)
theory Feed_Parser
  imports Processing_Thread
begin

text \<open>
  \<open>src/feed/depth_parser.h\<close>, \<open>depth_parser.cpp\<close>, \<open>trade_parser.h\<close> and \<open>trade_parser.cpp\<close>: from the
  text of a message to the structures of the engine. The JSON library (simdjson) is not
  part of the repository: it is the parameter \<open>json_lib\<close> of the model. The conversion of
  price strings is the C library's \<open>strtod\<close>, which is modelled.
\<close>

section \<open>The C library: strtod\<close>

definition code_of :: "char \<Rightarrow> nat" where "code_of c = of_char c"

definition is_space :: "char \<Rightarrow> bool" where
  "is_space c = (code_of c = 32 \<or> 9 \<le> code_of c \<and> code_of c \<le> 13)"

definition is_digit :: "char \<Rightarrow> bool" where
  "is_digit c = (48 \<le> code_of c \<and> code_of c \<le> 57)"

text \<open>The value of a digit of base at most 16; 16 when the character is none.\<close>

definition digit_value :: "char \<Rightarrow> nat" where
  "digit_value c = (let n = code_of c in
     if 48 \<le> n \<and> n \<le> 57 then n - 48
     else if 97 \<le> n \<and> n \<le> 102 then n - 87
     else if 65 \<le> n \<and> n \<le> 70 then n - 55 else 16)"

definition digit_in :: "nat \<Rightarrow> char \<Rightarrow> bool" where
  "digit_in base c = (digit_value c < base)"

definition lower :: "char \<Rightarrow> char" where
  "lower c = (if 65 \<le> code_of c \<and> code_of c \<le> 90 then char_of (code_of c + 32) else c)"

fun strip_word :: "string \<Rightarrow> string \<Rightarrow> string option" where
  "strip_word [] s = Some s"
| "strip_word (w # ws) [] = None"
| "strip_word (w # ws) (c # s) = (if lower c = w then strip_word ws s else None)"

fun digits_value :: "nat \<Rightarrow> int \<Rightarrow> string \<Rightarrow> int" where
  "digits_value base acc [] = acc"
| "digits_value base acc (c # cs) = digits_value base (acc * int base + int (digit_value c)) cs"

definition take_sign :: "string \<Rightarrow> bool \<times> string" where
  "take_sign s = (case s of c # cs \<Rightarrow> (if c = CHR ''-'' then (True, cs) else if c = CHR ''+'' then (False, cs) else (False, s))
     | [] \<Rightarrow> (False, []))"

text \<open>An exponent part: the marker, a sign, and at least one decimal digit, or nothing.\<close>

definition exponent :: "char \<Rightarrow> string \<Rightarrow> int" where
  "exponent marker s = (case s of
      [] \<Rightarrow> 0
    | c # cs \<Rightarrow> if lower c \<noteq> marker then 0
        else (case take_sign cs of (neg, ds) \<Rightarrow>
          let n = digits_value 10 0 (takeWhile is_digit ds) in if neg then - n else n))"

text \<open>\<open>n * b ^ e\<close> rounded to nearest, for the two bases of the grammar.\<close>

definition scaled :: "bool \<Rightarrow> nat \<Rightarrow> int \<Rightarrow> int \<Rightarrow> double" where
  "scaled neg base n e = mk_double neg
     (if base = 2 then round_mag n 1 e
      else if 0 \<le> e then round_mag (n * 10 ^ nat e) 1 0 else round_mag n (10 ^ nat (- e)) 0)"

text \<open>A mantissa in the given base, with its fraction; \<open>None\<close> when it has no digit.\<close>

definition mantissa :: "nat \<Rightarrow> string \<Rightarrow> (int \<times> nat \<times> string) option" where
  "mantissa base s =
     (let ip = takeWhile (digit_in base) s; r = dropWhile (digit_in base) s;
          fp = (case r of c # cs \<Rightarrow> if c = CHR ''.'' then takeWhile (digit_in base) cs else [] | [] \<Rightarrow> []);
          r' = (case r of c # cs \<Rightarrow> if c = CHR ''.'' then dropWhile (digit_in base) cs else r | [] \<Rightarrow> [])
      in if ip = [] \<and> fp = [] then None else Some (digits_value base 0 (ip @ fp), length fp, r'))"

definition decimal :: "bool \<Rightarrow> string \<Rightarrow> double" where
  "decimal neg s = (case mantissa 10 s of
      None \<Rightarrow> 0
    | Some (n, fracs, rest) \<Rightarrow> scaled neg 10 n (exponent (CHR ''e'') rest - int fracs))"

definition hexadecimal :: "bool \<Rightarrow> string \<Rightarrow> double option" where
  "hexadecimal neg s = (case mantissa 16 s of
      None \<Rightarrow> None
    | Some (n, fracs, rest) \<Rightarrow> Some (scaled neg 2 n (exponent (CHR ''p'') rest - 4 * int fracs)))"

definition strtod :: "string \<Rightarrow> double" where
  "strtod s0 =
     (case take_sign (dropWhile is_space s0) of (neg, s) \<Rightarrow>
      (case strip_word ''inf'' s of Some _ \<Rightarrow> infinity neg
       | None \<Rightarrow>
      (case strip_word ''nan'' s of Some _ \<Rightarrow> mk_double neg (d_mag NaN)
       | None \<Rightarrow>
      (case (case strip_word ''0x'' s of Some hs \<Rightarrow> hexadecimal neg hs | None \<Rightarrow> None) of
         Some d \<Rightarrow> d
       | None \<Rightarrow> decimal neg s))))"

text \<open>\<open>fast_atof\<close> copies at most 31 characters into its buffer.\<close>

definition fast_atof :: "string \<Rightarrow> double" where
  "fast_atof sv = strtod (takeWhile (\<lambda>c. c \<noteq> CHR 0x00) (take 31 sv))"

lemma fast_atof_examples:
  "fast_atof ''50000.10'' = double_lit 5000010 100" "fast_atof ''-1.5e3'' = double_of_int (- 1500)"
  "fast_atof ''0x1.8p3'' = double_of_int 12" "fast_atof ''abc'' = 0" "fast_atof '''' = 0"
  "fast_atof ''  7 '' = double_of_int 7"
  by code_simp+

text \<open>The words \<open>inf\<close> and \<open>nan\<close> are numbers for \<open>strtod\<close>.\<close>

lemma fast_atof_nan: "d_nan (fast_atof ''nan'')" "d_nan (fast_atof ''-NaN'')" "d_inf (fast_atof ''inf'')"
  by code_simp+

section \<open>The JSON library\<close>

text \<open>
  What the parsers ask of it. A document is its text: \<open>jl_valid\<close> says whether
  \<open>parser.iterate\<close> accepts it, the others return the field of a key when it has the type,
  \<open>jl_raw\<close> the text of an object-valued field. An element of an array of levels is an array
  or not, and its first two elements are strings or not.
\<close>

datatype level_json = Not_Array | Pair "string option" "string option"

record json_lib =
  jl_valid :: "string \<Rightarrow> bool"
  jl_raw :: "string \<Rightarrow> string \<Rightarrow> string option"
  jl_string :: "string \<Rightarrow> string \<Rightarrow> string option"
  jl_uint64 :: "string \<Rightarrow> string \<Rightarrow> u64 option"
  jl_bool :: "string \<Rightarrow> string \<Rightarrow> bool option"
  jl_levels :: "string \<Rightarrow> string \<Rightarrow> level_json list option"

fun contains :: "string \<Rightarrow> string \<Rightarrow> bool" where
  "contains pat [] = (pat = [])"
| "contains pat (c # s) = (take (length pat) (c # s) = pat \<or> contains pat s)"

definition quoted :: "string \<Rightarrow> string" where
  "quoted s = CHR 0x22 # s @ [CHR 0x22]"

text \<open>The document inside a combined-stream envelope, or the message itself.\<close>

definition inner_document :: "json_lib \<Rightarrow> string \<Rightarrow> string option" where
  "inner_document jl json =
     (if contains (quoted ''data'') json
      then if jl_valid jl json then jl_raw jl json ''data'' else None
      else Some json)"

definition event_document :: "json_lib \<Rightarrow> string \<Rightarrow> string \<Rightarrow> string option" where
  "event_document jl event json = (case inner_document jl json of
      None \<Rightarrow> None
    | Some doc \<Rightarrow> if jl_valid jl doc \<and> jl_string jl doc ''e'' = Some event then Some doc else None)"

definition or_keep :: "'a option \<Rightarrow> 'a \<Rightarrow> 'a" where
  "or_keep new old = (case new of None \<Rightarrow> old | Some x \<Rightarrow> x)"

section \<open>Depth messages\<close>

text \<open>The loop over the levels: it stops at 64 and skips what is not a pair of strings.\<close>

fun parse_levels :: "level_json list \<Rightarrow> price_level list \<Rightarrow> u16 \<Rightarrow> price_level list \<times> u16" where
  "parse_levels [] levels count = (levels, count)"
| "parse_levels (l # ls) levels count =
     (if MAX_LEVELS \<le> unat count then (levels, count)
      else case l of
          Pair (Some price) (Some qty) \<Rightarrow>
            parse_levels ls (levels[unat count := \<lparr>lv_price = fast_atof price, lv_qty = fast_atof qty\<rparr>]) (count + 1)
        | _ \<Rightarrow> parse_levels ls levels count)"

definition parse_side :: "level_json list option \<Rightarrow> price_level list \<Rightarrow> price_level list \<times> u16" where
  "parse_side field levels = (case field of None \<Rightarrow> (levels, 0) | Some ls \<Rightarrow> parse_levels ls levels 0)"

definition parse_depth :: "json_lib \<Rightarrow> string \<Rightarrow> depth_update \<Rightarrow> bool \<times> depth_update" where
  "parse_depth jl json out = (case event_document jl ''depthUpdate'' json of
      None \<Rightarrow> (False, out)
    | Some doc \<Rightarrow>
       (case parse_side (jl_levels jl doc ''b'') (du_bids out) of (bids, bid_count) \<Rightarrow>
        case parse_side (jl_levels jl doc ''a'') (du_asks out) of (asks, ask_count) \<Rightarrow>
        (True, out\<lparr>du_event_time_ms := or_keep (jl_uint64 jl doc ''E'') (du_event_time_ms out),
                   du_first_update_id := or_keep (jl_uint64 jl doc ''U'') (du_first_update_id out),
                   du_last_update_id := or_keep (jl_uint64 jl doc ''u'') (du_last_update_id out),
                   du_symbol := or_keep (jl_string jl doc ''s'') (du_symbol out),
                   du_bids := bids, du_asks := asks, du_bid_count := bid_count, du_ask_count := ask_count\<rparr>)))"

section \<open>Trade messages\<close>

definition parse_trade :: "json_lib \<Rightarrow> string \<Rightarrow> trade \<Rightarrow> bool \<times> trade" where
  "parse_trade jl json out = (case event_document jl ''trade'' json of
      None \<Rightarrow> (False, out)
    | Some doc \<Rightarrow>
        (True, out\<lparr>tr_event_time_ms := or_keep (jl_uint64 jl doc ''E'') (tr_event_time_ms out),
                   tr_trade_id := or_keep (jl_uint64 jl doc ''t'') (tr_trade_id out),
                   tr_symbol := or_keep (jl_string jl doc ''s'') (tr_symbol out),
                   tr_price := or_keep (map_option fast_atof (jl_string jl doc ''p'')) (tr_price out),
                   tr_quantity := or_keep (map_option fast_atof (jl_string jl doc ''q'')) (tr_quantity out),
                   tr_is_buyer_maker := or_keep (jl_bool jl doc ''m'') (tr_is_buyer_maker out)\<rparr>))"

section \<open>What a parsed update holds\<close>

definition level_pair :: "level_json \<Rightarrow> price_level option" where
  "level_pair l = (case l of
      Pair (Some price) (Some qty) \<Rightarrow> Some \<lparr>lv_price = fast_atof price, lv_qty = fast_atof qty\<rparr>
    | _ \<Rightarrow> None)"

definition valid_levels :: "level_json list option \<Rightarrow> price_level list" where
  "valid_levels field = (case field of None \<Rightarrow> [] | Some ls \<Rightarrow> List.map_filter level_pair ls)"

lemma parse_levels_spec:
  assumes "length levels = MAX_LEVELS" "unat count \<le> MAX_LEVELS"
  shows "case parse_levels ls levels count of (levels', count') \<Rightarrow>
    length levels' = MAX_LEVELS \<and> unat count' = min MAX_LEVELS (unat count + length (List.map_filter level_pair ls))
    \<and> take (unat count') levels' = take MAX_LEVELS (take (unat count) levels @ List.map_filter level_pair ls)"
  using assms
proof (induction ls levels count rule: parse_levels.induct)
  case (1 levels count)
  then show ?case by (simp add: List.map_filter_def)
next
  case (2 l ls levels count)
  show ?case
  proof (cases "MAX_LEVELS \<le> unat count")
    case True
    then show ?thesis using 2 by simp
  next
    case False
    show ?thesis
    proof (cases "level_pair l")
      case None
      then have "parse_levels (l # ls) levels count = parse_levels ls levels count"
        using False by (auto simp: level_pair_def split: level_json.splits option.splits)
      moreover have "List.map_filter level_pair (l # ls) = List.map_filter level_pair ls" using None by (simp add: List.map_filter_def)
      ultimately show ?thesis using 2 False None
        by (auto simp: level_pair_def split: level_json.splits option.splits)
    next
      case (Some lv)
      then obtain price qty where l: "l = Pair (Some price) (Some qty)" "lv = \<lparr>lv_price = fast_atof price, lv_qty = fast_atof qty\<rparr>"
        by (auto simp: level_pair_def split: level_json.splits option.splits)
      have c: "unat (count + 1) = Suc (unat count)"
        using False by (simp add: unat_word_ariths MAX_LEVELS_def)
      have t: "take (Suc (unat count)) (levels[unat count := lv]) = take (unat count) levels @ [lv]"
        using False 2 by (simp add: take_Suc_conv_app_nth)
      show ?thesis
        using 2(4) [OF False l(1) refl refl] 2(5,6) False c t
        by (simp add: l(1) l(2) [symmetric] List.map_filter_simps(1) Some [unfolded l(1)])
    qed
  qed
qed

lemma parse_side_spec:
  assumes "length levels = MAX_LEVELS" "parse_side field levels = (levels', count)"
  shows "length levels' = MAX_LEVELS" "unat count \<le> MAX_LEVELS"
    "take (unat count) levels' = take MAX_LEVELS (valid_levels field)"
proof -
  have "length levels' = MAX_LEVELS \<and> unat count \<le> MAX_LEVELS
    \<and> take (unat count) levels' = take MAX_LEVELS (valid_levels field)"
  proof (cases field)
    case None
    then show ?thesis using assms by (auto simp: parse_side_def valid_levels_def)
  next
    case (Some ls)
    then have "parse_levels ls levels 0 = (levels', count)" using assms(2) by (simp add: parse_side_def)
    then show ?thesis using parse_levels_spec [OF assms(1), of 0 ls] by (auto simp: Some valid_levels_def)
  qed
  then show "length levels' = MAX_LEVELS" "unat count \<le> MAX_LEVELS"
    "take (unat count) levels' = take MAX_LEVELS (valid_levels field)" by blast+
qed

lemma parse_depth_cases:
  assumes "parse_depth jl json out = (True, u)"
  obtains doc bids bid_count asks ask_count where "event_document jl ''depthUpdate'' json = Some doc"
    "parse_side (jl_levels jl doc ''b'') (du_bids out) = (bids, bid_count)"
    "parse_side (jl_levels jl doc ''a'') (du_asks out) = (asks, ask_count)"
    "du_bids u = bids" "du_asks u = asks" "du_bid_count u = bid_count" "du_ask_count u = ask_count"
  using assms unfolding parse_depth_def by (auto split: option.splits prod.splits)

lemma parse_depth_fails: "parse_depth jl json out = (False, u) \<Longrightarrow> u = out"
  by (auto simp: parse_depth_def split: option.splits prod.splits)

lemma parse_depth_levels:
  assumes "length (du_bids out) = MAX_LEVELS" "length (du_asks out) = MAX_LEVELS"
    and "parse_depth jl json out = (True, u)"
  shows "\<exists>doc. event_document jl ''depthUpdate'' json = Some doc \<and> wf_update u
    \<and> counted_bids u = take MAX_LEVELS (valid_levels (jl_levels jl doc ''b''))
    \<and> counted_asks u = take MAX_LEVELS (valid_levels (jl_levels jl doc ''a''))"
  using assms(3)
proof (rule parse_depth_cases)
  fix doc bids bid_count asks ask_count
  assume *: "event_document jl ''depthUpdate'' json = Some doc"
    "parse_side (jl_levels jl doc ''b'') (du_bids out) = (bids, bid_count)"
    "parse_side (jl_levels jl doc ''a'') (du_asks out) = (asks, ask_count)"
    "du_bids u = bids" "du_asks u = asks" "du_bid_count u = bid_count" "du_ask_count u = ask_count"
  show ?thesis
    using * parse_side_spec [OF assms(1) *(2)] parse_side_spec [OF assms(2) *(3)]
    by (auto simp: wf_update_def counted_bids_def counted_asks_def)
qed

text \<open>C33: a parsed depth message fills the fixed arrays within their bounds, and what it counts on each
  side is the first 64 of the elements that are pairs of strings, in the order of the message.\<close>

theorem parsed_depth:
  assumes "length (du_bids out) = MAX_LEVELS" "length (du_asks out) = MAX_LEVELS"
    and "parse_depth jl json out = (True, u)"
  shows "\<exists>doc. event_document jl ''depthUpdate'' json = Some doc \<and> wf_update u
    \<and> counted_bids u = take MAX_LEVELS (valid_levels (jl_levels jl doc ''b''))
    \<and> counted_asks u = take MAX_LEVELS (valid_levels (jl_levels jl doc ''a''))"
  by (rule parse_depth_levels [OF assms])

section \<open>Which price strings are not numbers\<close>

lemma rounded_not_nan: "0 \<le> n \<Longrightarrow> 0 < d \<Longrightarrow> \<not> d_nan (mk_double neg (round_mag n d e))"
  using min_inf_rnd [of "of_int n / of_int d * 2 powi e"] by (intro mk_double_finite) (simp_all add: round_mag_rnd)

lemma digits_value_nonneg: "0 \<le> acc \<Longrightarrow> 0 \<le> digits_value base acc s"
  by (induction base acc s rule: digits_value.induct) simp_all

lemma scaled_not_nan: "0 \<le> n \<Longrightarrow> \<not> d_nan (scaled neg base n e)"
  by (simp add: scaled_def rounded_not_nan)

lemma mantissa_nonneg: "mantissa base s = Some (n, fracs, rest) \<Longrightarrow> 0 \<le> n"
  by (auto simp: mantissa_def Let_def digits_value_nonneg split: if_splits)

definition reads_nan :: "string \<Rightarrow> bool" where
  "reads_nan sv =
     (let s = snd (take_sign (dropWhile is_space (takeWhile (\<lambda>c. c \<noteq> CHR 0x00) (take 31 sv))))
      in strip_word ''nan'' s \<noteq> None)"

lemma nan_not_inf: "strip_word ''nan'' s \<noteq> None \<Longrightarrow> strip_word ''inf'' s = None"
  by (cases s) (auto split: if_splits)

lemma fast_atof_nan_iff: "d_nan (fast_atof sv) = reads_nan sv"
proof -
  obtain neg s where s: "take_sign (dropWhile is_space (takeWhile (\<lambda>c. c \<noteq> CHR 0x00) (take 31 sv))) = (neg, s)"
    by fastforce
  have i: "\<not> d_nan (infinity neg)" by (simp add: infinity_def d_nan_def inf_mag_def)
  have "inf_mag < d_mag NaN" by code_simp
  then have n: "d_nan (mk_double neg (d_mag NaN))" by (simp add: d_nan_def d_mag_mk [OF d_mag_nonneg d_mag_less])
  have d: "\<not> d_nan (decimal neg s)"
    by (auto simp: decimal_def scaled_not_nan mantissa_nonneg split: option.split prod.split)
  have h: "\<not> d_nan r" if "hexadecimal neg t = Some r" for t r
    using that by (auto simp: hexadecimal_def scaled_not_nan mantissa_nonneg split: option.splits prod.splits)
  show ?thesis
    using nan_not_inf [of s] i n d
    by (auto simp: fast_atof_def strtod_def reads_nan_def s split: option.split dest: h)
qed

text \<open>C34: the parser lets NaN prices through: applying a parsed update is undefined exactly when one of
  the first 64 pairs of a side has a price string that \<open>strtod\<close> reads as NaN.\<close>

theorem parsed_update_applicable:
  assumes "length (du_bids out) = MAX_LEVELS" "length (du_asks out) = MAX_LEVELS"
    and "parse_depth jl json out = (True, u)" "event_document jl ''depthUpdate'' json = Some doc"
  shows "ok (apply_update u b) \<longleftrightarrow>
     \<not> list_ex (\<lambda>l. d_nan (lv_price l)) (take MAX_LEVELS (valid_levels (jl_levels jl doc ''b'')))
   \<and> \<not> list_ex (\<lambda>l. d_nan (lv_price l)) (take MAX_LEVELS (valid_levels (jl_levels jl doc ''a'')))"
  using parse_depth_levels [OF assms(1-3)] assms(4) by (auto simp: apply_update_defined wf_update_def)

section \<open>Concrete messages\<close>

text \<open>A JSON library for two documents: a depth message with a NaN price, and a trade.\<close>

definition sample_doc :: string where "sample_doc = ''D''"
definition sample_trade_doc :: string where "sample_trade_doc = quoted ''trade''"

definition sample_json :: json_lib where
  "sample_json = \<lparr>jl_valid = (\<lambda>d. d = sample_doc \<or> d = sample_trade_doc), jl_raw = (\<lambda>d k. None),
     jl_string = (\<lambda>d k. if k = ''e'' then Some (if d = sample_doc then ''depthUpdate'' else ''trade'')
        else if k = ''s'' then Some ''BTC'' else if k = ''p'' then Some ''101.5'' else Some ''2''),
     jl_uint64 = (\<lambda>d k. Some 1), jl_bool = (\<lambda>d k. Some True),
     jl_levels = (\<lambda>d k. Some (if k = ''b'' then [Pair (Some ''100'') (Some ''1''), Not_Array, Pair None None,
         Pair (Some ''99'') (Some ''0x2'')] else [Pair (Some ''nan'') (Some ''1'')]))\<rparr>"

lemma sample_parse:
  "fst (parse_depth sample_json sample_doc new_update)"
  "event_document sample_json ''depthUpdate'' sample_doc = Some sample_doc"
  "length (du_bids new_update) = MAX_LEVELS" "length (du_asks new_update) = MAX_LEVELS"
  by code_simp+

theorem parsed_depth_witness:
  "\<exists>u. parse_depth sample_json sample_doc new_update = (True, u)
    \<and> counted_bids u = [\<lparr>lv_price = double_of_int 100, lv_qty = 1\<rparr>, \<lparr>lv_price = double_of_int 99, lv_qty = double_of_int 2\<rparr>]"
proof -
  obtain u where u: "parse_depth sample_json sample_doc new_update = (True, u)"
    using sample_parse(1) by (metis prod.collapse)
  have "take MAX_LEVELS (valid_levels (jl_levels sample_json sample_doc ''b''))
      = [\<lparr>lv_price = double_of_int 100, lv_qty = 1\<rparr>, \<lparr>lv_price = double_of_int 99, lv_qty = double_of_int 2\<rparr>]"
    by code_simp
  then show ?thesis
    using parsed_depth [OF sample_parse(3,4) u] u sample_parse(2) by auto
qed

theorem parsed_update_applicable_witness:
  "\<exists>u. parse_depth sample_json sample_doc new_update = (True, u) \<and> \<not> ok (apply_update u (new_book ''BTC''))"
proof -
  obtain u where u: "parse_depth sample_json sample_doc new_update = (True, u)"
    using sample_parse(1) by (metis prod.collapse)
  have "list_ex (\<lambda>l. d_nan (lv_price l)) (take MAX_LEVELS (valid_levels (jl_levels sample_json sample_doc ''a'')))"
    by code_simp
  then show ?thesis
    using parsed_update_applicable [OF sample_parse(3,4) u sample_parse(2)] u by blast
qed

end
