(* ===== verification/Replay_Engine.thy ===== *)
theory Replay_Engine
  imports Processing_Thread
begin

text \<open>
  \<open>src/replay/replay_engine.h\<close> and \<open>replay_engine.cpp\<close>: the thread that feeds a recording to
  the queue in place of the live feed. Its loop is a step relation that interleaves it
  with the processing thread and with the calls that pause it, resume it, change its
  speed and stop it. The lemmas say that nothing is lost, duplicated or reordered on the
  way, and that a replayed recording rebuilds the books of the session it was made in.
\<close>

section \<open>State\<close>

datatype playback_speed = REALTIME | FAST_2X | FAST_5X | MAX_SPEED

record replay =
  rp_reader :: reader
  rp_speed :: playback_speed
  rp_paused :: bool
  rp_finished :: bool
  rp_replayed :: u64
  rp_total :: u64
  rp_prev_wall :: u64

definition new_replay :: replay where
  "new_replay = \<lparr>rp_reader = new_reader, rp_speed = REALTIME, rp_paused = False, rp_finished = False,
     rp_replayed = 0, rp_total = 0, rp_prev_wall = 0\<rparr>"

definition replay_load :: "string \<Rightarrow> disk \<Rightarrow> replay \<Rightarrow> bool \<times> replay" where
  "replay_load path dk r = (case reader_open path dk (rp_reader r) of
      (False, rd) \<Rightarrow> (False, r\<lparr>rp_reader := rd\<rparr>)
    | (True, rd) \<Rightarrow> (True, r\<lparr>rp_reader := rd, rp_total := ucast (fh_record_count (rd_header rd))\<rparr>))"

text \<open>\<open>start\<close> resets the counters; \<open>prev_wall_us\<close> is a local of \<open>run\<close> that starts at 0.\<close>

definition replay_start :: "replay \<Rightarrow> replay" where
  "replay_start r = r\<lparr>rp_finished := False, rp_replayed := 0, rp_prev_wall := 0\<rparr>"

definition replay_stop :: "replay \<Rightarrow> replay" where
  "replay_stop r = r\<lparr>rp_paused := False, rp_reader := reader_close (rp_reader r)\<rparr>"

definition pause :: "replay \<Rightarrow> replay" where "pause r = r\<lparr>rp_paused := True\<rparr>"
definition resume :: "replay \<Rightarrow> replay" where "resume r = r\<lparr>rp_paused := False\<rparr>"
definition set_speed :: "playback_speed \<Rightarrow> replay \<Rightarrow> replay" where "set_speed s r = r\<lparr>rp_speed := s\<rparr>"

definition speed_code :: "playback_speed \<Rightarrow> nat" where
  "speed_code s = (case s of REALTIME \<Rightarrow> 0 | FAST_2X \<Rightarrow> 1 | FAST_5X \<Rightarrow> 2 | MAX_SPEED \<Rightarrow> 3)"

text \<open>The factor \<open>set_speed\<close> writes to the log.\<close>

definition logged_speed :: "playback_speed \<Rightarrow> int" where
  "logged_speed s = (if s = MAX_SPEED then 0 else 2 ^ speed_code s)"

definition speed_divisor :: "playback_speed \<Rightarrow> double" where
  "speed_divisor s = (case s of REALTIME \<Rightarrow> double_of_int 1 | FAST_2X \<Rightarrow> double_of_int 2
     | FAST_5X \<Rightarrow> double_of_int 5 | MAX_SPEED \<Rightarrow> 0)"

text \<open>The speed written to the log is the one in force except at \<open>FAST_5X\<close>, where the log says 4.\<close>

lemma logged_speed_wrong:
  "logged_speed FAST_5X = 4" "speed_divisor FAST_5X = double_of_int 5"
  "s \<noteq> FAST_5X \<Longrightarrow> speed_divisor s = double_of_int (logged_speed s)"
proof -
  show "logged_speed FAST_5X = 4" "speed_divisor FAST_5X = double_of_int 5"
    by (simp_all add: logged_speed_def speed_code_def speed_divisor_def)
  have "double_of_int 0 = 0" by (simp add: double_of_int_def round_mag_def zero_double_def)
  then show "s \<noteq> FAST_5X \<Longrightarrow> speed_divisor s = double_of_int (logged_speed s)"
    by (cases s) (simp_all add: logged_speed_def speed_code_def speed_divisor_def)
qed

section \<open>One record\<close>

text \<open>How long the thread sleeps before the record, in microseconds.\<close>

definition replay_delay :: "playback_speed \<Rightarrow> u64 \<Rightarrow> u64 \<Rightarrow> int res" where
  "replay_delay s prev_us rec_us =
     (if 0 < speed_divisor s \<and> 0 < prev_us \<and> prev_us < rec_us
      then double_to_uint 64 (double_of_int (uint (rec_us - prev_us)) / speed_divisor s) else Inr 0)"

definition replay_message :: "depth_update \<Rightarrow> clock \<Rightarrow> queue_message \<times> clock" where
  "replay_message u clk =
     (case now clk of (t, clk) \<Rightarrow>
      case now clk of (t', clk) \<Rightarrow>
      (new_message\<lparr>msg_type := DEPTH_UPDATE,
         msg_depth := u\<lparr>du_received := t, du_parsed := t, du_enqueued := t'\<rparr>\<rparr>, clk))"

text \<open>The body of the loop up to the push: the message, if any, and the time slept.\<close>

definition replay_next :: "replay \<Rightarrow> clock \<Rightarrow> (replay \<times> (queue_message \<times> int) option \<times> clock) res" where
  "replay_next r clk =
     (case read_next (rp_reader r) of
        (None, rd) \<Rightarrow> Inr (r\<lparr>rp_reader := rd, rp_finished := True\<rparr>, None, clk)
      | (Some (rec, hdr), rd) \<Rightarrow>
          bind_res (replay_delay (rp_speed r) (rp_prev_wall r) (rh_wall_timestamp_us hdr)) (\<lambda>sleep.
          bind_res (from_record rec) (\<lambda>u.
          case replay_message u clk of (m, clk) \<Rightarrow>
          Inr (r\<lparr>rp_reader := rd, rp_prev_wall := rh_wall_timestamp_us hdr\<rparr>, Some (m, sleep), clk))))"

definition count_replayed :: "replay \<Rightarrow> replay" where
  "count_replayed r = r\<lparr>rp_replayed := rp_replayed r + 1\<rparr>"

section \<open>The threads\<close>

text \<open>
  Where the replay thread is: at the head of its loop, spinning on a full queue with a
  message in hand, or returned. \<open>sy_handled\<close> lists the messages the processing thread has
  handled; it does not influence a step.
\<close>

datatype phase = Reading | Pushing queue_message | Returned

record sys =
  sy_replay :: replay
  sy_phase :: phase
  sy_running :: bool
  sy_queue :: "queue_message spsc"
  sy_world :: world
  sy_handled :: "queue_message list"

inductive sys_step :: "(queue_message \<Rightarrow> queue_message) \<Rightarrow> sys \<Rightarrow> sys \<Rightarrow> bool" for moved where
  read: "sy_phase s = Reading \<Longrightarrow> sy_running s \<Longrightarrow> \<not> rp_paused (sy_replay s) \<Longrightarrow>
    replay_next (sy_replay s) (snd (sy_world s)) = Inr (r, Some (m, sleep), clk) \<Longrightarrow>
    sys_step moved s (s\<lparr>sy_replay := r, sy_phase := Pushing m, sy_world := (fst (sy_world s), clk)\<rparr>)"
| eof: "sy_phase s = Reading \<Longrightarrow> sy_running s \<Longrightarrow> \<not> rp_paused (sy_replay s) \<Longrightarrow>
    replay_next (sy_replay s) (snd (sy_world s)) = Inr (r, None, clk) \<Longrightarrow>
    sys_step moved s (s\<lparr>sy_replay := r, sy_phase := Returned\<rparr>)"
| stopped: "sy_phase s = Reading \<Longrightarrow> \<not> sy_running s \<Longrightarrow> sys_step moved s (s\<lparr>sy_phase := Returned\<rparr>)"
| push: "sy_phase s = Pushing m \<Longrightarrow> try_push QUEUE_CAPACITY m (sy_queue s) = (True, q) \<Longrightarrow>
    sys_step moved s (s\<lparr>sy_replay := count_replayed (sy_replay s), sy_phase := Reading, sy_queue := q\<rparr>)"
| give_up: "sy_phase s = Pushing m \<Longrightarrow> try_push QUEUE_CAPACITY m (sy_queue s) = (False, q) \<Longrightarrow>
    \<not> sy_running s \<Longrightarrow> sys_step moved s (s\<lparr>sy_phase := Returned\<rparr>)"
| consume: "try_pop moved QUEUE_CAPACITY (sy_queue s) = Some (m, q) \<Longrightarrow> handle m (sy_world s) = Inr w \<Longrightarrow>
    sys_step moved s (s\<lparr>sy_queue := q, sy_world := w, sy_handled := sy_handled s @ [m]\<rparr>)"
| pausing: "sys_step moved s (s\<lparr>sy_replay := pause (sy_replay s)\<rparr>)"
| resuming: "sys_step moved s (s\<lparr>sy_replay := resume (sy_replay s)\<rparr>)"
| speeding: "sys_step moved s (s\<lparr>sy_replay := set_speed v (sy_replay s)\<rparr>)"
| shutdown: "sys_step moved s (s\<lparr>sy_running := False\<rparr>)"

inductive_cases sys_stepE: "sys_step moved s s'"

definition sys_start :: "replay \<Rightarrow> world \<Rightarrow> sys" where
  "sys_start r w = \<lparr>sy_replay = replay_start r, sy_phase = Reading, sy_running = True,
     sy_queue = spsc_new QUEUE_CAPACITY new_message, sy_world = w, sy_handled = []\<rparr>"

inductive sys_reachable :: "(queue_message \<Rightarrow> queue_message) \<Rightarrow> sys \<Rightarrow> sys \<Rightarrow> bool" for moved s0 where
  start: "sys_reachable moved s0 s0"
| step: "sys_reachable moved s0 s \<Longrightarrow> sys_step moved s s' \<Longrightarrow> sys_reachable moved s0 s'"

section \<open>Nothing is lost on the way\<close>

definition in_hand :: "phase \<Rightarrow> queue_message list" where
  "in_hand p = (case p of Pushing m \<Rightarrow> [m] | _ \<Rightarrow> [])"

text \<open>A message that carries the update recorded in an entry. A symbol that the format can hold
  is one that storing leaves as it is.\<close>

definition storable :: "string \<Rightarrow> bool" where
  "storable s = (stored_symbol s = s)"

definition carries :: "queue_message \<Rightarrow> entry \<Rightarrow> bool" where
  "carries m e \<longleftrightarrow> is_depth m \<and> stored (msg_depth m) = stored (snd e) \<and> storable (name_of m)"

text \<open>What the processing thread has handled, what waits for it, and what the reader holds.\<close>

definition underway :: "sys \<Rightarrow> queue_message list" where
  "underway s = sy_handled s @ q_items QUEUE_CAPACITY (sy_queue s) @ in_hand (sy_phase s)"

definition ahead :: "reader \<Rightarrow> entry list \<Rightarrow> bool" where
  "ahead rd es \<longleftrightarrow> rd_open rd \<and> drop (rd_pos rd) (rd_bytes rd) = concat (map entry_bytes es)"

text \<open>
  The invariant over a recording of \<open>es\<close>: the messages underway carry the first \<open>j\<close> entries in
  order, and the entries from \<open>k\<close> on are still ahead of the reader. The two numbers differ
  only after a shutdown made the thread give up the message in hand.
\<close>

definition replay_inv :: "entry list \<Rightarrow> condition list \<Rightarrow> sys \<Rightarrow> bool" where
  "replay_inv es conds s \<longleftrightarrow> ring_inv QUEUE_CAPACITY (sy_queue s)
     \<and> engine_after (new_engine conds None) (sy_handled s) (fst (sy_world s))
     \<and> rp_replayed (sy_replay s) = of_nat (length (sy_handled s) + length (q_items QUEUE_CAPACITY (sy_queue s)))
     \<and> (\<exists>j k. list_all2 carries (underway s) (take j es) \<and> j \<le> k \<and> k \<le> length es
          \<and> (sy_phase s \<noteq> Returned \<longrightarrow> j = k \<and> ahead (rp_reader (sy_replay s)) (drop k es)
              \<and> \<not> rp_finished (sy_replay s))
          \<and> (rp_finished (sy_replay s) \<longrightarrow> j = length es))"

lemma stored_idem: "stored_symbol (stored_symbol s) = stored_symbol s"
proof -
  have "length (stored_symbol s) \<le> 31"
    unfolding stored_symbol_def by (rule le_trans [OF length_takeWhile_le]) simp
  moreover have "\<forall>c\<in>set (stored_symbol s). c \<noteq> CHR 0x00"
    by (auto simp: stored_symbol_def dest: set_takeWhileD)
  ultimately show ?thesis
    unfolding stored_symbol_def [of "stored_symbol s"] by simp
qed

lemma replay_message_carries: "carries (fst (replay_message (stored u) clk)) (t, u)"
  by (simp add: replay_message_def now_def carries_def is_depth_def stored_def stored_idem storable_def name_of_def)

lemma ahead_next:
  assumes "ahead rd (drop k es)" "list_all wf_entry es" "k < length es"
  shows "\<exists>rd'. read_next rd = (Some (read_back (es ! k)), rd') \<and> ahead rd' (drop (Suc k) es)"
proof -
  have d: "drop k es = es ! k # drop (Suc k) es" using assms(3) by (simp add: Cons_nth_drop_Suc)
  have "wf_entry (es ! k)" using assms(2,3) by (simp add: list_all_length)
  from read_next_hit [OF _ _ this, of rd "concat (map entry_bytes (drop (Suc k) es))"]
  show ?thesis using assms(1) by (simp add: ahead_def d)
qed

lemma ahead_end:
  assumes "ahead rd []"
  shows "fst (read_next rd) = None"
proof -
  have "length (rd_bytes rd) - rd_pos rd = 0" using assms unfolding ahead_def by (metis concat.simps(1) length_drop list.size(3) list.simps(8))
  then show ?thesis by (intro read_next_miss) (simp add: entry_size_def)
qed

lemma replay_next_cases:
  assumes "replay_next r clk = Inr (r', x, clk')"
  shows "case x of
      None \<Rightarrow> fst (read_next (rp_reader r)) = None \<and> rp_finished r' \<and> rp_replayed r' = rp_replayed r
    | Some (m, sleep) \<Rightarrow> \<exists>rec hdr u clk0. read_next (rp_reader r) = (Some (rec, hdr), rp_reader r')
        \<and> from_record rec = Inr u \<and> m = fst (replay_message u clk0)
        \<and> rp_finished r' = rp_finished r \<and> rp_replayed r' = rp_replayed r"
proof (cases "read_next (rp_reader r)")
  case (Pair y rd)
  show ?thesis
  proof (cases y)
    case None
    then show ?thesis using assms Pair by (auto simp: replay_next_def)
  next
    case (Some p)
    obtain rec hdr where p: "p = (rec, hdr)" by fastforce
    obtain sleep u where u: "replay_delay (rp_speed r) (rp_prev_wall r) (rh_wall_timestamp_us hdr) = Inr sleep"
      "from_record rec = Inr u"
      using assms by (auto simp: replay_next_def Pair Some p res_simps)
    obtain m clk1 where m: "replay_message u clk = (m, clk1)" by fastforce
    have "\<exists>clk0. m = fst (replay_message u clk0)" using m by (metis fst_conv)
    then show ?thesis using assms u by (auto simp: replay_next_def Pair Some p m)
  qed
qed

lemma list_all2_take_Suc:
  "list_all2 P xs (take k es) \<Longrightarrow> k < length es \<Longrightarrow> P x (es ! k) \<Longrightarrow> list_all2 P (xs @ [x]) (take (Suc k) es)"
  by (simp add: take_Suc_conv_app_nth list_all2_appendI)

lemma replay_inv_start:
  assumes "ahead (rp_reader r) es"
  shows "replay_inv es conds (sys_start r (new_engine conds None, clk))"
proof -
  have v: "valid_capacity QUEUE_CAPACITY" by (simp add: valid_capacity_def QUEUE_CAPACITY_def)
  show ?thesis
    using assms ring_new [OF v]
    by (auto simp: replay_inv_def sys_start_def replay_start_def underway_def in_hand_def q_new_items
        engine_after.none intro!: exI [of _ 0])
qed

text \<open>The invariant at two given places, and what each step does to them.\<close>

definition replay_at :: "entry list \<Rightarrow> condition list \<Rightarrow> nat \<Rightarrow> nat \<Rightarrow> sys \<Rightarrow> bool" where
  "replay_at es conds j k s \<longleftrightarrow> ring_inv QUEUE_CAPACITY (sy_queue s)
     \<and> engine_after (new_engine conds None) (sy_handled s) (fst (sy_world s))
     \<and> rp_replayed (sy_replay s) = of_nat (length (sy_handled s) + length (q_items QUEUE_CAPACITY (sy_queue s)))
     \<and> list_all2 carries (underway s) (take j es) \<and> j \<le> k \<and> k \<le> length es
     \<and> (sy_phase s \<noteq> Returned \<longrightarrow> j = k \<and> ahead (rp_reader (sy_replay s)) (drop k es) \<and> \<not> rp_finished (sy_replay s))
     \<and> (rp_finished (sy_replay s) \<longrightarrow> j = length es)"

lemma replay_inv_at: "replay_inv es conds s \<longleftrightarrow> (\<exists>j k. replay_at es conds j k s)"
  by (auto simp: replay_inv_def replay_at_def)

lemma read_hit:
  assumes "ahead (rp_reader r) (drop k es)" "list_all wf_entry es" "replay_next r clk = Inr (r', Some (m, sleep), clk')"
  shows "k < length es \<and> carries m (es ! k) \<and> ahead (rp_reader r') (drop (Suc k) es)
    \<and> rp_finished r' = rp_finished r \<and> rp_replayed r' = rp_replayed r"
proof -
  from replay_next_cases [OF assms(3)] obtain rec hdr u clk0 where
    n: "read_next (rp_reader r) = (Some (rec, hdr), rp_reader r')" "from_record rec = Inr u"
      "m = fst (replay_message u clk0)" "rp_finished r' = rp_finished r" "rp_replayed r' = rp_replayed r"
    by auto
  have k: "k < length es"
  proof (rule ccontr)
    assume "\<not> k < length es"
    then have "fst (read_next (rp_reader r)) = None" using assms(1) by (intro ahead_end) simp
    then show False by (simp add: n(1))
  qed
  obtain rd' where "read_next (rp_reader r) = (Some (read_back (es ! k)), rd')" "ahead rd' (drop (Suc k) es)"
    using ahead_next [OF assms(1,2) k] by blast
  then have hit: "ahead (rp_reader r') (drop (Suc k) es)" "rec = to_record (snd (es ! k))"
    by (simp_all add: n(1) read_back_def)
  then have "carries m (es ! k)"
    using n(2,3) replay_message_carries [of "snd (es ! k)" clk0 "fst (es ! k)"] by (simp add: from_to_record)
  then show ?thesis using hit(1) k n(4,5) by simp
qed

lemma replay_at_read:
  assumes "replay_at es conds j k s" "list_all wf_entry es" "sy_phase s = Reading"
    and "replay_next (sy_replay s) clk = Inr (r, Some (m, sleep), clk')"
  shows "replay_at es conds (Suc k) (Suc k) (s\<lparr>sy_replay := r, sy_phase := Pushing m, sy_world := (fst (sy_world s), clk'')\<rparr>)"
proof -
  let ?s' = "s\<lparr>sy_replay := r, sy_phase := Pushing m, sy_world := (fst (sy_world s), clk'')\<rparr>"
  have ph: "j = k" "ahead (rp_reader (sy_replay s)) (drop k es)" "\<not> rp_finished (sy_replay s)"
    using assms(1,3) by (simp_all add: replay_at_def)
  note hit = read_hit [OF ph(2) assms(2,4)]
  then have "list_all2 carries (underway s @ [m]) (take (Suc k) es)"
    using assms(1) ph(1) by (intro list_all2_take_Suc) (auto simp: replay_at_def)
  moreover have "underway ?s' = underway s @ [m]" using assms(3) by (simp add: underway_def in_hand_def)
  ultimately show ?thesis using assms(1) hit ph(3) by (simp add: replay_at_def)
qed

lemma replay_at_eof:
  assumes "replay_at es conds j k s" "list_all wf_entry es" "sy_phase s = Reading"
    and "replay_next (sy_replay s) clk = Inr (r, None, clk')"
  shows "replay_at es conds k k (s\<lparr>sy_replay := r, sy_phase := Returned\<rparr>)"
proof -
  have ph: "j = k" "ahead (rp_reader (sy_replay s)) (drop k es)" using assms(1,3) by (simp_all add: replay_at_def)
  have n: "fst (read_next (rp_reader (sy_replay s))) = None" "rp_replayed r = rp_replayed (sy_replay s)"
    using replay_next_cases [OF assms(4)] by simp_all
  have "\<not> k < length es" using ahead_next [OF ph(2) assms(2)] n(1) by force
  then have "k = length es" using assms(1) by (simp add: replay_at_def)
  moreover have "underway (s\<lparr>sy_replay := r, sy_phase := Returned\<rparr>) = underway s"
    using assms(3) by (simp add: underway_def in_hand_def)
  ultimately show ?thesis using assms(1) ph(1) n(2) by (simp add: replay_at_def)
qed

lemma replay_at_push:
  assumes "replay_at es conds j k s" "sy_phase s = Pushing m" "try_push QUEUE_CAPACITY m (sy_queue s) = (True, q)"
  shows "replay_at es conds j k (s\<lparr>sy_replay := count_replayed (sy_replay s), sy_phase := Reading, sy_queue := q\<rparr>)"
proof -
  have "ring_inv QUEUE_CAPACITY (sy_queue s)" using assms(1) by (simp add: replay_at_def)
  then have q: "ring_inv QUEUE_CAPACITY q" "q_items QUEUE_CAPACITY q = q_items QUEUE_CAPACITY (sy_queue s) @ [m]"
    using ring.push_cases [of QUEUE_CAPACITY "sy_queue s" m] assms(3) by (metis Pair_inject)+
  let ?s' = "s\<lparr>sy_replay := count_replayed (sy_replay s), sy_phase := Reading, sy_queue := q\<rparr>"
  have u: "underway ?s' = underway s" using assms(2) q(2) by (simp add: underway_def in_hand_def)
  show ?thesis using assms(1,2) q unfolding replay_at_def u by (auto simp: count_replayed_def simp del: length_q_items)
qed

lemma replay_at_give_up:
  assumes "replay_at es conds j k s" "sy_phase s = Pushing m"
  shows "replay_at es conds (j - 1) k (s\<lparr>sy_phase := Returned\<rparr>)"
proof -
  let ?s' = "s\<lparr>sy_phase := Returned\<rparr>"
  have "underway s = underway ?s' @ [m]" using assms(2) by (simp add: underway_def in_hand_def)
  then have l2: "list_all2 carries (underway ?s' @ [m]) (take j es)" and le: "j \<le> length es"
    using assms(1) by (simp_all add: replay_at_def)
  then have j: "j = Suc (length (underway ?s'))" by (auto dest: list_all2_lengthD)
  then have "take j es = take (j - 1) es @ [es ! (j - 1)]" using le by (simp add: take_Suc_conv_app_nth)
  moreover have "length (underway ?s') = length (take (j - 1) es)" using j le by simp
  ultimately have "list_all2 carries (underway ?s') (take (j - 1) es)" using l2 list_all2_append by metis
  then show ?thesis using assms by (simp add: replay_at_def)
qed

lemma replay_at_consume:
  assumes "replay_at es conds j k s" "try_pop moved QUEUE_CAPACITY (sy_queue s) = Some (m, q)" "handle m (sy_world s) = Inr w"
  shows "replay_at es conds j k (s\<lparr>sy_queue := q, sy_world := w, sy_handled := sy_handled s @ [m]\<rparr>)"
proof -
  have "ring_inv QUEUE_CAPACITY (sy_queue s)" using assms(1) by (simp add: replay_at_def)
  then have q: "q_items QUEUE_CAPACITY (sy_queue s) = m # q_items QUEUE_CAPACITY q" "ring_inv QUEUE_CAPACITY q"
    using assms(2) by (cases rule: ring.pop_cases [where moved = moved], auto)+
  let ?s' = "s\<lparr>sy_queue := q, sy_world := w, sy_handled := sy_handled s @ [m]\<rparr>"
  have "underway ?s' = underway s" using q(1) by (simp add: underway_def)
  moreover have "engine_after (new_engine conds None) (sy_handled s @ [m]) (fst w)"
    using assms(1,3) by (cases "sy_world s"; cases w) (auto simp: replay_at_def intro: engine_after.one_more)
  ultimately show ?thesis using assms(1) q by (simp add: replay_at_def)
qed

lemma replay_inv_step:
  assumes "replay_inv es conds s" "sys_step moved s s'" "list_all wf_entry es"
  shows "replay_inv es conds s'"
proof -
  obtain j k where at: "replay_at es conds j k s" using assms(1) by (auto simp: replay_inv_at)
  have "\<exists>j k. replay_at es conds j k s'"
    using assms(2)
  proof cases
    case (read r m sleep clk)
    show ?thesis unfolding read(1) using replay_at_read [OF at assms(3) read(2,5)] by blast
  next
    case (eof r clk)
    show ?thesis unfolding eof(1) using replay_at_eof [OF at assms(3) eof(2,5)] by blast
  next
    case (push m q)
    show ?thesis unfolding push(1) using replay_at_push [OF at push(2,3)] by blast
  next
    case (give_up m q)
    show ?thesis unfolding give_up(1) using replay_at_give_up [OF at give_up(2)] by blast
  next
    case (consume m q w)
    show ?thesis unfolding consume(1) using replay_at_consume [OF at consume(2,3)] by blast
  qed (rule exI [of _ j], rule exI [of _ k],
      use at in \<open>auto simp: replay_at_def underway_def in_hand_def pause_def resume_def set_speed_def\<close>)+
  then show ?thesis by (simp add: replay_inv_at)
qed

lemma replay_inv_reachable:
  assumes "sys_reachable moved (sys_start r (new_engine conds None, clk)) s"
    and "ahead (rp_reader r) es" "list_all wf_entry es"
  shows "replay_inv es conds s"
  using assms(1)
proof induction
  case start
  show ?case by (rule replay_inv_start [OF assms(2)])
next
  case (step s s')
  show ?case by (rule replay_inv_step [OF step.IH step.hyps(2) assms(3)])
qed

lemma replay_finished:
  assumes "sys_reachable moved (sys_start r (new_engine conds None, clk)) s"
    and "ahead (rp_reader r) es" "list_all wf_entry es"
    and "rp_finished (sy_replay s)" "q_empty (sy_queue s)" "sy_phase s = Returned"
  shows "list_all2 carries (sy_handled s) es \<and> rp_replayed (sy_replay s) = of_nat (length es)
    \<and> engine_after (new_engine conds None) (sy_handled s) (fst (sy_world s))"
proof -
  have inv: "replay_inv es conds s" by (rule replay_inv_reachable [OF assms(1-3)])
  then have "q_items QUEUE_CAPACITY (sy_queue s) = []"
    using assms(5) q_empty_iff by (auto simp: replay_inv_def ring_inv_def)
  then have u: "underway s = sy_handled s" using assms(6) by (simp add: underway_def in_hand_def)
  then have "list_all2 carries (sy_handled s) es" using inv assms(4) by (auto simp: replay_inv_def)
  then show ?thesis using inv \<open>q_items QUEUE_CAPACITY (sy_queue s) = []\<close>
    by (auto simp: replay_inv_def dest: list_all2_lengthD)
qed

lemma load_recording:
  assumes "map_of (disk_files dk) path = Some (recording h es)" "fh_magic h = FILE_MAGIC" "fh_version h = FILE_VERSION"
    and "replay_load path dk new_replay = (True, r)"
  shows "ahead (rp_reader r) es"
proof -
  have bs: "map_of (disk_files dk) path = Some (enc_file_header h @ concat (map entry_bytes es))"
    using assms(1) by (simp add: recording_def)
  note o = reader_open_Some [OF bs valid_recording [OF assms(2,3)]]
  show ?thesis using assms(4)
    by (auto simp: replay_load_def o ahead_def file_hdr.length_enc file_header_size_def)
qed

text \<open>However the replay, the consumer, pauses, speed changes and a full queue interleave, when
  the replay has reached the end of a recording and the queue is drained, the engine has
  handled one message per record, in order, carrying the recorded update.\<close>

theorem replay_exactly_once:
  assumes "map_of (disk_files dk) path = Some (recording h es)" "fh_magic h = FILE_MAGIC" "fh_version h = FILE_VERSION"
    and "list_all wf_entry es" "replay_load path dk new_replay = (True, r)"
    and "sys_reachable moved (sys_start r (new_engine conds None, clk)) s"
    and "rp_finished (sy_replay s)" "q_empty (sy_queue s)" "sy_phase s = Returned"
  shows "list_all2 carries (sy_handled s) es \<and> rp_replayed (sy_replay s) = of_nat (length es)"
  using replay_finished [OF assms(6) load_recording [OF assms(1,2,3,5)] assms(4,7-9)] by blast

section \<open>A replay rebuilds the books\<close>

text \<open>The book depends on an update only through its levels, counts and identifiers.\<close>

lemma apply_update_stored: "apply_update (stored u) b = apply_update u b"
  by (simp add: apply_update_def stored_def)

lemma same_books:
  assumes "map stored us = map stored vs"
  shows "book_run us b = book_run vs b" "book_trace us b = book_trace vs b"
  using assms
proof (induction us arbitrary: vs b)
  case Nil
  { case 1 then show ?case by simp }
  { case 2 then show ?case by simp }
next
  case (Cons u us)
  have step: "apply_update u b = apply_update v b" if "stored u = stored v" for v b
    using apply_update_stored that by metis
  { case 1
    then obtain v vs' where v: "vs = v # vs'" "stored u = stored v" "map stored us = map stored vs'" by auto
    then show ?case using step [OF v(2)] Cons.IH(1) [OF v(3)] by (cases "apply_update v b") simp_all }
  { case 2
    then obtain v vs' where v: "vs = v # vs'" "stored u = stored v" "map stored us = map stored vs'" by auto
    then show ?case using step [OF v(2)] Cons.IH(2) [OF v(3)] by (cases "apply_update v b") simp_all }
qed

lemma carried_depths:
  assumes "list_all2 carries ms es" "map (stored \<circ> snd) es = map stored us" "list_all (\<lambda>u. storable (du_symbol u)) us"
  shows "map stored (depths (messages_of name ms)) = map stored (filter (\<lambda>u. du_symbol u = name) us)
    \<and> (messages_of name ms = [] \<longleftrightarrow> filter (\<lambda>u. du_symbol u = name) us = [])"
  using assms
proof (induction ms arbitrary: es us)
  case Nil
  then show ?case by (simp add: messages_of_def depths_def)
next
  case (Cons m ms)
  then obtain e es' where es: "es = e # es'" "carries m e" "list_all2 carries ms es'" by (auto simp: list_all2_Cons1)
  then obtain u us' where us: "us = u # us'" "stored (snd e) = stored u" "map (stored \<circ> snd) es' = map stored us'"
    using Cons.prems(2) unfolding es(1) by (cases us) (auto simp: comp_def)
  have m: "is_depth m" "stored (msg_depth m) = stored u" "storable (name_of m)"
    using es(2) us(2) by (simp_all add: carries_def)
  have "name_of m = du_symbol (msg_depth m)" using m(1) by (simp add: name_of_def is_depth_def)
  moreover have "stored_symbol (du_symbol (msg_depth m)) = stored_symbol (du_symbol u)"
    using arg_cong [OF m(2), of du_symbol] by (simp add: stored_def)
  ultimately have "name_of m = du_symbol u" using m(3) Cons.prems(3) us(1) by (simp add: storable_def)
  then show ?case
    using Cons.IH [OF es(3) us(3)] Cons.prems(3) us(1) m by (simp add: messages_of_def depths_def)
qed

lemma depths_of_symbol: "depths (messages_of name ms) = filter (\<lambda>u. du_symbol u = name) (depths ms)"
  unfolding depths_def messages_of_def
  by (induction ms) (auto simp: name_of_def is_depth_def split: message_type.split)

text \<open>The two engines agree on every symbol of the recording, whatever the clocks and schedules of the
  two runs.\<close>

lemma rebuilt_books:
  assumes live: "engine_after (new_engine conds (Some (lg, dk))) ms e"
    and "\<And>clk. recording_open path created [] (lg, dk, clk)"
    and "list_all wf_update (depths ms)" "length (depths ms) * entry_size \<le> disk_space dk"
    and "list_all (\<lambda>u. storable (du_symbol u)) (depths ms)"
  obtains lg' dk' es h where "en_recorder e = Some (lg', dk')"
    "map_of (disk_files (snd (logger_close lg' dk'))) path = Some (recording h es)"
    "fh_magic h = FILE_MAGIC" "fh_version h = FILE_VERSION" "fh_record_count h = of_nat (length (depths ms))"
    "list_all wf_entry es" "map (stored \<circ> snd) es = map stored (depths ms)"
    "\<And>conds' hs e' name. list_all2 carries hs es \<Longrightarrow> engine_after (new_engine conds' None) hs e' \<Longrightarrow>
       name \<in> du_symbol ` set (depths ms) \<Longrightarrow>
       get_order_book name e' = get_order_book name e \<and> get_aggregator name e' = get_aggregator name e"
proof -
  have "recorded path created (disk_space dk) (depths ms) e"
    using assms(2-4) by (intro engine_after_recorded [OF live]) (auto simp: depths_def list_all_iff)
  then obtain lg' dk' es where es: "en_recorder e = Some (lg', dk')" "\<And>clk. recording_open path created es (lg', dk', clk)"
    "map (stored \<circ> snd) es = map stored (depths ms)" "list_all wf_entry es"
    by (auto simp: recorded_def)
  have len: "length es = length (depths ms)" using es(3) by (metis length_map)
  have same: "get_order_book name e' = get_order_book name e \<and> get_aggregator name e' = get_aggregator name e"
    if h: "list_all2 carries hs es" "engine_after (new_engine conds' None) hs e'" "name \<in> du_symbol ` set (depths ms)"
    for conds' hs e' name
  proof -
    let ?us = "filter (\<lambda>u. du_symbol u = name) (depths ms)"
    have c: "map stored (depths (messages_of name hs)) = map stored ?us" "messages_of name hs = [] \<longleftrightarrow> ?us = []"
      using carried_depths [OF h(1) es(3) assms(5)] by blast+
    have ne: "?us \<noteq> []" using h(3) by (auto simp: filter_empty_conv)
    then have "messages_of name ms \<noteq> []" using depths_of_symbol [of name ms] by (auto simp: depths_def)
    then show ?thesis
      using engine_after_books [OF h(2), of name] engine_after_books [OF live, of name]
        same_books [OF c(1), of "new_book name"] c(2) ne
      by (simp add: depths_of_symbol)
  qed
  let ?h = "(new_file_header created)\<lparr>fh_record_count := of_nat (length es)\<rparr>"
  have "map_of (disk_files (snd (logger_close lg' dk'))) path = Some (recording ?h es)"
    using logger_close_spec [OF es(2)] by simp
  with es(1) show thesis
    by (rule that [of lg' dk' ?h es]) (use len es(3,4) same in \<open>simp_all add: new_file_header_def\<close>)
qed

text \<open>Replaying what the recorder wrote rebuilds the session. Whenever a live run with an open
  recorder ends and its file is closed, loaded and replayed to the end, the replaying engine
  holds for every symbol with depth updates the same book and the same aggregates as the
  live engine, whatever the schedules of the two runs; the trades are not part of it.\<close>

theorem replay_rebuilds_books:
  assumes live: "process_all ms (new_engine conds (Some (lg, dk)), clk) = Inr (e, clk')"
    and "\<And>clk. recording_open path created [] (lg, dk, clk)"
    and "list_all wf_update (depths ms)" "length (depths ms) * entry_size \<le> disk_space dk"
    and "list_all (\<lambda>u. storable (du_symbol u)) (depths ms)"
    and rec: "en_recorder e = Some (lg', dk')"
    and "replay_load path (snd (logger_close lg' dk')) new_replay = (True, r)"
    and run: "sys_reachable moved (sys_start r (new_engine conds' None, clk'')) s"
    and "rp_finished (sy_replay s)" "q_empty (sy_queue s)" "sy_phase s = Returned"
    and name: "name \<in> du_symbol ` set (depths ms)"
  shows "get_order_book name (fst (sy_world s)) = get_order_book name e
    \<and> get_aggregator name (fst (sy_world s)) = get_aggregator name e"
proof -
  have r: "engine_after (new_engine conds (Some (lg, dk))) ms e" using process_all_engine_after [OF live] by simp
  obtain h es where es: "map_of (disk_files (snd (logger_close lg' dk'))) path = Some (recording h es)"
    "fh_magic h = FILE_MAGIC" "fh_version h = FILE_VERSION" "list_all wf_entry es"
    "\<And>hs e'. list_all2 carries hs es \<Longrightarrow> engine_after (new_engine conds' None) hs e' \<Longrightarrow>
       get_order_book name e' = get_order_book name e \<and> get_aggregator name e' = get_aggregator name e"
  proof (rule rebuilt_books [OF r assms(2-5)])
    fix lg1 dk1 es h
    assume "en_recorder e = Some (lg1, dk1)" "map_of (disk_files (snd (logger_close lg1 dk1))) path = Some (recording h es)"
      "fh_magic h = FILE_MAGIC" "fh_version h = FILE_VERSION" "list_all wf_entry es"
      and same: "\<And>conds' hs e' name. list_all2 carries hs es \<Longrightarrow> engine_after (new_engine conds' None) hs e' \<Longrightarrow>
        name \<in> du_symbol ` set (depths ms) \<Longrightarrow>
        get_order_book name e' = get_order_book name e \<and> get_aggregator name e' = get_aggregator name e"
    then show thesis using rec by (intro that [of h es] same [OF _ _ name]) simp_all
  qed
  note fin = replay_finished [OF run load_recording [OF es(1-3) assms(7)] es(4) assms(9-11)]
  then show ?thesis by (intro es(5)) auto
qed

section \<open>A replay can always be completed\<close>

lemma sys_reachable_trans: "sys_reachable moved s1 s2 \<Longrightarrow> sys_reachable moved s0 s1 \<Longrightarrow> sys_reachable moved s0 s2"
  by (induction rule: sys_reachable.induct) (auto intro: sys_reachable.intros)

lemma engine_after_windows: "engine_after (new_engine conds rec) ms e \<Longrightarrow> windows_set (e, clk)"
proof (induction arbitrary: clk rule: engine_after.induct)
  case none
  show ?case by (rule windows_set_new)
next
  case (one_more ms e m clk0 e' clk')
  then obtain st where "state_step m (state_of (name_of m) e) = Inr st" "(e', clk') = turn m st (e, clk0)"
    by (auto simp: handle_eq res_simps)
  then have "windows_set (e', clk')" using windows_set_turn [of "(e, clk0)" m st] one_more.IH by simp
  then show ?case by (simp add: windows_set_def)
qed

lemma handle_defined:
  assumes "engine_after (new_engine conds rec) ms e" "applicable m"
  obtains e' clk' where "handle m (e, clk) = Inr (e', clk')"
proof -
  have "ok (handle m (e, clk))"
    using state_step_ok [OF engine_after_windows [OF assms(1)], of m] assms(2) by (simp add: handle_eq)
  then show thesis using that by (metis okE prod.collapse)
qed

definition entry_applicable :: "entry \<Rightarrow> bool" where
  "entry_applicable e = applicable (new_message\<lparr>msg_type := DEPTH_UPDATE, msg_depth := snd e\<rparr>)"

lemma carried_applicable: "entry_applicable (t, u) \<Longrightarrow> applicable (fst (replay_message (stored u) clk))"
  by (simp add: entry_applicable_def applicable_def replay_message_def now_def is_depth_def stored_def
      counted_bids_def counted_asks_def)

lemma entry_applicable_stored: "entry_applicable (t, stored u) = entry_applicable (t', u)"
  by (simp add: entry_applicable_def applicable_def is_depth_def stored_def counted_bids_def counted_asks_def)

lemma applicable_entries:
  assumes "list_all (\<lambda>u. entry_applicable (0, u)) us" "map (stored \<circ> snd) es = map stored us"
  shows "list_all entry_applicable es"
proof -
  have "list_all (\<lambda>u. entry_applicable (0, u)) (map stored us)"
    using assms(1) by (simp add: list_all_iff entry_applicable_stored [where t' = 0])
  then have "list_all (\<lambda>u. entry_applicable (0, u)) (map (stored \<circ> snd) es)" by (simp only: assms(2))
  then have "entry_applicable (0, stored (snd e))" if "e \<in> set es" for e
    using that by (auto simp: list_all_iff)
  then have "entry_applicable e" if "e \<in> set es" for e
    using that entry_applicable_stored by (metis prod.collapse)
  then show ?thesis by (simp add: list_all_iff)
qed

definition idle :: "condition list \<Rightarrow> entry list \<Rightarrow> sys \<Rightarrow> bool" where
  "idle conds es s \<longleftrightarrow> sy_phase s = Reading \<and> sy_running s \<and> \<not> rp_paused (sy_replay s)
     \<and> rp_speed (sy_replay s) = MAX_SPEED \<and> ring_inv QUEUE_CAPACITY (sy_queue s)
     \<and> q_items QUEUE_CAPACITY (sy_queue s) = [] \<and> ahead (rp_reader (sy_replay s)) es
     \<and> engine_after (new_engine conds None) (sy_handled s) (fst (sy_world s))"

text \<open>One record travels through the queue and the engine.\<close>

lemma one_record:
  assumes "idle conds (e # es) s" "wf_entry e" "entry_applicable e"
  shows "\<exists>s'. sys_reachable moved s s' \<and> idle conds es s'"
proof -
  let ?r = "sy_replay s" and ?clk = "snd (sy_world s)"
  have idle: "sy_phase s = Reading" "sy_running s" "\<not> rp_paused ?r" "rp_speed ?r = MAX_SPEED"
    "ring_inv QUEUE_CAPACITY (sy_queue s)" "q_items QUEUE_CAPACITY (sy_queue s) = []" "ahead (rp_reader ?r) (e # es)"
    "engine_after (new_engine conds None) (sy_handled s) (fst (sy_world s))"
    using assms(1) by (simp_all add: idle_def)
  obtain rd where rd: "read_next (rp_reader ?r) = (Some (read_back e), rd)" "ahead rd es"
    using ahead_next [of "rp_reader ?r" 0 "[e]"] read_next_hit [of "rp_reader ?r" e "concat (map entry_bytes es)"] idle(7) assms(2)
    by (auto simp: ahead_def)
  obtain m clk where m: "replay_message (stored (snd e)) ?clk = (m, clk)" by fastforce
  define r1 where "r1 = ?r\<lparr>rp_reader := rd, rp_prev_wall := fst e\<rparr>"
  have n: "replay_next ?r ?clk = Inr (r1, Some (m, 0), clk)"
    by (simp add: replay_next_def rd(1) read_back_def new_record_header_def replay_delay_def idle(4)
        speed_divisor_def from_to_record m r1_def)
  define s1 where "s1 = s\<lparr>sy_replay := r1, sy_phase := Pushing m, sy_world := (fst (sy_world s), clk)\<rparr>"
  have step1: "sys_step moved s s1" unfolding s1_def by (rule sys_step.read [OF idle(1-3) n])
  have "length (q_items QUEUE_CAPACITY (sy_queue s)) < unat QUEUE_CAPACITY - 1"
    by (simp only: idle(6) list.size(3)) (simp add: QUEUE_CAPACITY_def)
  from ring.push_room [OF idle(5) this, of m] obtain q1 where q1: "try_push QUEUE_CAPACITY m (sy_queue s) = (True, q1)"
    "ring_inv QUEUE_CAPACITY q1" "q_items QUEUE_CAPACITY q1 = [m]" using idle(6) by auto
  define s2 where "s2 = s1\<lparr>sy_replay := count_replayed (sy_replay s1), sy_phase := Reading, sy_queue := q1\<rparr>"
  have step2: "sys_step moved s1 s2"
    unfolding s2_def by (rule sys_step.push [of _ m]) (simp_all add: s1_def q1)
  obtain q2 where q2: "try_pop moved QUEUE_CAPACITY q1 = Some (m, q2)" "ring_inv QUEUE_CAPACITY q2" "q_items QUEUE_CAPACITY q2 = []"
    using ring.pop_item [OF q1(2,3)] by blast
  have "applicable m" using carried_applicable [of "fst e" "snd e" ?clk] assms(3) m by simp
  then obtain en clk' where h: "handle m (fst (sy_world s), clk) = Inr (en, clk')" by (rule handle_defined [OF idle(8)])
  define s3 where "s3 = s2\<lparr>sy_queue := q2, sy_world := (en, clk'), sy_handled := sy_handled s2 @ [m]\<rparr>"
  have step3: "sys_step moved s2 s3"
    unfolding s3_def by (rule sys_step.consume) (simp_all add: s2_def s1_def q2 h)
  have "engine_after (new_engine conds None) (sy_handled s @ [m]) en" by (rule engine_after.one_more [OF idle(8) h])
  then have "idle conds es s3"
    using idle rd(2) q2 by (simp add: idle_def s3_def s2_def s1_def r1_def count_replayed_def)
  moreover have "sys_reachable moved s s3"
    using step1 step2 step3 by (meson sys_reachable.intros)
  ultimately show ?thesis by blast
qed

lemma idle_completes:
  assumes "idle conds es s" "list_all wf_entry es" "list_all entry_applicable es"
  shows "\<exists>s'. sys_reachable moved s s' \<and> rp_finished (sy_replay s') \<and> q_empty (sy_queue s') \<and> sy_phase s' = Returned
    \<and> sy_running s'"
  using assms
proof (induction es arbitrary: s)
  case Nil
  have "fst (read_next (rp_reader (sy_replay s))) = None" using Nil(1) by (intro ahead_end) (simp add: idle_def)
  then obtain rd where "read_next (rp_reader (sy_replay s)) = (None, rd)" by (metis prod.collapse)
  then have "replay_next (sy_replay s) (snd (sy_world s))
      = Inr ((sy_replay s)\<lparr>rp_reader := rd, rp_finished := True\<rparr>, None, snd (sy_world s))"
    by (simp add: replay_next_def)
  then have "sys_step moved s (s\<lparr>sy_replay := (sy_replay s)\<lparr>rp_reader := rd, rp_finished := True\<rparr>, sy_phase := Returned\<rparr>)"
    using Nil(1) by (intro sys_step.eof) (simp_all add: idle_def)
  moreover have "q_empty (sy_queue s)" using Nil(1) q_empty_iff [of QUEUE_CAPACITY "sy_queue s"] by (simp add: idle_def ring_inv_def)
  moreover have "sy_running s" using Nil(1) by (simp add: idle_def)
  ultimately show ?case by (intro exI conjI) (rule sys_reachable.step [OF sys_reachable.start], assumption, simp_all)
next
  case (Cons e es)
  obtain s1 where s1: "sys_reachable moved s s1" "idle conds es s1"
    using one_record [OF Cons.prems(1)] Cons.prems(2,3) by auto
  then show ?case using Cons.IH [OF s1(2)] Cons.prems(2,3) by (auto intro: sys_reachable_trans)
qed

lemma start_completes:
  assumes "ahead (rp_reader r) es" "\<not> rp_paused r" "list_all wf_entry es" "list_all entry_applicable es"
  shows "\<exists>s. sys_reachable moved (sys_start r (new_engine conds None, clk)) s \<and> rp_finished (sy_replay s)
    \<and> q_empty (sy_queue s) \<and> sy_phase s = Returned"
proof -
  let ?s0 = "sys_start r (new_engine conds None, clk)"
  have v: "valid_capacity QUEUE_CAPACITY" by (simp add: valid_capacity_def QUEUE_CAPACITY_def)
  have "sys_step moved ?s0 (?s0\<lparr>sy_replay := set_speed MAX_SPEED (sy_replay ?s0)\<rparr>)" by (rule sys_step.speeding)
  then have reach: "sys_reachable moved ?s0 (?s0\<lparr>sy_replay := set_speed MAX_SPEED (sy_replay ?s0)\<rparr>)"
    by (rule sys_reachable.step [OF sys_reachable.start])
  have "idle conds es (?s0\<lparr>sy_replay := set_speed MAX_SPEED (sy_replay ?s0)\<rparr>)"
    using assms(1,2) ring_new [OF v]
    by (simp add: idle_def sys_start_def set_speed_def replay_start_def q_new_items engine_after.none)
  from idle_completes [OF this assms(3,4)] show ?thesis using sys_reachable_trans [OF _ reach] by blast
qed

text \<open>A recording without corrupt records can be replayed to the end: some schedule reaches the
  state in which the replay is finished, its thread has returned and the queue is empty.\<close>

theorem replay_completes:
  assumes "map_of (disk_files dk) path = Some (recording h es)" "fh_magic h = FILE_MAGIC" "fh_version h = FILE_VERSION"
    and "list_all wf_entry es" "list_all entry_applicable es" "replay_load path dk new_replay = (True, r)"
  shows "\<exists>s. sys_reachable moved (sys_start r (new_engine conds None, clk)) s \<and> rp_finished (sy_replay s)
    \<and> q_empty (sy_queue s) \<and> sy_phase s = Returned"
proof (rule start_completes [OF load_recording [OF assms(1-3,6)] _ assms(4,5)])
  show "\<not> rp_paused r" using assms(6) by (auto simp: replay_load_def new_replay_def split: prod.splits bool.splits)
qed

section \<open>Concrete replays\<close>

definition sample_entries :: "entry list" where
  "sample_entries = [(8, sample_update), (9, make_update ''ETH'' [(20, 1)] [(30, 2)])]"

definition recorded_disk :: disk where
  "recorded_disk = sample_disk\<lparr>disk_files := [(''a.bin'', recording (new_file_header 7) sample_entries)]\<rparr>"

lemma recorded_file: "map_of (disk_files recorded_disk) ''a.bin'' = Some (recording (new_file_header 7) sample_entries)"
  by (simp add: recorded_disk_def)

lemma header_valid: "fh_magic (new_file_header t) = FILE_MAGIC" "fh_version (new_file_header t) = FILE_VERSION"
  by (simp_all add: new_file_header_def)

lemma sample_entries_ok: "list_all wf_entry sample_entries" "list_all entry_applicable sample_entries"
  by code_simp+

lemma recorded_load: obtains r where "replay_load ''a.bin'' recorded_disk new_replay = (True, r)"
proof -
  have "map_of (disk_files recorded_disk) ''a.bin'' = Some (enc_file_header (new_file_header 7) @ concat (map entry_bytes sample_entries))"
    using recorded_file by (simp add: recording_def)
  from reader_open_Some [OF this valid_recording [OF header_valid]] show thesis
    by (intro that) (simp add: replay_load_def)
qed

theorem replay_completes_witness:
  "\<exists>r s. replay_load ''a.bin'' recorded_disk new_replay = (True, r)
    \<and> sys_reachable id (sys_start r (new_engine sample_conditions None, sample_clock)) s \<and> rp_finished (sy_replay s)"
proof -
  obtain r where r: "replay_load ''a.bin'' recorded_disk new_replay = (True, r)" by (rule recorded_load)
  from replay_completes [OF recorded_file header_valid sample_entries_ok r, of id sample_conditions sample_clock]
  show ?thesis using r by blast
qed

lemma recorded_finish:
  assumes "replay_load ''a.bin'' recorded_disk new_replay = (True, r)"
  obtains s where "sys_reachable id (sys_start r (new_engine sample_conditions None, sample_clock)) s"
    "rp_finished (sy_replay s)" "q_empty (sy_queue s)" "sy_phase s = Returned"
proof -
  have "\<not> rp_paused r" using assms by (auto simp: replay_load_def new_replay_def split: prod.splits bool.splits)
  from start_completes [OF load_recording [OF recorded_file header_valid assms] this sample_entries_ok, of id sample_conditions sample_clock]
  show thesis using that by blast
qed

theorem replay_exactly_once_witness:
  "\<exists>r s. replay_load ''a.bin'' recorded_disk new_replay = (True, r)
    \<and> sys_reachable id (sys_start r (new_engine sample_conditions None, sample_clock)) s
    \<and> list_all2 carries (sy_handled s) sample_entries \<and> rp_replayed (sy_replay s) = 2"
proof -
  obtain r where r: "replay_load ''a.bin'' recorded_disk new_replay = (True, r)" by (rule recorded_load)
  obtain s where s: "sys_reachable id (sys_start r (new_engine sample_conditions None, sample_clock)) s"
    "rp_finished (sy_replay s)" "q_empty (sy_queue s)" "sy_phase s = Returned"
    by (rule recorded_finish [OF r])
  have "length sample_entries = 2" by (simp add: sample_entries_def)
  with replay_exactly_once [OF recorded_file header_valid sample_entries_ok(1) r s] show ?thesis using r s(1) by auto
qed

text \<open>A live session with two symbols and a trade, recorded, closed, loaded and replayed.\<close>

theorem replay_rebuilds_books_witness:
  "\<exists>lg dk e clk lg' dk' r s. process_all sample_messages (new_engine [] (Some (lg, dk)), sample_clock) = Inr (e, clk)
    \<and> en_recorder e = Some (lg', dk') \<and> replay_load ''a.bin'' (snd (logger_close lg' dk')) new_replay = (True, r)
    \<and> sys_reachable id (sys_start r (new_engine [] None, sample_clock)) s
    \<and> get_order_book ''ETH'' (fst (sy_world s)) = get_order_book ''ETH'' e"
proof -
  obtain lg dk where o: "disk_space dk = disk_space sample_disk - file_header_size"
    "recording_open ''a.bin'' (wall_reading sample_clock (wall_count sample_clock)) [] (lg, dk, snd (wall_us sample_clock))"
    using logger_open_spec [of sample_disk "''a.bin''" sample_clock]
    by (auto simp: sample_disk_def file_header_size_def)
  then have ro: "recording_open ''a.bin'' (wall_reading sample_clock (wall_count sample_clock)) [] (lg, dk, clk)" for clk
    by (simp add: recording_open_def)
  have "list_all applicable sample_messages" by code_simp
  then have "ok (process_all sample_messages (new_engine [] (Some (lg, dk)), sample_clock))"
    by (simp add: engine_defined)
  then obtain e clk where run: "process_all sample_messages (new_engine [] (Some (lg, dk)), sample_clock) = Inr (e, clk)"
    by (metis okE prod.collapse)
  have depths: "list_all wf_update (depths sample_messages)" "length (depths sample_messages) = 3"
    "list_all (\<lambda>u. storable (du_symbol u)) (depths sample_messages)"
    "list_all (\<lambda>u. entry_applicable (0, u)) (depths sample_messages)"
    "list_ex (\<lambda>u. du_symbol u = ''ETH'') (depths sample_messages)" by code_simp+
  then have space: "length (depths sample_messages) * entry_size \<le> disk_space dk"
    by (simp add: o(1) sample_disk_def file_header_size_def entry_size_def)
  have "recorded ''a.bin'' (wall_reading sample_clock (wall_count sample_clock)) (disk_space dk) (depths sample_messages) (fst (e, clk))"
    using space depths(1) by (intro engine_recorded [OF run ro]) (auto simp: depths_def list_all_iff)
  then obtain lg' dk' es where rec: "en_recorder e = Some (lg', dk')"
    "\<And>clk. recording_open ''a.bin'' (wall_reading sample_clock (wall_count sample_clock)) es (lg', dk', clk)"
    "map (stored \<circ> snd) es = map stored (depths sample_messages)" "list_all wf_entry es"
    by (auto simp: recorded_def)
  obtain h where h: "map_of (disk_files (snd (logger_close lg' dk'))) ''a.bin'' = Some (recording h es)"
    "fh_magic h = FILE_MAGIC" "fh_version h = FILE_VERSION"
    using logger_close_spec [OF rec(2)] by (auto simp: new_file_header_def)
  have "map_of (disk_files (snd (logger_close lg' dk'))) ''a.bin'' = Some (enc_file_header h @ concat (map entry_bytes es))"
    using h(1) by (simp add: recording_def)
  from reader_open_Some [OF this valid_recording [OF h(2,3)]]
  obtain r where r: "replay_load ''a.bin'' (snd (logger_close lg' dk')) new_replay = (True, r)" "\<not> rp_paused r"
    by (simp add: replay_load_def new_replay_def)
  have app: "list_all entry_applicable es"
    using depths(4) rec(3) by (rule applicable_entries)
  obtain s where s: "sys_reachable id (sys_start r (new_engine [] None, sample_clock)) s"
    "rp_finished (sy_replay s)" "q_empty (sy_queue s)" "sy_phase s = Returned"
    using start_completes [OF load_recording [OF h r(1)] r(2) rec(4) app, of id "[]" sample_clock] by blast
  have "''ETH'' \<in> du_symbol ` set (depths sample_messages)" using depths(5) unfolding list_ex_iff by (metis image_eqI)
  from replay_rebuilds_books [OF run ro depths(1) space depths(3) rec(1) r(1) s this]
  show ?thesis using run rec(1) r(1) s(1) by blast
qed

end
