(* ===== verification/Feed_Handler.thy ===== *)
theory Feed_Handler
  imports Feed_Parser Replay_Engine "HOL-Library.Sublist"
begin

text \<open>
  \<open>src/feed/feed_handler.h\<close> and \<open>feed_handler.cpp\<close>: the producer of the message queue. A text from
  the network is parsed by the parser its content asks for, stamped and pushed; it is
  counted when it does not parse and when the queue is full. The lemmas follow a live
  session, the feed and the processing thread together, from the texts to the books.
\<close>

section \<open>State\<close>

text \<open>Warnings of the log; informational lines are not modelled.\<close>

datatype feed_warning = Parse_Failed u64 | Dropping u64

record feed =
  fh_msg_count :: u64
  fh_parse_errors :: u64
  fh_queue_full :: u64
  fh_warnings :: "feed_warning list"

definition new_feed :: feed where
  "new_feed = \<lparr>fh_msg_count = 0, fh_parse_errors = 0, fh_queue_full = 0, fh_warnings = []\<rparr>"

section \<open>One message\<close>

text \<open>The message built from a text that was received at \<open>ts_received\<close>, if it parses; the second
  reading of the clock happens only then.\<close>

definition build_message :: "json_lib \<Rightarrow> string \<Rightarrow> int \<Rightarrow> clock \<Rightarrow> queue_message option \<times> clock" where
  "build_message jl json ts_received clk =
     (if contains (quoted ''trade'') json
      then case parse_trade jl json (new_trade\<lparr>tr_received := ts_received\<rparr>) of
          (False, _) \<Rightarrow> (None, clk)
        | (True, t) \<Rightarrow> (case now clk of (ts_parsed, clk) \<Rightarrow>
            (Some (new_message\<lparr>msg_type := TRADE,
               msg_trade := t\<lparr>tr_parsed := ts_parsed, tr_enqueued := ts_parsed\<rparr>\<rparr>), clk))
      else case parse_depth jl json (new_update\<lparr>du_received := ts_received\<rparr>) of
          (False, _) \<Rightarrow> (None, clk)
        | (True, u) \<Rightarrow> (case now clk of (ts_parsed, clk) \<Rightarrow>
            (Some (new_message\<lparr>msg_type := DEPTH_UPDATE,
               msg_depth := u\<lparr>du_parsed := ts_parsed, du_enqueued := ts_parsed\<rparr>\<rparr>), clk)))"

definition warn_feed :: "bool \<Rightarrow> feed_warning \<Rightarrow> feed \<Rightarrow> feed" where
  "warn_feed c w f = (if c then f\<lparr>fh_warnings := fh_warnings f @ [w]\<rparr> else f)"

definition enqueue :: "queue_message \<Rightarrow> feed \<times> queue_message spsc \<Rightarrow> feed \<times> queue_message spsc" where
  "enqueue m fq = (case try_push QUEUE_CAPACITY m (snd fq) of
      (True, q) \<Rightarrow> (fst fq, q)
    | (False, q) \<Rightarrow>
        (let f = (fst fq)\<lparr>fh_queue_full := fh_queue_full (fst fq) + 1\<rparr>
         in (warn_feed (fh_queue_full f mod 100 = 1) (Dropping (fh_queue_full f)) f, q)))"

definition on_message :: "json_lib \<Rightarrow> string \<Rightarrow> feed \<times> queue_message spsc \<times> clock \<Rightarrow> feed \<times> queue_message spsc \<times> clock" where
  "on_message jl json s =
     (case s of (f, q, clk) \<Rightarrow>
      case now clk of (ts_received, clk) \<Rightarrow>
      let count = fh_msg_count f + 1; f = f\<lparr>fh_msg_count := count\<rparr>
      in case build_message jl json ts_received clk of
           (None, clk) \<Rightarrow> (warn_feed (count \<le> 5) (Parse_Failed count) (f\<lparr>fh_parse_errors := fh_parse_errors f + 1\<rparr>), q, clk)
         | (Some m, clk) \<Rightarrow> (case enqueue m (f, q) of (f, q) \<Rightarrow> (f, q, clk)))"

text \<open>What a text means, apart from the clocks: a message without time stamps, if any.\<close>

definition untimed :: "queue_message \<Rightarrow> queue_message" where
  "untimed m = m\<lparr>msg_depth := (msg_depth m)\<lparr>du_received := 0, du_parsed := 0, du_enqueued := 0, du_dequeued := 0\<rparr>,
     msg_trade := (msg_trade m)\<lparr>tr_received := 0, tr_parsed := 0, tr_enqueued := 0, tr_dequeued := 0\<rparr>\<rparr>"

definition parsed_message :: "json_lib \<Rightarrow> string \<Rightarrow> queue_message option" where
  "parsed_message jl json =
     (if contains (quoted ''trade'') json
      then case parse_trade jl json new_trade of
          (False, _) \<Rightarrow> None | (True, t) \<Rightarrow> Some (new_message\<lparr>msg_type := TRADE, msg_trade := t\<rparr>)
      else case parse_depth jl json new_update of
          (False, _) \<Rightarrow> None | (True, u) \<Rightarrow> Some (new_message\<lparr>msg_type := DEPTH_UPDATE, msg_depth := u\<rparr>))"

definition parsed_messages :: "json_lib \<Rightarrow> string list \<Rightarrow> queue_message list" where
  "parsed_messages jl texts = List.map_filter (parsed_message jl) texts"

lemma parsed_messages_snoc:
  "parsed_messages jl (texts @ [t]) = parsed_messages jl texts @ (case parsed_message jl t of None \<Rightarrow> [] | Some m \<Rightarrow> [m])"
  by (simp add: parsed_messages_def List.map_filter_def split: option.split)

lemma parsed_messages_le: "length (parsed_messages jl texts) \<le> length texts"
  by (simp add: parsed_messages_def List.map_filter_def)

lemma build_message_parsed: "map_option untimed (fst (build_message jl json ts clk)) = parsed_message jl json"
proof (cases "contains (quoted ''trade'') json")
  case True
  have "parse_trade jl json (new_trade\<lparr>tr_received := ts\<rparr>)
      = (fst (parse_trade jl json new_trade), (snd (parse_trade jl json new_trade))\<lparr>tr_received := ts\<rparr>)"
    by (simp add: parse_trade_def split: option.split)
  then show ?thesis
    by (cases "parse_trade jl json new_trade")
      (auto simp: build_message_def parsed_message_def True now_def untimed_def new_message_def new_update_def
        parse_trade_def new_trade_def split: option.splits)
next
  case False
  have "parse_depth jl json (new_update\<lparr>du_received := ts\<rparr>)
      = (fst (parse_depth jl json new_update), (snd (parse_depth jl json new_update))\<lparr>du_received := ts\<rparr>)"
    by (simp add: parse_depth_def split: option.split prod.split)
  then show ?thesis
    by (cases "parse_depth jl json new_update")
      (auto simp: build_message_def parsed_message_def False now_def untimed_def new_message_def new_trade_def
        parse_depth_def new_update_def split: option.splits prod.splits)
qed

section \<open>A live session\<close>

text \<open>
  The feed receives a text, or the processing thread takes a turn, in any order. \<open>lp_handled\<close>
  lists the messages the thread has handled and influences nothing.
\<close>

record live =
  lp_feed :: feed
  lp_queue :: "queue_message spsc"
  lp_world :: world
  lp_handled :: "queue_message list"

datatype live_event = Receive string | Turn

fun live_step :: "json_lib \<Rightarrow> (queue_message \<Rightarrow> queue_message) \<Rightarrow> live_event \<Rightarrow> live \<Rightarrow> live res" where
  "live_step jl moved (Receive json) s =
     (case on_message jl json (lp_feed s, lp_queue s, snd (lp_world s)) of
        (f, q, clk) \<Rightarrow> Inr (s\<lparr>lp_feed := f, lp_queue := q, lp_world := (fst (lp_world s), clk)\<rparr>))"
| "live_step jl moved Turn s =
     (case try_pop moved QUEUE_CAPACITY (lp_queue s) of
        None \<Rightarrow> Inr s
      | Some (m, q) \<Rightarrow> bind_res (handle m (lp_world s)) (\<lambda>w.
          Inr (s\<lparr>lp_queue := q, lp_world := w, lp_handled := lp_handled s @ [m]\<rparr>)))"

definition live_run :: "json_lib \<Rightarrow> (queue_message \<Rightarrow> queue_message) \<Rightarrow> live_event list \<Rightarrow> live \<Rightarrow> live res" where
  "live_run jl moved evs s = fold_res (live_step jl moved) evs s"

definition live_start :: "engine \<Rightarrow> clock \<Rightarrow> live" where
  "live_start e clk = \<lparr>lp_feed = new_feed, lp_queue = spsc_new QUEUE_CAPACITY new_message, lp_world = (e, clk), lp_handled = []\<rparr>"

fun texts_of :: "live_event list \<Rightarrow> string list" where
  "texts_of [] = []"
| "texts_of (Receive json # evs) = json # texts_of evs"
| "texts_of (Turn # evs) = texts_of evs"

lemma texts_of_append [simp]: "texts_of (evs @ evs') = texts_of evs @ texts_of evs'"
  by (induction evs rule: texts_of.induct) simp_all

text \<open>What was accepted: handled already, or waiting.\<close>

definition accepted :: "live \<Rightarrow> queue_message list" where
  "accepted s = lp_handled s @ q_items QUEUE_CAPACITY (lp_queue s)"

definition feed_inv :: "queue_message list \<Rightarrow> nat \<Rightarrow> nat \<Rightarrow> feed \<Rightarrow> bool" where
  "feed_inv parsed received taken f \<longleftrightarrow> fh_msg_count f = of_nat received
     \<and> fh_parse_errors f = of_nat (received - length parsed) \<and> fh_queue_full f = of_nat (length parsed - taken)"

definition live_inv :: "json_lib \<Rightarrow> engine \<Rightarrow> string list \<Rightarrow> live \<Rightarrow> bool" where
  "live_inv jl e0 texts s \<longleftrightarrow> ring_inv QUEUE_CAPACITY (lp_queue s)
     \<and> engine_after e0 (lp_handled s) (fst (lp_world s))
     \<and> subseq (map untimed (accepted s)) (parsed_messages jl texts)
     \<and> feed_inv (parsed_messages jl texts) (length texts) (length (accepted s)) (lp_feed s)"

lemma warn_feed_fields [simp]:
  "fh_msg_count (warn_feed c w f) = fh_msg_count f" "fh_parse_errors (warn_feed c w f) = fh_parse_errors f"
  "fh_queue_full (warn_feed c w f) = fh_queue_full f"
  by (simp_all add: warn_feed_def)

lemma live_inv_start: "live_inv jl e (texts_of []) (live_start e clk)"
proof -
  have v: "valid_capacity QUEUE_CAPACITY" by (simp add: valid_capacity_def QUEUE_CAPACITY_def)
  show ?thesis using ring_new [OF v]
    by (simp add: live_inv_def live_start_def accepted_def q_new_items engine_after.none feed_inv_def
        new_feed_def parsed_messages_def List.map_filter_def)
qed

lemma live_inv_receive:
  assumes "live_inv jl e0 texts s" "live_step jl moved (Receive json) s = Inr s'"
  shows "live_inv jl e0 (texts @ [json]) s'"
proof -
  let ?c = "now (snd (lp_world s))" and ?P = "parsed_messages jl texts"
  define f1 where "f1 = (lp_feed s)\<lparr>fh_msg_count := fh_msg_count (lp_feed s) + 1\<rparr>"
  note inv = assms(1) [unfolded live_inv_def feed_inv_def]
  have sub: "length (accepted s) \<le> length ?P" using inv list_emb_length [of "(=)" "map untimed (accepted s)" ?P] by simp
  obtain mo clk where b: "build_message jl json (fst ?c) (snd ?c) = (mo, clk)" by fastforce
  have p: "map_option untimed mo = parsed_message jl json" using build_message_parsed [of jl json "fst ?c" "snd ?c"] by (simp add: b)
  show ?thesis
  proof (cases mo)
    case None
    then have "parsed_messages jl (texts @ [json]) = ?P" using p by (simp add: parsed_messages_snoc flip: p)
    then show ?thesis
      using assms(2) inv parsed_messages_le [of jl texts] b
      by (auto simp: on_message_def None Let_def live_inv_def accepted_def feed_inv_def Suc_diff_le split: prod.splits)
  next
    case (Some m)
    then have P: "parsed_messages jl (texts @ [json]) = ?P @ [untimed m]" by (simp add: parsed_messages_snoc flip: p)
    obtain f q where e: "enqueue m (f1, lp_queue s) = (f, q)" by fastforce
    have s': "s' = s\<lparr>lp_feed := f, lp_queue := q, lp_world := (fst (lp_world s), clk)\<rparr>"
      using assms(2) b e by (auto simp: on_message_def Some Let_def f1_def split: prod.splits)
    have "ring_inv QUEUE_CAPACITY (lp_queue s)" using inv by blast
    then show ?thesis
    proof (cases rule: ring.push_cases [where x = m])
      case full
      then have "q = lp_queue s" "fh_msg_count f = fh_msg_count f1" "fh_parse_errors f = fh_parse_errors f1"
          "fh_queue_full f = fh_queue_full f1 + 1" using e by (auto simp: enqueue_def Let_def)
      then show ?thesis
        using inv sub by (auto simp: live_inv_def accepted_def feed_inv_def P s' f1_def Suc_diff_le)
    next
      case (room q1)
      then have "q = q1" "f = f1" using e by (auto simp: enqueue_def)
      then show ?thesis
        using inv sub room(3,4) by (auto simp: live_inv_def accepted_def feed_inv_def P s' f1_def simp flip: append_assoc)
    qed
  qed
qed

lemma live_inv_turn:
  assumes "live_inv jl e0 texts s" "live_step jl moved Turn s = Inr s'"
  shows "live_inv jl e0 texts s'"
proof -
  note inv = assms(1) [unfolded live_inv_def]
  have "ring_inv QUEUE_CAPACITY (lp_queue s)" using inv by blast
  then show ?thesis
  proof (cases rule: ring.pop_cases [where moved = moved])
    case empty
    then show ?thesis using assms by simp
  next
    case (item m q)
    then obtain w where w: "handle m (lp_world s) = Inr w"
        "s' = s\<lparr>lp_queue := q, lp_world := w, lp_handled := lp_handled s @ [m]\<rparr>"
      using assms(2) by (auto simp: res_simps)
    have "engine_after e0 (lp_handled s @ [m]) (fst w)"
      using inv w(1) by (metis engine_after.one_more prod.collapse)
    moreover have "accepted s' = accepted s" using item(1) by (simp add: accepted_def w(2))
    ultimately show ?thesis using inv item(3) by (simp add: live_inv_def w(2))
  qed
qed

lemma live_inv_run:
  assumes "live_run jl moved evs (live_start e0 clk) = Inr s"
  shows "live_inv jl e0 (texts_of evs) s"
  using assms
proof (induction evs arbitrary: s rule: rev_induct)
  case Nil
  then show ?case using live_inv_start by (auto simp: live_run_def)
next
  case (snoc ev evs)
  then obtain s1 where s1: "live_inv jl e0 (texts_of evs) s1" "live_step jl moved ev s1 = Inr s"
    by (auto simp: live_run_def fold_res_append res_simps)
  show ?case
  proof (cases ev)
    case (Receive json)
    then show ?thesis using live_inv_receive [OF s1(1)] s1(2) by simp
  next
    case Turn
    then show ?thesis using live_inv_turn [OF s1(1)] s1(2) by simp
  qed
qed

text \<open>C11: every text received is counted once: as a parse error, as a drop, or as a message that was
  handled or waits in the queue. The accepted messages are, up to time stamps, some of the
  parsed texts in the order they came, and the engine is the one they lead to.\<close>

theorem feed_accounting:
  assumes "live_run jl moved evs (live_start (new_engine conds rec) clk) = Inr s"
  defines "parsed \<equiv> parsed_messages jl (texts_of evs)"
  shows "subseq (map untimed (accepted s)) parsed
    \<and> fh_msg_count (lp_feed s) = of_nat (length (texts_of evs))
    \<and> fh_parse_errors (lp_feed s) = of_nat (length (texts_of evs) - length parsed)
    \<and> fh_queue_full (lp_feed s) = of_nat (length parsed - length (accepted s))
    \<and> engine_after (new_engine conds rec) (lp_handled s) (fst (lp_world s))"
  using live_inv_run [OF assms(1)] by (simp add: live_inv_def feed_inv_def parsed_def)

section \<open>From the texts to the books\<close>

lemma of_nat_small: "n < 2 ^ 64 \<Longrightarrow> unat (of_nat n :: u64) = n"
  by (simp add: unsigned_of_nat take_bit_nat_eq_self)

text \<open>Without a drop, and with nothing left in the queue, the engine has handled every parsed text.\<close>

lemma all_handled:
  assumes "live_inv jl e0 texts s" "fh_queue_full (lp_feed s) = 0" "length texts < 2 ^ 64"
    and "q_empty (lp_queue s)"
  shows "map untimed (lp_handled s) = parsed_messages jl texts"
proof -
  have "q_items QUEUE_CAPACITY (lp_queue s) = []"
    using assms(1,4) q_empty_iff by (auto simp: live_inv_def ring_inv_def)
  then have a: "accepted s = lp_handled s" by (simp add: accepted_def)
  let ?n = "length (parsed_messages jl texts) - length (accepted s)"
  have "?n < 2 ^ 64" using assms(3) parsed_messages_le [of jl texts] by linarith
  moreover have "of_nat ?n = (0 :: u64)" using assms(1,2) by (simp add: live_inv_def feed_inv_def)
  ultimately have "?n = 0" using of_nat_small [of ?n] by simp
  moreover have "subseq (map untimed (accepted s)) (parsed_messages jl texts)" using assms(1) by (simp add: live_inv_def)
  ultimately show ?thesis
    using list_emb_length [of "(=)" "map untimed (accepted s)" "parsed_messages jl texts"] a
    by (intro subseq_same_length) simp_all
qed

lemma untimed_transparent:
  "name_of (untimed m) = name_of m" "is_depth (untimed m) = is_depth m"
  "stored (msg_depth (untimed m)) = stored (msg_depth m)"
  by (simp_all add: untimed_def name_of_def is_depth_def stored_def split: message_type.split)

lemma depths_untimed: "map stored (depths (messages_of name (map untimed ms))) = map stored (depths (messages_of name ms))"
  by (induction ms) (simp_all add: depths_def messages_of_def untimed_transparent)

lemma messages_untimed: "messages_of name (map untimed ms) = [] \<longleftrightarrow> messages_of name ms = []"
  by (simp add: messages_of_def filter_map comp_def untimed_transparent)

lemma live_books_of:
  assumes "engine_after (new_engine conds rec) ms e" "map untimed ms = parsed"
  shows "get_order_book name e = (if messages_of name parsed = [] then None
      else case book_run (depths (messages_of name parsed)) (new_book name) of Inl _ \<Rightarrow> None | Inr b \<Rightarrow> Some b)
    \<and> get_aggregator name e = (if messages_of name parsed = [] then None else Some (ag_snapshot
        (agg_run (book_trace (depths (messages_of name parsed)) (new_book name)) default_aggregator)))"
  using engine_after_books [OF assms(1), of name] same_books [OF depths_untimed, of name ms "new_book name"]
    messages_untimed [of name ms] by (simp add: assms(2))

text \<open>When nothing was dropped and the queue is drained, the book and the aggregates of every
  symbol are what the texts say: the fold of the depth updates parsed from them, in order,
  whatever the schedule and the clocks.\<close>

theorem live_books:
  fixes name :: string
  assumes "live_run jl moved evs (live_start (new_engine conds rec) clk) = Inr s"
    and "fh_queue_full (lp_feed s) = 0" "length (texts_of evs) < 2 ^ 64" "q_empty (lp_queue s)"
  defines "parsed \<equiv> messages_of name (parsed_messages jl (texts_of evs))"
  shows "get_order_book name (fst (lp_world s)) = (if parsed = [] then None
      else case book_run (depths parsed) (new_book name) of Inl _ \<Rightarrow> None | Inr b \<Rightarrow> Some b)
    \<and> get_aggregator name (fst (lp_world s)) = (if parsed = [] then None else Some (ag_snapshot
        (agg_run (book_trace (depths parsed) (new_book name)) default_aggregator)))"
proof -
  have inv: "live_inv jl (new_engine conds rec) (texts_of evs) s" by (rule live_inv_run [OF assms(1)])
  then have "engine_after (new_engine conds rec) (lp_handled s) (fst (lp_world s))" by (simp add: live_inv_def)
  from live_books_of [OF this all_handled [OF inv assms(2-4)], of name] show ?thesis
    by (simp only: parsed_def)
qed

section \<open>A burst that fits is handled as a whole\<close>

definition waiting :: "live \<Rightarrow> nat" where
  "waiting s = length (q_items QUEUE_CAPACITY (lp_queue s))"

lemma receive_room:
  assumes "live_inv jl e0 texts s" "waiting s < 8191"
  shows "\<exists>s'. live_step jl moved (Receive json) s = Inr s' \<and> waiting s' \<le> Suc (waiting s)
    \<and> fh_queue_full (lp_feed s') = fh_queue_full (lp_feed s)"
proof -
  obtain mo clk where b: "build_message jl json (fst (now (snd (lp_world s)))) (snd (now (snd (lp_world s)))) = (mo, clk)"
    by fastforce
  show ?thesis
  proof (cases mo)
    case None
    then show ?thesis using b by (simp add: on_message_def now_def Let_def waiting_def)
  next
    case (Some m)
    have "ring_inv QUEUE_CAPACITY (lp_queue s)" using assms(1) by (simp add: live_inv_def)
    then show ?thesis
    proof (cases rule: ring.push_cases [where x = m])
      case full
      then show ?thesis using assms(2) by (simp add: waiting_def QUEUE_CAPACITY_def)
    next
      case (room q)
      then have "waiting (s\<lparr>lp_queue := q\<rparr>) = Suc (waiting s)" by (simp only: waiting_def live.simps length_append) simp
      then show ?thesis
        using b Some room(2) by (simp add: on_message_def now_def Let_def enqueue_def waiting_def)
    qed
  qed
qed

lemma receives_room:
  assumes "live_inv jl e0 texts s" "waiting s + length ts \<le> 8191"
  shows "\<exists>s'. live_run jl moved (map Receive ts) s = Inr s' \<and> live_inv jl e0 (texts @ ts) s'
    \<and> waiting s' \<le> waiting s + length ts \<and> fh_queue_full (lp_feed s') = fh_queue_full (lp_feed s)"
  using assms
proof (induction ts arbitrary: texts s)
  case (Cons t ts)
  have "waiting s < 8191" using Cons.prems(2) by simp
  then obtain s1 where s1: "live_step jl moved (Receive t) s = Inr s1" "waiting s1 \<le> Suc (waiting s)"
    "fh_queue_full (lp_feed s1) = fh_queue_full (lp_feed s)" using receive_room [OF Cons.prems(1)] by blast
  have "waiting s1 + length ts \<le> 8191" using s1(2) Cons.prems(2) by simp
  then obtain s' where "live_run jl moved (map Receive ts) s1 = Inr s'" "live_inv jl e0 ((texts @ [t]) @ ts) s'"
    "waiting s' \<le> waiting s1 + length ts" "fh_queue_full (lp_feed s') = fh_queue_full (lp_feed s1)"
    using Cons.IH [OF live_inv_receive [OF Cons.prems(1) s1(1)]] by blast
  then show ?case using s1 by (intro exI [of _ s']) (simp add: live_run_def del: live_step.simps)
qed (simp add: live_run_def)

lemma applicable_untimed: "applicable (untimed m) = applicable m"
  by (simp add: applicable_def untimed_transparent) (simp add: untimed_def counted_bids_def counted_asks_def)

lemma subseq_set: "subseq xs ys \<Longrightarrow> set xs \<subseteq> set ys"
  by (induction rule: list_emb.induct) auto

lemma accepted_applicable:
  assumes "live_inv jl (new_engine conds rec) texts s" "list_all applicable (parsed_messages jl texts)" "m \<in> set (accepted s)"
  shows "applicable m"
proof -
  have "subseq (map untimed (accepted s)) (parsed_messages jl texts)" using assms(1) by (simp add: live_inv_def)
  then have "set (map untimed (accepted s)) \<subseteq> set (parsed_messages jl texts)" by (rule subseq_set)
  then show ?thesis using assms(2,3) applicable_untimed [of m] by (auto simp: list_all_iff)
qed

lemma turns_drain:
  assumes "live_inv jl (new_engine conds rec) texts s" "list_all applicable (parsed_messages jl texts)" "waiting s \<le> n"
  shows "\<exists>s'. live_run jl moved (replicate n Turn) s = Inr s' \<and> q_empty (lp_queue s')
    \<and> fh_queue_full (lp_feed s') = fh_queue_full (lp_feed s)"
  using assms(1,3)
proof (induction n arbitrary: s)
  case 0
  then have "q_items QUEUE_CAPACITY (lp_queue s) = []" unfolding waiting_def by (simp only: le_zero_eq length_0_conv)
  then show ?case using q_empty_iff [of QUEUE_CAPACITY "lp_queue s"] 0(1)
    by (simp add: live_run_def live_inv_def ring_inv_def)
next
  case (Suc n)
  have "ring_inv QUEUE_CAPACITY (lp_queue s)" using Suc.prems(1) by (simp add: live_inv_def)
  then show ?case
  proof (cases rule: ring.pop_cases [where moved = moved])
    case empty
    then show ?thesis using Suc.IH [OF Suc.prems(1)] by (simp add: live_run_def waiting_def)
  next
    case (item m q)
    have "applicable m" using accepted_applicable [OF Suc.prems(1) assms(2), of m] item(1) by (simp add: accepted_def)
    moreover have "engine_after (new_engine conds rec) (lp_handled s) (fst (lp_world s))"
      using Suc.prems(1) by (simp add: live_inv_def)
    ultimately obtain e clk where "handle m (fst (lp_world s), snd (lp_world s)) = Inr (e, clk)"
      using handle_defined by blast
    then have st: "live_step jl moved Turn s = Inr (s\<lparr>lp_queue := q, lp_world := (e, clk), lp_handled := lp_handled s @ [m]\<rparr>)"
      using item(2) by simp
    then have "live_inv jl (new_engine conds rec) texts (s\<lparr>lp_queue := q, lp_world := (e, clk), lp_handled := lp_handled s @ [m]\<rparr>)"
      by (rule live_inv_turn [OF Suc.prems(1)])
    moreover have "waiting (s\<lparr>lp_queue := q, lp_world := (e, clk), lp_handled := lp_handled s @ [m]\<rparr>) \<le> n"
      using Suc.prems(2) item(1) by (simp add: waiting_def)
    ultimately show ?thesis using Suc.IH st by (fastforce simp: live_run_def simp del: live_step.simps)
  qed
qed

lemma live_run_append: "live_run jl moved (evs @ evs') s = bind_res (live_run jl moved evs s) (live_run jl moved evs')"
  by (simp add: live_run_def fold_res_append [unfolded fun_eq_iff] bind_res_def split: sum.split)

lemma texts_of_burst: "texts_of (map Receive ts @ replicate n Turn) = ts"
proof -
  have "texts_of (map Receive ts) = ts" by (induction ts) simp_all
  moreover have "texts_of (replicate n Turn) = []" by (induction n) simp_all
  ultimately show ?thesis by simp
qed

lemma burst_handled:
  assumes "length ts < 8192" "list_all applicable (parsed_messages jl ts)"
  shows "\<exists>s. live_run jl moved (map Receive ts @ replicate (length ts) Turn) (live_start (new_engine conds rec) clk) = Inr s
    \<and> q_empty (lp_queue s) \<and> fh_queue_full (lp_feed s) = 0"
proof -
  let ?s0 = "live_start (new_engine conds rec) clk"
  have w0: "waiting ?s0 = 0" "fh_queue_full (lp_feed ?s0) = 0"
    by (simp_all add: waiting_def live_start_def q_new_items new_feed_def)
  obtain s where s: "live_run jl moved (map Receive ts) ?s0 = Inr s" "live_inv jl (new_engine conds rec) ts s"
    "waiting s \<le> length ts" "fh_queue_full (lp_feed s) = 0"
    using receives_room [OF live_inv_start [of jl "new_engine conds rec" clk], of ts moved] assms(1) w0 by auto
  from turns_drain [OF s(2) assms(2) s(3), of moved] show ?thesis using s by (simp add: live_run_append)
qed

text \<open>A burst of fewer texts than the queue has slots, none of which holds a NaN price, is handled
  without a drop: as many turns of the thread as there were texts empty the queue.\<close>

theorem live_completes:
  assumes "length ts < 8192" "list_all applicable (parsed_messages jl ts)"
  shows "\<exists>s. live_run jl moved (map Receive ts @ replicate (length ts) Turn) (live_start (new_engine conds rec) clk) = Inr s
    \<and> q_empty (lp_queue s) \<and> fh_queue_full (lp_feed s) = 0"
  by (rule burst_handled [OF assms])

section \<open>A concrete session\<close>

definition clean_json :: json_lib where
  "clean_json = sample_json\<lparr>jl_levels := (\<lambda>d k. Some (if k = ''b'' then [Pair (Some ''100'') (Some ''1'')]
     else [Pair (Some ''101'') (Some ''2'')]))\<rparr>"

definition sample_texts :: "string list" where
  "sample_texts = [sample_doc, ''garbage'', sample_trade_doc, sample_doc]"

lemma sample_texts_ok: "length sample_texts = 4" "list_all applicable (parsed_messages clean_json sample_texts)"
  "length (parsed_messages clean_json sample_texts) = 3"
  "length (depths (messages_of ''BTC'' (parsed_messages clean_json sample_texts))) = 2"
  by code_simp+

abbreviation sample_events :: "live_event list" where
  "sample_events \<equiv> map Receive sample_texts @ replicate (length sample_texts) Turn"

abbreviation sample_start :: live where
  "sample_start \<equiv> live_start (new_engine sample_conditions None) sample_clock"

theorem live_completes_witness:
  "\<exists>s. live_run clean_json id sample_events sample_start = Inr s \<and> q_empty (lp_queue s) \<and> fh_queue_full (lp_feed s) = 0"
  using live_completes [of sample_texts clean_json id sample_conditions None sample_clock] sample_texts_ok by simp

lemma sample_session:
  obtains s where "live_run clean_json id sample_events sample_start = Inr s" "q_empty (lp_queue s)" "fh_queue_full (lp_feed s) = 0"
  using burst_handled [of sample_texts clean_json id sample_conditions None sample_clock] sample_texts_ok by auto

theorem feed_accounting_witness:
  "\<exists>s. live_run clean_json id sample_events sample_start = Inr s \<and> fh_msg_count (lp_feed s) = 4 \<and> fh_parse_errors (lp_feed s) = 1"
proof -
  obtain s where s: "live_run clean_json id sample_events sample_start = Inr s" by (rule sample_session)
  have t: "texts_of sample_events = sample_texts" by (rule texts_of_burst)
  from feed_accounting [OF s] show ?thesis
    unfolding t using s by (simp add: sample_texts_ok)
qed

theorem live_books_witness:
  "\<exists>s b. live_run clean_json id sample_events sample_start = Inr s \<and> get_order_book ''BTC'' (fst (lp_world s)) = Some b
    \<and> ob_bids b = [(double_of_int 100, 1)]"
proof -
  obtain s where s: "live_run clean_json id sample_events sample_start = Inr s" "q_empty (lp_queue s)"
    "fh_queue_full (lp_feed s) = 0" by (rule sample_session)
  have t: "texts_of sample_events = sample_texts" by (rule texts_of_burst)
  let ?p = "messages_of ''BTC'' (parsed_messages clean_json sample_texts)"
  have "case book_run (depths ?p) (new_book ''BTC'') of Inl _ \<Rightarrow> False | Inr b \<Rightarrow> ob_bids b = [(double_of_int 100, 1)]"
    by code_simp
  then obtain b where b: "book_run (depths ?p) (new_book ''BTC'') = Inr b" "ob_bids b = [(double_of_int 100, 1)]"
    by (auto split: sum.splits)
  have ne: "?p \<noteq> []" using sample_texts_ok(4) by (auto simp: depths_def)
  have "length (texts_of sample_events) < 2 ^ 64" unfolding t by (simp add: sample_texts_ok)
  from live_books [OF s(1,3) this s(2), of "''BTC''"] show ?thesis
    unfolding t using s(1) b ne by simp
qed

end
