(* ===== verification/Double_Integers.thy ===== *)
theory Double_Integers
  imports Ieee_Double
begin

text \<open>
  Integers below \<open>2 ^ 53\<close> as doubles: the conversion is exact, the conversion back is the floor,
  and a product whose value is such an integer is exact. The reconnect policy and the
  replay delays compute with integers through doubles. At the end the relative error of a
  rounding, for the prices of \<open>Price_Text\<close>.
\<close>

lemma mag_val_scaled:
  assumes "2 ^ 52 \<le> f" "f < 2 ^ 53" "- 1074 \<le> q"
  shows "mag_val ((q + 1074) * 2 ^ 52 + f) = of_int f * 2 powi q"
proof -
  have m: "(q + 1074) * 2 ^ 52 + f = (q + 1075) * 2 ^ 52 + (f - 2 ^ 52)" by (simp add: algebra_simps)
  define g where "g = f - 2 ^ 52"
  have "0 \<le> g" "g < 2 ^ 52" using assms by (simp_all add: g_def)
  then have "((q + 1075) * 2 ^ 52 + g) div 2 ^ 52 = q + 1075" "((q + 1075) * 2 ^ 52 + g) mod 2 ^ 52 = g"
    by (simp_all add: div_pos_pos_trivial mod_pos_pos_trivial del: power_numeral)
  then have "((q + 1075) * 2 ^ 52 + (f - 2 ^ 52)) div 2 ^ 52 = q + 1075" "((q + 1075) * 2 ^ 52 + (f - 2 ^ 52)) mod 2 ^ 52 = f - 2 ^ 52"
    unfolding g_def .
  then show ?thesis unfolding m using assms(3) by (simp add: mag_val_def d_sig_def Let_def)
qed

lemma power_interval: "0 < n \<Longrightarrow> \<exists>k. 2 ^ k \<le> n \<and> n < 2 ^ Suc k" for n :: int
proof -
  assume n: "0 < n"
  have "\<exists>k. n < 2 ^ k" using n by (metis int_one_le_iff_zero_less less_exp of_nat_less_iff of_nat_numeral of_nat_power zero_less_imp_eq_int)
  then obtain j where "n < 2 ^ j" "\<And>i. i < j \<Longrightarrow> \<not> n < 2 ^ i" using exists_least_iff [of "\<lambda>k. n < 2 ^ k"] by blast
  then show ?thesis using n by (cases j) (auto simp: not_less)
qed

lemma int_representable:
  assumes "0 \<le> n" "n < 2 ^ 53" obtains m where "0 \<le> m" "m < inf_mag" "mag_val m = of_int n"
proof (cases "n = 0")
  case True
  then show thesis using that [of 0] by (simp add: inf_mag_def)
next
  case False
  then obtain k where k: "2 ^ k \<le> n" "n < 2 ^ Suc k" using power_interval [of n] assms(1) by auto
  have "k < 53"
  proof (rule ccontr)
    assume "\<not> k < 53"
    then have "(2::int) ^ 53 \<le> 2 ^ k" by (intro power_increasing) simp_all
    then show False using k(1) assms(2) by linarith
  qed
  then have "k \<le> 52" by simp
  let ?f = "n * 2 ^ (52 - k)" and ?q = "int k - 52"
  have p: "(2::int) ^ k * 2 ^ (52 - k) = 2 ^ 52" "(2::int) ^ Suc k * 2 ^ (52 - k) = 2 ^ 53"
    using \<open>k \<le> 52\<close> by (simp_all flip: power_add power_Suc add: Suc_diff_le)
  have f: "2 ^ 52 \<le> ?f" "?f < 2 ^ 53"
    using mult_right_mono [OF k(1), of "2 ^ (52 - k)"] mult_strict_right_mono [OF k(2), of "2 ^ (52 - k)"]
    unfolding p by simp_all
  have "?q = - int (52 - k)" using \<open>k \<le> 52\<close> by simp
  then have "(2::real) ^ (52 - k) * 2 powi ?q = 1" by (simp only: power_int_minus power_int_of_nat) simp
  then have "of_int ?f * 2 powi ?q = real_of_int n" by (simp add: mult.assoc)
  moreover have "mag_val ((?q + 1074) * 2 ^ 52 + ?f) = of_int ?f * 2 powi ?q"
    using f by (intro mag_val_scaled) simp_all
  moreover have "0 \<le> (?q + 1074) * 2 ^ 52" "(?q + 1074) * 2 ^ 52 \<le> 1074 * 2 ^ 52"
    using \<open>k \<le> 52\<close> by simp_all
  then have "0 \<le> (?q + 1074) * 2 ^ 52 + ?f \<and> (?q + 1074) * 2 ^ 52 + ?f < inf_mag" using f by (simp add: inf_mag_def)
  ultimately show thesis using that [of "(?q + 1074) * 2 ^ 52 + ?f"] by simp
qed

lemma double_of_int_exact:
  assumes "0 \<le> n" "n < 2 ^ 53"
  shows "d_val (double_of_int n) = of_int n" "d_finite (double_of_int n)" "d_sign (double_of_int n) = False"
proof -
  obtain m where m: "0 \<le> m" "m < inf_mag" "mag_val m = of_int n" using int_representable [OF assms] .
  have "round_mag \<bar>n\<bar> 1 0 = m"
    using assms(1) m rnd_exact [of m] by (simp add: round_mag_rnd)
  then have "double_of_int n = mk_double False m" using assms(1) by (simp add: double_of_int_def)
  moreover have "m < 2 ^ 63" using m(2) by (simp add: inf_mag_def)
  ultimately show "d_val (double_of_int n) = of_int n" "d_finite (double_of_int n)" "d_sign (double_of_int n) = False"
    using m by (simp_all add: d_val_def d_finite_def)
qed

lemma trunc_floor:
  assumes "\<not> d_sign d" shows "d_trunc d = \<lfloor>d_val d\<rfloor>"
proof -
  obtain m e where s: "d_sig (d_mag d) = (m, e)" by fastforce
  have "d_val d = of_int m * 2 powi e" using assms d_sig_val [of "d_mag d"] by (simp add: d_val_def s)
  also have "\<dots> = of_int (m * 2 ^ nat e) / of_int (2 ^ nat (- e))" by (simp add: powi_nat_quot)
  finally show ?thesis using assms by (simp only: floor_divide_of_int_eq) (simp add: d_trunc_def s)
qed

lemma d_key_mono_val: "d_key a \<le> d_key b \<Longrightarrow> d_val a \<le> d_val b"
  by (simp add: d_val_le_iff)

lemma d_sign_pos: "0 < d_key d \<Longrightarrow> \<not> d_sign d"
  using d_mag_nonneg [of d] by (auto simp: d_key_def simp del: d_mag_nonneg)

lemma mult_sign: "\<not> d_sign a \<Longrightarrow> \<not> d_sign b \<Longrightarrow> d_finite a \<Longrightarrow> d_finite b \<Longrightarrow> \<not> d_sign (a * b)"
  using d_sig_nonneg [of "d_mag a"] d_sig_nonneg [of "d_mag b"]
  by (simp add: times_double_def d_mul_def Let_def split: prod.split) (auto simp: round_mag_rnd d_sign_mk [OF min_inf_rnd])

text \<open>Larger integers are rounded, but not beyond \<open>2 ^ 63\<close> when they do not exceed it.\<close>

lemma double_of_int_key: "0 \<le> n \<Longrightarrow> d_key (double_of_int n) = srnd (of_int n)"
  using min_inf_rnd [of "of_int n"] by (simp add: double_of_int_def round_mag_rnd srnd_def)

lemma two_63: "d_val (mk_double False (1086 * 2 ^ 52)) = 2 ^ 63" "d_key (mk_double False (1086 * 2 ^ 52)) = 1086 * 2 ^ 52"
    "d_finite (mk_double False (1086 * 2 ^ 52))"
  by (simp_all add: d_val_def d_finite_def inf_mag_def mag_val_def d_sig_def power_int_def)

lemma double_of_int_le:
  assumes "0 \<le> n" "n \<le> 2 ^ 63"
  shows "d_val (double_of_int n) \<le> 2 ^ 63" "d_finite (double_of_int n)" "\<not> d_sign (double_of_int n)"
proof -
  have "real_of_int n \<le> real_of_int (2 ^ 63)" using assms(2) by (simp only: of_int_le_iff)
  then have "real_of_int n \<le> d_val (mk_double False (1086 * 2 ^ 52))" unfolding two_63(1) by simp
  then have "d_key (double_of_int n) \<le> d_key (mk_double False (1086 * 2 ^ 52))"
    unfolding double_of_int_key [OF assms(1)] using srnd_mono srnd_d_val [OF two_63(3)] by metis
  then show "d_val (double_of_int n) \<le> 2 ^ 63" using d_key_mono_val two_63(1) by metis
  have sign: "\<not> d_sign (double_of_int n)"
    using assms(1) min_inf_rnd [of "of_int n"] by (simp add: double_of_int_def round_mag_rnd)
  then show "\<not> d_sign (double_of_int n)" .
  have "d_key (double_of_int n) < inf_mag"
    using \<open>d_key (double_of_int n) \<le> _\<close> unfolding two_63(2) by (simp add: inf_mag_def)
  then show "d_finite (double_of_int n)" using sign by (simp add: d_finite_def d_key_def)
qed

lemma div_sign:
  assumes "\<not> d_sign a" "\<not> d_sign b" "d_finite a" "d_finite b" "d_mag b \<noteq> 0"
  shows "\<not> d_sign (a / b)"
proof -
  have "0 < d_mag b" using assms(5) d_mag_nonneg [of b] by linarith
  then show ?thesis using assms d_sig_nonneg [of "d_mag a"] d_sig_pos [of "d_mag b"]
    by (simp add: divide_double_def d_div_def Let_def split: prod.split) (auto simp: round_mag_rnd d_sign_mk [OF min_inf_rnd])
qed

section \<open>The error of a rounding\<close>

lemma rhe_error: "\<bar>of_int (rhe x) - x\<bar> \<le> 1 / 2"
proof -
  define r where "r = x - of_int \<lfloor>x\<rfloor>"
  have "0 \<le> r" "r < 1" "x = of_int \<lfloor>x\<rfloor> + r" unfolding r_def by linarith+
  moreover have "rhe x = (if r < 1 / 2 \<or> (r = 1 / 2 \<and> even \<lfloor>x\<rfloor>) then \<lfloor>x\<rfloor> else \<lfloor>x\<rfloor> + 1)" by (simp add: rhe_def Let_def r_def)
  ultimately show ?thesis by (cases "r < 1 / 2") (auto simp del: floor_of_int)
qed

lemma mag_val_carry:
  assumes "2 ^ 52 \<le> f" "f \<le> 2 ^ 53" "- 1074 \<le> q"
  shows "mag_val ((q + 1074) * 2 ^ 52 + f) = of_int f * 2 powi q"
proof (cases "f = 2 ^ 53")
  case True
  then have "(q + 1074) * 2 ^ 52 + f = (q + 1 + 1074) * 2 ^ 52 + 2 ^ 52" by (simp add: algebra_simps)
  then have "mag_val ((q + 1074) * 2 ^ 52 + f) = of_int (2 ^ 52) * 2 powi (q + 1)"
    using mag_val_scaled [of "2 ^ 52" "q + 1"] assms(3) by simp
  then show ?thesis by (simp add: True power_int_add)
qed (use mag_val_scaled assms in simp)

lemma rnd_error:
  assumes "2 powi (- 1022) \<le> x"
  shows "\<bar>mag_val (rnd x) - x\<bar> \<le> x / 2 ^ 53"
proof -
  have pos: "0 < x" using assms by (rule less_le_trans [rotated]) simp
  define e where "e = \<lfloor>log 2 x\<rfloor>"
  define q where "q = e - 52"
  note log = powi_floor_log [OF pos, folded e_def]
  have e: "- 1022 \<le> e"
  proof (rule ccontr)
    assume "\<not> - 1022 \<le> e"
    then have "(2::real) powi (e + 1) \<le> 2 powi (- 1022)" by (intro power_int_increasing) simp_all
    then show False using log(2) assms by simp
  qed
  have scale: "(2::real) powi e = 2 ^ 52 * 2 powi q" "(2::real) powi (e + 1) = 2 ^ 53 * 2 powi q"
    by (simp_all add: q_def power_int_diff power_int_add)
  have p: "0 < (2::real) powi q" by simp
  define f where "f = rhe (x / 2 powi q)"
  have "of_int (2 ^ 52) \<le> x / 2 powi q" "x / 2 powi q \<le> of_int (2 ^ 53)"
    using log scale p by (simp_all add: pos_le_divide_eq pos_divide_le_eq)
  then have f: "2 ^ 52 \<le> f" "f \<le> 2 ^ 53" unfolding f_def by (intro rhe_ge rhe_le; simp)+
  have "rnd x = (q + 1074) * 2 ^ 52 + f" 
  proof -
    have "max \<lfloor>log 2 x\<rfloor> (- 1022) - 52 = q" using e by (simp add: q_def e_def)
    then show ?thesis using pos by (simp only: rnd_def Let_def f_def) simp
  qed
  then have "mag_val (rnd x) = of_int f * 2 powi q" using mag_val_carry [OF f, of q] e by (simp add: q_def)
  then have "\<bar>mag_val (rnd x) - x\<bar> = \<bar>of_int f - x / 2 powi q\<bar> * 2 powi q"
    using p by (simp add: abs_mult_pos' field_simps flip: abs_mult_pos)
  also have "\<dots> \<le> 1 / 2 * 2 powi q" using rhe_error [of "x / 2 powi q"] p unfolding f_def by (intro mult_right_mono) simp_all
  also have "\<dots> \<le> x / 2 ^ 53" using log(1) scale(1) by simp
  finally show ?thesis .
qed

end
