(* ===== verification/Price_Text.thy ===== *)
theory Price_Text
  imports Feed_Handler Double_Integers
begin

text \<open>
  Prices as texts and as doubles. The exchange sends decimal numbers; \<open>fast_atof\<close> of
  \<open>src/feed/depth_parser.cpp\<close> and \<open>trade_parser.cpp\<close> rounds them, and the order book uses the
  results as keys of \<open>std::map\<close>. For numbers of at most fifteen digits nothing is confused: the
  keys are ordered as the numbers are, and are equal only for equal numbers.
\<close>

section \<open>Decimal numbers\<close>

text \<open>A text of digits with at most one point, after the first digit: what \<open>strtod\<close> makes of it is the
  number it denotes, rounded. The bound keeps it within the buffer of \<open>fast_atof\<close> and its digits
  within the fifteen that a double holds.\<close>

definition int_part :: "string \<Rightarrow> string" where "int_part s = takeWhile is_digit s"

definition frac_part :: "string \<Rightarrow> string" where "frac_part s = drop 1 (dropWhile is_digit s)"

definition all_digits :: "string \<Rightarrow> int" where "all_digits s = digits_value 10 0 (int_part s @ frac_part s)"

definition is_decimal :: "string \<Rightarrow> bool" where
  "is_decimal s \<longleftrightarrow> int_part s \<noteq> [] \<and> (dropWhile is_digit s = [] \<or> hd (dropWhile is_digit s) = CHR ''.'')
     \<and> list_all is_digit (frac_part s) \<and> length s \<le> 31 \<and> all_digits s < 10 ^ 15"

definition decimal_value :: "string \<Rightarrow> real" where
  "decimal_value s = of_int (all_digits s) / 10 ^ length (frac_part s)"

lemma decimal_examples:
  "is_decimal ''67432.10000000''" "is_decimal ''0.00001234''" "is_decimal ''42''" "\<not> is_decimal ''.5''" "\<not> is_decimal ''nan''" "\<not> is_decimal ''1e3''"
  by code_simp+

lemma digit_in_ten: "digit_in 10 = is_digit"
  by (rule ext) (auto simp: digit_in_def digit_value_def is_digit_def Let_def)

lemma decimal_chars:
  assumes "is_decimal s" "c \<in> set s" shows "is_digit c \<or> c = CHR ''.''"
proof (rule ccontr)
  assume c: "\<not> (is_digit c \<or> c = CHR ''.'')"
  have "s = int_part s @ dropWhile is_digit s" by (simp add: int_part_def)
  then have "c \<in> set (dropWhile is_digit s)"
    using assms(2) c set_takeWhileD [of c is_digit s] by (metis Un_iff int_part_def set_append)
  moreover have "list_all is_digit (drop 1 (dropWhile is_digit s))" using assms(1) by (simp add: is_decimal_def frac_part_def)
  ultimately show False using c assms(1)
    by (cases "dropWhile is_digit s") (auto simp: is_decimal_def list_all_iff)
qed

lemma decimal_first: "is_decimal s \<Longrightarrow> \<exists>c t. s = c # t \<and> is_digit c"
  by (cases s) (auto simp: is_decimal_def int_part_def split: if_splits)

lemma digit_not:
  assumes "is_digit c"
  shows "\<not> is_space c" "c \<noteq> CHR ''-''" "c \<noteq> CHR ''+''" "lower c = c" "c \<noteq> CHR 0x00" "c \<noteq> CHR ''i''" "c \<noteq> CHR ''n''" "c \<noteq> CHR ''x''"
proof -
  have n: "48 \<le> code_of c" "code_of c \<le> 57" using assms by (simp_all add: is_digit_def)
  then show "\<not> is_space c" "lower c = c" by (simp_all add: is_space_def lower_def)
  have "code_of c \<noteq> code_of d" if "code_of d < 48 \<or> 57 < code_of d" for d using n that by linarith
  then have "c \<noteq> d" if "code_of d < 48 \<or> 57 < code_of d" for d using that by blast
  then show "c \<noteq> CHR ''-''" "c \<noteq> CHR ''+''" "c \<noteq> CHR 0x00" "c \<noteq> CHR ''i''" "c \<noteq> CHR ''n''" "c \<noteq> CHR ''x''"
    by (simp_all add: code_of_def)
qed

lemma decimal_not_hex:
  assumes "is_decimal s" shows "strip_word ''0x'' s = None"
proof -
  have "lower d \<noteq> CHR ''x''" if "d \<in> set s" for d
    using decimal_chars [OF assms that] digit_not(4,8) [of d] by (auto simp: lower_def code_of_def)
  then show ?thesis by (cases s; cases "tl s") auto
qed

lemma decimal_mantissa:
  assumes "is_decimal s" shows "mantissa 10 s = Some (all_digits s, length (frac_part s), [])"
proof (cases "dropWhile is_digit s")
  case Nil
  show ?thesis using assms
    by (simp add: Nil mantissa_def digit_in_ten Let_def is_decimal_def all_digits_def frac_part_def int_part_def)
next
  case (Cons c fp)
  then have "c = CHR ''.''" "list_all is_digit fp" using assms by (simp_all add: is_decimal_def frac_part_def)
  then have fp: "takeWhile is_digit fp = fp" "dropWhile is_digit fp = []" by (simp_all add: list_all_iff)
  show ?thesis using assms
    by (simp add: Cons \<open>c = _\<close> fp mantissa_def digit_in_ten Let_def is_decimal_def all_digits_def frac_part_def int_part_def)
qed

lemma all_digits_nonneg: "0 \<le> all_digits s"
  by (simp add: all_digits_def digits_value_nonneg)

lemma fast_atof_decimal:
  assumes "is_decimal s" shows "fast_atof s = mk_double False (min inf_mag (rnd (decimal_value s)))"
proof -
  obtain c t where s: "s = c # t" "is_digit c" using decimal_first [OF assms] by blast
  have "takeWhile (\<lambda>c. c \<noteq> CHR 0x00) (take 31 s) = s"
    using assms decimal_chars [OF assms] digit_not(5) by (auto simp: is_decimal_def takeWhile_eq_all_conv)
  moreover have "dropWhile is_space s = s" "take_sign s = (False, s)"
    using s digit_not [OF s(2)] by (simp_all add: take_sign_def)
  moreover have "strip_word ''inf'' s = None" "strip_word ''nan'' s = None"
    using s digit_not [OF s(2)] by simp_all
  ultimately have "fast_atof s = decimal False s" by (simp add: fast_atof_def strtod_def decimal_not_hex [OF assms])
  also have "\<dots> = scaled False 10 (all_digits s) (- int (length (frac_part s)))"
    by (simp add: decimal_def decimal_mantissa [OF assms] exponent_def)
  also have "\<dots> = mk_double False (min inf_mag (rnd (decimal_value s)))"
    using all_digits_nonneg [of s] by (auto simp: scaled_def round_mag_rnd decimal_value_def)
  finally show ?thesis .
qed

text \<open>A longer text is cut without notice, here to a tenth of its number.\<close>

lemma long_text_cut:
  "length ''10000000000000000000000000000000'' = 32"
  "fast_atof ''10000000000000000000000000000000'' = fast_atof ''1000000000000000000000000000000''"
  by code_simp+

section \<open>The order of the keys\<close>

lemma decimal_bounds:
  assumes "is_decimal s"
  shows "0 \<le> decimal_value s" "decimal_value s < 10 ^ 15" "decimal_value s = 0 \<or> 2 powi (- 1022) \<le> decimal_value s"
proof -
  let ?n = "real_of_int (all_digits s)" and ?k = "length (frac_part s)"
  have n: "0 \<le> ?n" "?n < 10 ^ 15" using assms all_digits_nonneg [of s] by (simp_all add: is_decimal_def flip: of_int_less_iff)
  have p: "0 < (10::real) ^ ?k" "1 \<le> (10::real) ^ ?k" by simp_all
  show "0 \<le> decimal_value s" using n by (simp add: decimal_value_def)
  have "decimal_value s \<le> ?n" using divide_left_mono [OF p(2) n(1)] by (simp add: decimal_value_def)
  then show "decimal_value s < 10 ^ 15" using n(2) by linarith
  have "?k \<le> length s" using length_dropWhile_le [of is_digit s] by (simp add: frac_part_def)
  then have "?k \<le> 31" using assms by (simp add: is_decimal_def)
  then have "(10::real) ^ ?k \<le> 10 ^ 31" by (intro power_increasing) simp_all
  have "2 powi (- 1022) \<le> decimal_value s" if "all_digits s \<noteq> 0"
  proof -
    have "1 \<le> ?n" using that all_digits_nonneg [of s] by linarith
    have "(2::real) powi (- 1022) \<le> 2 powi (- 124)" by (intro power_int_increasing) simp_all
    also have "\<dots> = 1 / 16 ^ 31" by (simp only: power_int_minus power_int_numeral) simp
    also have "\<dots> \<le> 1 / (10::real) ^ 31" by (intro divide_left_mono power_mono) simp_all
    also have "\<dots> \<le> 1 / 10 ^ ?k" using \<open>10 ^ ?k \<le> 10 ^ 31\<close> p(1) by (intro divide_left_mono) simp_all
    also have "\<dots> \<le> decimal_value s" using \<open>1 \<le> ?n\<close> p(1) by (simp add: decimal_value_def divide_right_mono)
    finally show ?thesis .
  qed
  then show "decimal_value s = 0 \<or> 2 powi (- 1022) \<le> decimal_value s" by (auto simp: decimal_value_def)
qed

lemma next_integer:
  assumes "i < j" "i < 10 ^ 15 \<or> j < (10 ^ 15 :: int)"
  shows "real_of_int i * (1 + 1 / 10 ^ 15) < of_int j"
proof -
  have "i < 10 ^ 15" using assms by auto
  then have "real_of_int i / 10 ^ 15 < 1" by (simp add: divide_less_eq)
  moreover have "real_of_int i + 1 \<le> of_int j" using assms(1) by linarith
  ultimately show ?thesis by (simp add: distrib_left)
qed

text \<open>Two different numbers of at most fifteen digits differ by more than a part in \<open>10 ^ 15\<close>.\<close>

lemma decimal_gap:
  assumes "is_decimal a" "is_decimal b" "decimal_value a < decimal_value b"
  shows "decimal_value a * (1 + 1 / 10 ^ 15) < decimal_value b"
proof -
  let ?m = "all_digits a" and ?n = "all_digits b" and ?j = "length (frac_part a)" and ?k = "length (frac_part b)"
  have m: "?m < 10 ^ 15" and n: "?n < 10 ^ 15"
    using assms(1,2) by (simp_all add: is_decimal_def)
  show ?thesis
  proof (cases "?j \<le> ?k")
    case True
    then have "(10::real) ^ ?k = 10 ^ ?j * 10 ^ (?k - ?j)" by (simp flip: power_add)
    then have a: "decimal_value a = of_int (?m * 10 ^ (?k - ?j)) / 10 ^ ?k" by (simp add: decimal_value_def)
    then have "real_of_int (?m * 10 ^ (?k - ?j)) < of_int ?n"
      using assms(3) by (simp add: decimal_value_def divide_less_cancel)
    then have "?m * 10 ^ (?k - ?j) < ?n" by (simp only: of_int_less_iff)
    from next_integer [OF this] n have "of_int (?m * 10 ^ (?k - ?j)) * (1 + 1 / 10 ^ 15) < real_of_int ?n" by simp
    from divide_strict_right_mono [OF this, of "10 ^ ?k"] show ?thesis unfolding a decimal_value_def [of b] by simp
  next
    case False
    then have "(10::real) ^ ?j = 10 ^ ?k * 10 ^ (?j - ?k)" by (simp flip: power_add)
    then have b: "decimal_value b = of_int (?n * 10 ^ (?j - ?k)) / 10 ^ ?j" by (simp add: decimal_value_def)
    then have "real_of_int ?m < of_int (?n * 10 ^ (?j - ?k))"
      using assms(3) by (simp add: decimal_value_def divide_less_cancel)
    then have "?m < ?n * 10 ^ (?j - ?k)" by (simp only: of_int_less_iff)
    from next_integer [OF this] m have "of_int ?m * (1 + 1 / 10 ^ 15) < real_of_int (?n * 10 ^ (?j - ?k))" by simp
    from divide_strict_right_mono [OF this, of "10 ^ ?j"] show ?thesis unfolding b decimal_value_def [of a] by simp
  qed
qed

lemma rnd_strict:
  assumes "0 \<le> x" "x = 0 \<or> 2 powi (- 1022) \<le> x" "2 powi (- 1022) \<le> y" "x * (1 + 1 / 10 ^ 15) < y"
  shows "rnd x < rnd y"
proof -
  have le: "x \<le> y" using assms(1,4) by (simp add: distrib_left)
  have ey: "\<bar>mag_val (rnd y) - y\<bar> \<le> y / 2 ^ 53" by (rule rnd_error [OF assms(3)])
  have ex: "\<bar>mag_val (rnd x) - x\<bar> \<le> x / 2 ^ 53" using rnd_error assms(2) by auto
  have "y \<le> x * (1 + 1 / 10 ^ 15)" if same: "rnd x = rnd y"
  proof -
    have "y - x \<le> x / 2 ^ 53 + y / 2 ^ 53" using ex ey unfolding same by linarith
    then show ?thesis using assms(1) by (simp add: field_simps)
  qed
  then have "rnd x \<noteq> rnd y" using assms(4) by linarith
  then show ?thesis using rnd_mono [OF le] by linarith
qed

lemma decimal_finite:
  assumes "is_decimal s" shows "rnd (decimal_value s) < inf_mag"
proof -
  have "mag_val (1086 * 2 ^ 52) = 2 ^ 63" using two_63(1) by (simp add: d_val_def)
  then have "decimal_value s \<le> mag_val (1086 * 2 ^ 52)" using decimal_bounds(2) [OF assms] by simp
  from rnd_mono [OF this] show ?thesis using rnd_exact [of "1086 * 2 ^ 52"] by (simp add: inf_mag_def)
qed

lemma decimal_key:
  assumes "is_decimal s"
  shows "d_key (fast_atof s) = rnd (decimal_value s)" "d_finite (fast_atof s)" "\<not> d_sign (fast_atof s)"
  using decimal_finite [OF assms] rnd_nonneg [of "decimal_value s"]
  by (simp_all add: fast_atof_decimal [OF assms] d_finite_def inf_mag_def)

text \<open>A decimal is read with a relative error of at most \<open>2 ^ - 53\<close>.\<close>

theorem decimal_read:
  assumes "is_decimal s"
  shows "d_finite (fast_atof s) \<and> \<bar>d_val (fast_atof s) - decimal_value s\<bar> \<le> decimal_value s / 2 ^ 53"
proof -
  have "d_val (fast_atof s) = mag_val (rnd (decimal_value s))"
    using decimal_key [OF assms] by (simp add: d_val_def d_key_def)
  moreover have "\<bar>mag_val (rnd (decimal_value s)) - decimal_value s\<bar> \<le> decimal_value s / 2 ^ 53"
    using decimal_bounds(3) [OF assms] rnd_error by auto
  ultimately show ?thesis using decimal_key(2) [OF assms] by simp
qed

lemma decimal_less:
  assumes "is_decimal a" "is_decimal b" "decimal_value a < decimal_value b"
  shows "fast_atof a < fast_atof b"
proof -
  have "2 powi (- 1022) \<le> decimal_value b" using decimal_bounds(1) [OF assms(1)] decimal_bounds(3) [OF assms(2)] assms(3) by auto
  from rnd_strict [OF decimal_bounds(1,3) [OF assms(1)] this decimal_gap [OF assms]]
  show ?thesis using decimal_key [OF assms(1)] decimal_key [OF assms(2)] by (simp add: less_double_def)
qed

lemma decimal_same:
  assumes "is_decimal a" "is_decimal b" "decimal_value a = decimal_value b"
  shows "fast_atof a = fast_atof b"
  using assms(3) by (simp add: fast_atof_decimal [OF assms(1)] fast_atof_decimal [OF assms(2)])

lemma decimal_eq:
  assumes "is_decimal a" "is_decimal b"
  shows "d_eq (fast_atof a) (fast_atof b) \<longleftrightarrow> decimal_value a = decimal_value b"
proof -
  consider "decimal_value a < decimal_value b" | "decimal_value a = decimal_value b" | "decimal_value b < decimal_value a" by linarith
  then show ?thesis
  proof cases
    case 1
    then show ?thesis using decimal_less [OF assms] by (auto simp: less_double_def d_eq_def)
  next
    case 2
    then show ?thesis using decimal_same [OF assms] decimal_key(2) [OF assms(1)] by (simp add: d_eq_def)
  next
    case 3
    then show ?thesis using decimal_less [OF assms(2,1)] by (auto simp: less_double_def d_eq_def)
  qed
qed

text \<open>C35: Decimal texts are ordered as the numbers they denote, and two of them name the same level of a book
  exactly when they denote the same number.\<close>

theorem decimal_order:
  assumes "is_decimal a" "is_decimal b"
  shows "(fast_atof a < fast_atof b \<longleftrightarrow> decimal_value a < decimal_value b)
    \<and> (d_eq (fast_atof a) (fast_atof b) \<longleftrightarrow> decimal_value a = decimal_value b)"
proof -
  have "decimal_value a < decimal_value b" if "fast_atof a < fast_atof b"
  proof (rule ccontr)
    assume "\<not> decimal_value a < decimal_value b"
    then have "fast_atof b < fast_atof a \<or> fast_atof b = fast_atof a"
      using decimal_less [OF assms(2,1)] decimal_same [OF assms(2,1)] by fastforce
    then show False using that by (auto simp: less_double_def)
  qed
  then show ?thesis using decimal_less [OF assms] decimal_eq [OF assms] by blast
qed

lemma decimal_zero: "is_decimal q \<Longrightarrow> d_eq (fast_atof q) 0 \<longleftrightarrow> decimal_value q = 0"
proof -
  assume q: "is_decimal q"
  have z: "is_decimal ''0''" "fast_atof ''0'' = 0" "all_digits ''0'' = 0" by code_simp+
  then have "decimal_value ''0'' = 0" by (simp add: decimal_value_def)
  then show ?thesis using decimal_eq [OF q z(1)] z(2) by simp
qed

section \<open>The book of a message\<close>

text \<open>The pairs of a side of a message, as texts, and what they say of a number: the quantity of the last
  pair whose price denotes it.\<close>

definition text_pair :: "level_json \<Rightarrow> (string \<times> string) option" where
  "text_pair l = (case l of Pair (Some price) (Some qty) \<Rightarrow> Some (price, qty) | _ \<Rightarrow> None)"

definition text_pairs :: "level_json list option \<Rightarrow> (string \<times> string) list" where
  "text_pairs field = (case field of None \<Rightarrow> [] | Some ls \<Rightarrow> List.map_filter text_pair ls)"

fun quoted_for :: "real \<Rightarrow> (string \<times> string) list \<Rightarrow> string option" where
  "quoted_for x [] = None"
| "quoted_for x ((price, qty) # ps) =
     (case quoted_for x ps of Some q \<Rightarrow> Some q | None \<Rightarrow> if decimal_value price = x then Some qty else None)"

definition all_decimal :: "(string \<times> string) list \<Rightarrow> bool" where
  "all_decimal ps \<longleftrightarrow> list_all (\<lambda>(price, qty). is_decimal price \<and> is_decimal qty) ps"

definition pair_level :: "string \<times> string \<Rightarrow> price_level" where
  "pair_level pq = \<lparr>lv_price = fast_atof (fst pq), lv_qty = fast_atof (snd pq)\<rparr>"

lemma map_filter_map_option: "List.map_filter (\<lambda>x. map_option f (g x)) xs = map f (List.map_filter g xs)"
  by (induction xs) (simp_all add: List.map_filter_simps split: option.split)

lemma valid_levels_pairs: "valid_levels field = map pair_level (text_pairs field)"
proof -
  have eq: "level_pair = (\<lambda>l. map_option pair_level (text_pair l))"
    by (rule ext) (auto simp: level_pair_def text_pair_def pair_level_def split: level_json.split option.split)
  show ?thesis unfolding valid_levels_def text_pairs_def eq map_filter_map_option by (simp split: option.split)
qed

lemma level_for_quoted:
  assumes "all_decimal ps" "is_decimal t"
  shows "level_for (fast_atof t) (map pair_level ps) = map_option fast_atof (quoted_for (decimal_value t) ps)"
  using assms(1)
proof (induction ps)
  case (Cons p ps)
  then have "d_eq (fast_atof (fst p)) (fast_atof t) \<longleftrightarrow> decimal_value (fst p) = decimal_value t"
    by (intro decimal_eq assms(2)) (auto simp: all_decimal_def)
  then show ?case using Cons by (cases p) (auto simp: all_decimal_def pair_level_def split: option.split)
qed simp

lemma quoted_in: "quoted_for x ps = Some q \<Longrightarrow> q \<in> snd ` set ps"
  by (induction x ps rule: quoted_for.induct) (auto split: option.splits if_splits)

lemma quoted_decimal: "quoted_for x ps = Some q \<Longrightarrow> all_decimal ps \<Longrightarrow> is_decimal q"
  using quoted_in [of x ps q] by (auto simp: all_decimal_def list_all_iff)

text \<open>A side of the book, read by number: what the message quotes for it, absent when that is zero, and
  what was there before when it quotes nothing.\<close>

definition quoted_side :: "(double \<Rightarrow> double \<Rightarrow> bool) \<Rightarrow> (string \<times> string) list \<Rightarrow> side \<Rightarrow> string \<Rightarrow> double option" where
  "quoted_side before ps m t = (case quoted_for (decimal_value t) ps of
      None \<Rightarrow> map_find before (fast_atof t) m
    | Some q \<Rightarrow> if decimal_value q = 0 then None else Some (fast_atof q))"

lemma side_after_quoted:
  assumes "all_decimal ps" "is_decimal t"
  shows "side_after before (map pair_level ps) m (fast_atof t) = quoted_side before ps m t"
  using quoted_decimal [OF _ assms(1)] decimal_zero
  by (auto simp: side_after_def quoted_side_def level_for_quoted [OF assms] split: option.split)

lemma decimal_levels_ok:
  assumes "all_decimal ps" shows "\<not> list_ex (\<lambda>l. d_nan (lv_price l)) (map pair_level ps)"
proof -
  have "\<not> d_nan (fast_atof (fst p))" if "p \<in> set ps" for p
    using decimal_key(2) [of "fst p"] assms that by (auto simp: all_decimal_def list_all_iff)
  then show ?thesis by (auto simp: list_ex_iff pair_level_def)
qed

text \<open>C36: A depth message whose prices and quantities are decimal texts updates the book without undefined
  behaviour, by the numbers the texts denote: looking up any number gives the quantity quoted
  last for it, and no other number's.\<close>

theorem decimal_book:
  assumes "book_inv b" "parse_depth jl json new_update = (True, u)" "event_document jl ''depthUpdate'' json = Some doc"
    and "all_decimal (take MAX_LEVELS (text_pairs (jl_levels jl doc ''b'')))"
    and "all_decimal (take MAX_LEVELS (text_pairs (jl_levels jl doc ''a'')))"
  shows "\<exists>b'. apply_update u b = Inr b' \<and> (\<forall>t. is_decimal t \<longrightarrow>
      map_find greater_price (fast_atof t) (ob_bids b') = quoted_side greater_price (take MAX_LEVELS (text_pairs (jl_levels jl doc ''b''))) (ob_bids b) t
    \<and> map_find less_price (fast_atof t) (ob_asks b') = quoted_side less_price (take MAX_LEVELS (text_pairs (jl_levels jl doc ''a''))) (ob_asks b) t)"
proof -
  have new: "length (du_bids new_update) = MAX_LEVELS" "length (du_asks new_update) = MAX_LEVELS"
    by (simp_all add: new_update_def)
  have u: "wf_update u" "counted_bids u = map pair_level (take MAX_LEVELS (text_pairs (jl_levels jl doc ''b'')))"
    "counted_asks u = map pair_level (take MAX_LEVELS (text_pairs (jl_levels jl doc ''a'')))"
    using parse_depth_levels [OF new assms(2)] assms(3) by (auto simp: valid_levels_pairs take_map)
  have "ok (apply_update u b)"
    using u decimal_levels_ok [OF assms(4)] decimal_levels_ok [OF assms(5)] by (simp add: apply_update_defined wf_update_def)
  then obtain b' where b': "apply_update u b = Inr b'" by (auto simp: ok_def split: sum.splits)
  have "price_ok (fast_atof t)" if "is_decimal t" for t using decimal_key(2) [OF that] by (simp add: price_ok_def)
  then show ?thesis using b' update_find [OF assms(1) b'] side_after_quoted assms(4,5) by (auto simp: u(2,3))
qed

text \<open>A text all of whose levels are decimal gives a message that can be handled.\<close>

definition decimal_text :: "json_lib \<Rightarrow> string \<Rightarrow> bool" where
  "decimal_text jl json = (case event_document jl ''depthUpdate'' json of
      None \<Rightarrow> True
    | Some doc \<Rightarrow> all_decimal (text_pairs (jl_levels jl doc ''b'')) \<and> all_decimal (text_pairs (jl_levels jl doc ''a'')))"

lemma all_decimal_take: "all_decimal ps \<Longrightarrow> all_decimal (take n ps)"
  by (auto simp: all_decimal_def list_all_iff dest: in_set_takeD)

lemma decimal_applicable:
  assumes "decimal_text jl json" "parsed_message jl json = Some m" shows "applicable m"
proof (cases "contains (quoted ''trade'') json")
  case True
  then show ?thesis using assms(2) by (auto simp: parsed_message_def applicable_def is_depth_def split: prod.splits bool.splits)
next
  case False
  then obtain u where u: "parse_depth jl json new_update = (True, u)" "msg_depth m = u"
    using assms(2) by (auto simp: parsed_message_def split: prod.splits bool.splits)
  have new: "length (du_bids new_update) = MAX_LEVELS" "length (du_asks new_update) = MAX_LEVELS"
    by (simp_all add: new_update_def)
  from parse_depth_levels [OF new u(1)] obtain doc where doc: "event_document jl ''depthUpdate'' json = Some doc" "wf_update u"
    "counted_bids u = map pair_level (take MAX_LEVELS (text_pairs (jl_levels jl doc ''b'')))"
    "counted_asks u = map pair_level (take MAX_LEVELS (text_pairs (jl_levels jl doc ''a'')))"
    by (auto simp: valid_levels_pairs take_map)
  then show ?thesis using assms(1) u(2) decimal_levels_ok all_decimal_take
    by (simp add: applicable_def decimal_text_def wf_update_def)
qed

lemma decimal_texts_applicable: "list_all (decimal_text jl) texts \<Longrightarrow> list_all applicable (parsed_messages jl texts)"
  by (auto simp: parsed_messages_def List.map_filter_def list_all_iff intro: decimal_applicable)

section \<open>Concrete prices\<close>

theorem decimal_read_witness: "d_finite (fast_atof ''67432.10000000'') \<and> \<bar>d_val (fast_atof ''67432.10000000'') - 67432.1\<bar> \<le> 67432.1 / 2 ^ 53"
proof -
  have "all_digits ''67432.10000000'' = 6743210000000" "length (frac_part ''67432.10000000'') = 8" by code_simp+
  then have "decimal_value ''67432.10000000'' = 67432.1" by (simp add: decimal_value_def)
  with decimal_read [OF decimal_examples(1)] show ?thesis by (simp only:)
qed

theorem decimal_order_witness:
  "d_eq (fast_atof ''67432.10'') (fast_atof ''67432.1'') \<and> fast_atof ''67432.1'' < fast_atof ''67432.11''"
proof -
  have d: "is_decimal ''67432.10''" "is_decimal ''67432.1''" "is_decimal ''67432.11''" by code_simp+
  have "all_digits ''67432.10'' = 6743210" "length (frac_part ''67432.10'') = 2" "all_digits ''67432.1'' = 674321"
    "length (frac_part ''67432.1'') = 1" "all_digits ''67432.11'' = 6743211" "length (frac_part ''67432.11'') = 2" by code_simp+
  then have "decimal_value ''67432.10'' = 67432.1" "decimal_value ''67432.1'' = 67432.1" "decimal_value ''67432.11'' = 67432.11"
    by (simp_all add: decimal_value_def)
  then show ?thesis using decimal_order [OF d(1,2)] decimal_order [OF d(2,3)] by simp
qed

text \<open>A message that names one price in two ways, the second time without quantity: the level is gone.\<close>

definition decimal_json :: json_lib where
  "decimal_json = sample_json\<lparr>jl_levels := (\<lambda>d k. Some (if k = ''b''
     then [Pair (Some ''67432.10'') (Some ''1.5''), Pair (Some ''67000'') (Some ''2''), Pair (Some ''67432.1'') (Some ''0.000'')] else []))\<rparr>"

theorem decimal_book_witness:
  "\<exists>u b. parse_depth decimal_json sample_doc new_update = (True, u) \<and> apply_update u (new_book ''BTC'') = Inr b
    \<and> map_find greater_price (fast_atof ''67432.100'') (ob_bids b) = None
    \<and> map_find greater_price (fast_atof ''67000.0'') (ob_bids b) = Some (fast_atof ''2'')"
proof -
  have "fst (parse_depth decimal_json sample_doc new_update)" by code_simp
  then obtain u where u: "parse_depth decimal_json sample_doc new_update = (True, u)" by (metis prod.collapse)
  have doc: "event_document decimal_json ''depthUpdate'' sample_doc = Some sample_doc" by code_simp
  let ?bids = "take MAX_LEVELS (text_pairs (jl_levels decimal_json sample_doc ''b''))"
  have ps: "?bids = [(''67432.10'', ''1.5''), (''67000'', ''2''), (''67432.1'', ''0.000'')]"
    "take MAX_LEVELS (text_pairs (jl_levels decimal_json sample_doc ''a'')) = []" by code_simp+
  have ok: "all_decimal ?bids" "all_decimal (take MAX_LEVELS (text_pairs (jl_levels decimal_json sample_doc ''a'')))"
    by code_simp+
  have t: "is_decimal ''67432.100''" "is_decimal ''67000.0''" by code_simp+
  have n: "all_digits ''67432.10'' = 6743210" "frac_part ''67432.10'' = ''10''" "all_digits ''67432.1'' = 674321"
    "frac_part ''67432.1'' = ''1''" "all_digits ''67432.100'' = 67432100" "frac_part ''67432.100'' = ''100''"
    "all_digits ''67000'' = 67000" "frac_part ''67000'' = []" "all_digits ''67000.0'' = 670000" "frac_part ''67000.0'' = ''0''"
    "all_digits ''0.000'' = 0" "all_digits ''2'' = 2" "frac_part ''2'' = []" by code_simp+
  have "quoted_side greater_price ?bids [] ''67432.100'' = None" "quoted_side greater_price ?bids [] ''67000.0'' = Some (fast_atof ''2'')"
    unfolding ps(1) quoted_side_def by (simp_all add: decimal_value_def n)
  then show ?thesis
    using decimal_book [OF book_inv_new [of "''BTC''"] u doc ok] t u by (auto simp: new_book_def)
qed

end
