(* ===== verification/Shutdown.thy ===== *)
theory Shutdown
  imports Replay_Engine
begin

text \<open>
  The end of a replay, from \<open>src/main.cpp\<close>, \<open>processing_thread.cpp\<close> and \<open>replay_engine.cpp\<close>: one
  flag stops both threads. The processing thread leaves its loop, drains the queue once and
  returns; the replay thread returns when it sees the flag. Nothing orders the two, and the
  lemmas say which messages that can cost.
\<close>

section \<open>The consumer's end\<close>

datatype consumer_phase = Consuming | Draining | Consumer_Exited

text \<open>\<open>pl_clean\<close> records whether the source had returned when the consumer found the queue empty for
  the last time; no step depends on it.\<close>

record pipeline =
  pl_sys :: sys
  pl_consumer :: consumer_phase
  pl_clean :: bool

inductive pipeline_step :: "(queue_message \<Rightarrow> queue_message) \<Rightarrow> pipeline \<Rightarrow> pipeline \<Rightarrow> bool" for moved where
  source: "sys_step moved (pl_sys p) s \<Longrightarrow> sy_handled s = sy_handled (pl_sys p) \<Longrightarrow>
    pipeline_step moved p (p\<lparr>pl_sys := s\<rparr>)"
| take_one: "pl_consumer p = Draining \<or> (pl_consumer p = Consuming \<and> sy_running (pl_sys p)) \<Longrightarrow>
    try_pop moved QUEUE_CAPACITY (sy_queue (pl_sys p)) = Some (m, q) \<Longrightarrow> handle m (sy_world (pl_sys p)) = Inr w \<Longrightarrow>
    pipeline_step moved p (p\<lparr>pl_sys := (pl_sys p)\<lparr>sy_queue := q, sy_world := w, sy_handled := sy_handled (pl_sys p) @ [m]\<rparr>\<rparr>)"
| leave_loop: "pl_consumer p = Consuming \<Longrightarrow> \<not> sy_running (pl_sys p) \<Longrightarrow>
    pipeline_step moved p (p\<lparr>pl_consumer := Draining\<rparr>)"
| exit: "pl_consumer p = Draining \<Longrightarrow> try_pop moved QUEUE_CAPACITY (sy_queue (pl_sys p)) = None \<Longrightarrow>
    pipeline_step moved p (p\<lparr>pl_consumer := Consumer_Exited, pl_clean := (sy_phase (pl_sys p) = Returned)\<rparr>)"

inductive_cases pipeline_stepE: "pipeline_step moved p p'"

definition pipeline_start :: "sys \<Rightarrow> pipeline" where
  "pipeline_start s = \<lparr>pl_sys = s, pl_consumer = Consuming, pl_clean = False\<rparr>"

inductive pipeline_reachable :: "(queue_message \<Rightarrow> queue_message) \<Rightarrow> sys \<Rightarrow> pipeline \<Rightarrow> bool" for moved s0 where
  pl_init: "pipeline_reachable moved s0 (pipeline_start s0)"
| pl_next: "pipeline_reachable moved s0 p \<Longrightarrow> pipeline_step moved p p' \<Longrightarrow> pipeline_reachable moved s0 p'"

text \<open>The condition of the main thread for ending a replay by itself.\<close>

definition replay_done :: "sys \<Rightarrow> bool" where
  "replay_done s \<longleftrightarrow> rp_finished (sy_replay s) \<and> q_empty (sy_queue s)"

section \<open>Nothing is lost when the source returns first\<close>

lemma pipeline_sys: "pipeline_reachable moved s0 p \<Longrightarrow> sys_reachable moved s0 (pl_sys p)"
proof (induction rule: pipeline_reachable.induct)
  case pl_init
  then show ?case by (simp add: pipeline_start_def sys_reachable.start)
next
  case (pl_next p p')
  from pl_next(2) show ?case
  proof cases
    case (take_one m q w)
    then have "sys_step moved (pl_sys p) (pl_sys p')" by (auto intro: sys_step.consume)
    then show ?thesis by (rule sys_reachable.step [OF pl_next(3)])
  qed (use pl_next(3) in \<open>auto intro: sys_reachable.step\<close>)
qed

lemma returned_stays:
  assumes "sys_step moved s s'" "sy_handled s' = sy_handled s" "sy_phase s = Returned"
  shows "sy_phase s' = Returned \<and> sy_queue s' = sy_queue s"
  using assms by cases auto

lemma exited_clean:
  assumes "pipeline_reachable moved s0 p" "ring_inv QUEUE_CAPACITY (sy_queue s0)"
  shows "pl_consumer p = Consumer_Exited \<and> pl_clean p \<longrightarrow>
     sy_phase (pl_sys p) = Returned \<and> try_pop moved QUEUE_CAPACITY (sy_queue (pl_sys p)) = None"
  using assms(1)
proof (induction rule: pipeline_reachable.induct)
  case pl_init
  then show ?case by (simp add: pipeline_start_def)
next
  case (pl_next p p')
  from pl_next(2) show ?case
  proof cases
    case (source s)
    then show ?thesis using pl_next(3) returned_stays [OF source(2,3)] by auto
  qed (use pl_next(3) in auto)
qed

lemma popped_none: "ring_inv QUEUE_CAPACITY q \<Longrightarrow> try_pop moved QUEUE_CAPACITY q = None \<Longrightarrow> q_items QUEUE_CAPACITY q = []"
  using ring.pop_cases [where moved = moved] by fastforce

text \<open>If the replay thread had returned when the processing thread found the queue empty for the
  last time, every message the queue ever took was handled: the replayed counter is the
  number of handled messages and the queue is empty.\<close>

theorem ordered_shutdown:
  assumes "map_of (disk_files dk) path = Some (recording h es)" "fh_magic h = FILE_MAGIC" "fh_version h = FILE_VERSION"
    and "list_all wf_entry es" "replay_load path dk new_replay = (True, r)"
    and "pipeline_reachable moved (sys_start r (new_engine conds None, clk)) p"
    and "pl_consumer p = Consumer_Exited" "pl_clean p"
  shows "rp_replayed (sy_replay (pl_sys p)) = of_nat (length (sy_handled (pl_sys p)))
    \<and> q_items QUEUE_CAPACITY (sy_queue (pl_sys p)) = []
    \<and> engine_after (new_engine conds None) (sy_handled (pl_sys p)) (fst (sy_world (pl_sys p)))"
proof -
  have v: "valid_capacity QUEUE_CAPACITY" by (simp add: valid_capacity_def QUEUE_CAPACITY_def)
  have inv: "replay_inv es conds (pl_sys p)"
    by (rule replay_inv_reachable [OF pipeline_sys [OF assms(6)] load_recording [OF assms(1-3,5)] assms(4)])
  have "ring_inv QUEUE_CAPACITY (sy_queue (sys_start r (new_engine conds None, clk)))"
    using ring_new [OF v] by (simp add: sys_start_def)
  then have "try_pop moved QUEUE_CAPACITY (sy_queue (pl_sys p)) = None"
    using exited_clean [OF assms(6)] assms(7,8) by blast
  then have "q_items QUEUE_CAPACITY (sy_queue (pl_sys p)) = []"
    using inv popped_none by (auto simp: replay_inv_def)
  then show ?thesis using inv by (auto simp: replay_inv_def)
qed

text \<open>A replay that the main thread ends because it is done is such a case: the reader is at the end
  of the file only once its thread has returned.\<close>

lemma done_returned:
  assumes "replay_inv es conds s" "replay_done s"
  shows "sy_phase s = Returned \<and> q_items QUEUE_CAPACITY (sy_queue s) = []"
  using assms q_empty_iff [of QUEUE_CAPACITY "sy_queue s"]
  by (auto simp: replay_inv_def replay_done_def ring_inv_def)

lemma done_stays:
  assumes "pipeline_reachable moved s0 p" "sy_phase s0 = Returned" "sy_queue s0 = q" "try_pop moved QUEUE_CAPACITY q = None"
  shows "sy_phase (pl_sys p) = Returned \<and> sy_queue (pl_sys p) = q \<and> sy_handled (pl_sys p) = sy_handled s0
    \<and> (pl_consumer p = Consumer_Exited \<longrightarrow> pl_clean p)"
  using assms(1)
proof (induction rule: pipeline_reachable.induct)
  case pl_init
  then show ?case using assms by (simp add: pipeline_start_def)
next
  case (pl_next p p')
  from pl_next(2) show ?case
  proof cases
    case (source s)
    then show ?thesis using pl_next(3) returned_stays [OF source(2,3)] by auto
  qed (use pl_next(3) assms(4) in auto)
qed

text \<open>When the main thread ends a replay because it is finished and the queue is empty, no later
  step can find another message: the consumer exits with everything handled.\<close>

theorem done_shutdown:
  assumes "replay_inv es conds s0" "replay_done s0" "pipeline_reachable moved s0 p"
  shows "sy_handled (pl_sys p) = sy_handled s0 \<and> q_items QUEUE_CAPACITY (sy_queue (pl_sys p)) = []
    \<and> (pl_consumer p = Consumer_Exited \<longrightarrow> pl_clean p)"
proof -
  note d = done_returned [OF assms(1,2)]
  have "ring_inv QUEUE_CAPACITY (sy_queue s0)" using assms(1) by (simp add: replay_inv_def)
  then have "try_pop moved QUEUE_CAPACITY (sy_queue s0) = None"
    using d ring.pop_cases [where moved = moved] by fastforce
  from done_stays [OF assms(3) d [THEN conjunct1] refl this] d show ?thesis by simp
qed

section \<open>At most one message can be lost\<close>

text \<open>
  What a source of messages promises about the flag: once it has fallen it stays so, and the
  source can then add to the queue no more than it already holds, at most one message.
  \<open>waits\<close> counts the messages in the queue, \<open>holds\<close> what the source may still push.
\<close>

locale stoppable =
  fixes step :: "'s \<Rightarrow> 's \<Rightarrow> bool"
    and inv :: "'s \<Rightarrow> bool"
    and on :: "'s \<Rightarrow> bool"
    and waits :: "'s \<Rightarrow> nat"
    and holds :: "'s \<Rightarrow> nat"
  assumes inv_step: "inv s \<Longrightarrow> step s s' \<Longrightarrow> inv s'"
    and holds_one: "holds s \<le> 1"
    and stays_off: "step s s' \<Longrightarrow> \<not> on s \<Longrightarrow> \<not> on s'"
    and adds_held: "inv s \<Longrightarrow> step s s' \<Longrightarrow> \<not> on s \<Longrightarrow> waits s' + holds s' \<le> waits s + holds s"
begin

text \<open>A source whose consumer has seen the flag (\<open>off\<close>), or has found the queue empty after that and
  returned (\<open>left\<close>).\<close>

definition leaving :: "bool \<Rightarrow> bool \<Rightarrow> 's \<Rightarrow> bool" where
  "leaving off left s \<longleftrightarrow> inv s \<and> (off \<longrightarrow> \<not> on s) \<and> (left \<longrightarrow> off \<and> waits s + holds s \<le> 1)"

lemma leaving_start: "inv s \<Longrightarrow> leaving False False s"
  by (simp add: leaving_def)

lemma leaving_step: "leaving off left s \<Longrightarrow> step s s' \<Longrightarrow> leaving off left s'"
  unfolding leaving_def using inv_step [of s s'] stays_off [of s s'] adds_held [of s s'] by fastforce

lemma leaving_take: "leaving off False s \<Longrightarrow> inv s' \<Longrightarrow> on s' = on s \<Longrightarrow> leaving off False s'"
  by (simp add: leaving_def)

lemma leaving_off: "leaving off left s \<Longrightarrow> \<not> on s \<Longrightarrow> leaving True left s"
  by (auto simp: leaving_def)

lemma leaving_exit: "leaving True left s \<Longrightarrow> waits s = 0 \<Longrightarrow> leaving True True s"
  using holds_one [of s] by (auto simp: leaving_def)

lemma left_one: "leaving off True s \<Longrightarrow> waits s \<le> 1"
  by (simp add: leaving_def)

end

definition source_step :: "(queue_message \<Rightarrow> queue_message) \<Rightarrow> sys \<Rightarrow> sys \<Rightarrow> bool" where
  "source_step moved s s' \<longleftrightarrow> sys_step moved s s' \<and> sy_handled s' = sy_handled s"

lemma source_step_cases:
  assumes "source_step moved s s'" "ring_inv QUEUE_CAPACITY (sy_queue s)"
  obtains (pushes) m where "sy_phase s = Pushing m" "sy_phase s' = Reading" "ring_inv QUEUE_CAPACITY (sy_queue s')"
      "q_items QUEUE_CAPACITY (sy_queue s') = q_items QUEUE_CAPACITY (sy_queue s) @ [m]" "sy_running s' = sy_running s"
  | (keeps) "sy_queue s' = sy_queue s" "sy_running s' \<longrightarrow> sy_running s"
      "sy_phase s' = sy_phase s \<or> sy_phase s' = Returned \<or> sy_running s"
proof -
  have "sys_step moved s s'" "sy_handled s' = sy_handled s" using assms(1) by (simp_all add: source_step_def)
  then show thesis
  proof cases
    case (push m q)
    from assms(2) show thesis
    proof (cases rule: ring.push_cases [where x = m])
      case (room q')
      then show thesis using push by (intro pushes [of m]) auto
    qed (use push in simp)
  qed (auto intro: keeps)
qed

interpretation replaying: stoppable "source_step moved" "\<lambda>s. ring_inv QUEUE_CAPACITY (sy_queue s)" sy_running
  "\<lambda>s. q_count QUEUE_CAPACITY (sy_queue s)" "\<lambda>s. length (in_hand (sy_phase s))"
  for moved
proof unfold_locales
  fix s s' :: sys
  show "length (in_hand (sy_phase s)) \<le> 1" by (simp add: in_hand_def split: phase.split)
  show "\<not> sy_running s'" if "source_step moved s s'" "\<not> sy_running s"
    using that(1) [unfolded source_step_def, THEN conjunct1] that(2) by cases auto
  assume inv: "ring_inv QUEUE_CAPACITY (sy_queue s)" and st: "source_step moved s s'"
  show "ring_inv QUEUE_CAPACITY (sy_queue s')" using st inv by (rule source_step_cases) (use inv in auto)
  assume "\<not> sy_running s"
  with st inv show "q_count QUEUE_CAPACITY (sy_queue s') + length (in_hand (sy_phase s'))
      \<le> q_count QUEUE_CAPACITY (sy_queue s) + length (in_hand (sy_phase s))"
    by (cases rule: source_step_cases) (auto simp: in_hand_def simp flip: length_q_items)
qed

definition leaving_pipe :: "pipeline \<Rightarrow> bool" where
  "leaving_pipe p \<longleftrightarrow> ring_inv QUEUE_CAPACITY (sy_queue (pl_sys p))
     \<and> (pl_consumer p \<noteq> Consuming \<longrightarrow> \<not> sy_running (pl_sys p))
     \<and> (pl_consumer p = Consumer_Exited \<longrightarrow>
          q_count QUEUE_CAPACITY (sy_queue (pl_sys p)) + length (in_hand (sy_phase (pl_sys p))) \<le> 1)"

lemma leaving_pipe_eq:
  "leaving_pipe p = replaying.leaving (pl_consumer p \<noteq> Consuming) (pl_consumer p = Consumer_Exited) (pl_sys p)"
  by (auto simp: leaving_pipe_def replaying.leaving_def)

lemma leaving_pipe_step:
  assumes "leaving_pipe p" "pipeline_step moved p p'"
  shows "leaving_pipe p'"
proof -
  have l: "replaying.leaving (pl_consumer p \<noteq> Consuming) (pl_consumer p = Consumer_Exited) (pl_sys p)"
    and inv: "ring_inv QUEUE_CAPACITY (sy_queue (pl_sys p))"
    using assms(1) by (simp_all add: leaving_pipe_eq replaying.leaving_def)
  from assms(2) show ?thesis unfolding leaving_pipe_eq
  proof cases
    case (source s)
    then have "source_step moved (pl_sys p) s" by (simp add: source_step_def)
    then show "replaying.leaving (pl_consumer p' \<noteq> Consuming) (pl_consumer p' = Consumer_Exited) (pl_sys p')"
      using replaying.leaving_step [OF l] by (simp add: source(1))
  next
    case (take_one m q w)
    then have "pl_consumer p \<noteq> Consumer_Exited" "ring_inv QUEUE_CAPACITY q"
      using inv by (auto elim: ring.pop_cases [where moved = moved])
    then show "replaying.leaving (pl_consumer p' \<noteq> Consuming) (pl_consumer p' = Consumer_Exited) (pl_sys p')"
      using l by (auto simp: take_one(1) intro: replaying.leaving_take)
  next
    case leave_loop
    then show "replaying.leaving (pl_consumer p' \<noteq> Consuming) (pl_consumer p' = Consumer_Exited) (pl_sys p')"
      using replaying.leaving_off [OF l] by simp
  next
    case exit
    have "q_count QUEUE_CAPACITY (sy_queue (pl_sys p)) = 0"
      using popped_none [OF inv exit(3)] by (metis length_q_items list.size(3))
    then show "replaying.leaving (pl_consumer p' \<noteq> Consuming) (pl_consumer p' = Consumer_Exited) (pl_sys p')"
      using replaying.leaving_exit [of False "pl_sys p"] l by (simp add: exit(1,2))
  qed
qed

lemma leaving_pipe_start: "ring_inv QUEUE_CAPACITY (sy_queue s) \<Longrightarrow> leaving_pipe (pipeline_start s)"
  by (simp add: leaving_pipe_def pipeline_start_def)

lemma pipeline_leaving:
  "pipeline_reachable moved s0 p \<Longrightarrow> ring_inv QUEUE_CAPACITY (sy_queue s0) \<Longrightarrow> leaving_pipe p"
  by (induction rule: pipeline_reachable.induct) (auto intro: leaving_pipe_start leaving_pipe_step)

text \<open>Whatever the order in which the two threads notice the flag, once the processing thread has
  returned at most one message is left in the queue: the messages handled are those of the
  first records, in order, and the counter of replayed messages exceeds them by at most one.\<close>

theorem shutdown_loses_at_most_one:
  assumes "map_of (disk_files dk) path = Some (recording h es)" "fh_magic h = FILE_MAGIC" "fh_version h = FILE_VERSION"
    and "list_all wf_entry es" "replay_load path dk new_replay = (True, r)"
    and "pipeline_reachable moved (sys_start r (new_engine conds None, clk)) p"
    and "pl_consumer p = Consumer_Exited"
  defines "left \<equiv> length (q_items QUEUE_CAPACITY (sy_queue (pl_sys p)))"
    and "handled \<equiv> sy_handled (pl_sys p)"
  shows "left \<le> 1 \<and> rp_replayed (sy_replay (pl_sys p)) = of_nat (length handled + left)
    \<and> list_all2 carries handled (take (length handled) es)
    \<and> engine_after (new_engine conds None) handled (fst (sy_world (pl_sys p)))"
proof -
  have v: "valid_capacity QUEUE_CAPACITY" by (simp add: valid_capacity_def QUEUE_CAPACITY_def)
  have "ring_inv QUEUE_CAPACITY (sy_queue (sys_start r (new_engine conds None, clk)))"
    using ring_new [OF v] by (simp add: sys_start_def)
  from pipeline_leaving [OF assms(6) this] have "left \<le> 1"
    using assms(7) replaying.left_one [of True] by (simp add: left_def leaving_pipe_eq)
  moreover have inv: "replay_inv es conds (pl_sys p)"
    by (rule replay_inv_reachable [OF pipeline_sys [OF assms(6)] load_recording [OF assms(1-3,5)] assms(4)])
  then obtain j where "list_all2 carries (underway (pl_sys p)) (take j es)" "j \<le> length es"
    unfolding replay_inv_def by fastforce
  then have "list_all2 carries handled (take (length handled) (take j es))" "length handled \<le> j"
    using list_all2_takeI [of carries "underway (pl_sys p)" "take j es" "length handled"]
    by (auto simp: underway_def handled_def dest!: list_all2_lengthD)
  then have "list_all2 carries handled (take (length handled) es)" by (simp add: min_def)
  ultimately show ?thesis using inv by (simp add: replay_inv_def left_def handled_def)
qed

section \<open>A message can be lost when the consumer returns first\<close>

text \<open>
  The flag falls while the replay thread holds a message: the consumer drains the empty
  queue and returns, then the replay thread, which pushes before it looks at the flag,
  succeeds, counts the message as replayed, and returns.
\<close>

lemma lost_message:
  assumes "replay_load ''a.bin'' recorded_disk new_replay = (True, r)"
  obtains p where "pipeline_reachable id (sys_start r (new_engine conds None, clk)) p"
    "pl_consumer p = Consumer_Exited" "sy_phase (pl_sys p) = Returned"
    "sy_handled (pl_sys p) = []" "rp_replayed (sy_replay (pl_sys p)) = 1"
    "length (q_items QUEUE_CAPACITY (sy_queue (pl_sys p))) = 1"
proof -
  let ?s0 = "sys_start r (new_engine conds None, clk)"
  have v: "valid_capacity QUEUE_CAPACITY" by (simp add: valid_capacity_def QUEUE_CAPACITY_def)
  have np: "\<not> rp_paused r" "rp_speed r = REALTIME"
    using assms by (auto simp: replay_load_def new_replay_def split: prod.splits bool.splits)
  have ah: "ahead (rp_reader r) sample_entries" by (rule load_recording [OF recorded_file header_valid assms])
  then have "ahead (rp_reader r) (drop 0 sample_entries)" by simp
  from ahead_next [OF this sample_entries_ok(1)] obtain rd where
    rd: "read_next (rp_reader r) = (Some (read_back (sample_entries ! 0)), rd)" by (auto simp: sample_entries_def)
  obtain r1 m clk1 where n: "replay_next (replay_start r) clk = Inr (r1, Some (m, 0), clk1)"
    using rd by (auto simp: replay_next_def replay_start_def read_back_def replay_delay_def from_to_record replay_message_def now_def)
  have n1: "rp_replayed r1 = 0" "\<not> rp_paused r1"
    using n rd np(1) by (auto simp: replay_next_def replay_start_def read_back_def replay_delay_def from_to_record replay_message_def now_def)
  have room: "length (q_items QUEUE_CAPACITY (sy_queue ?s0)) = 0" by (simp add: sys_start_def q_new_items)
  have ri: "ring_inv QUEUE_CAPACITY (sy_queue ?s0)" using ring_new [OF v] by (simp add: sys_start_def)
  obtain q where q: "try_push QUEUE_CAPACITY m (sy_queue ?s0) = (True, q)" "q_items QUEUE_CAPACITY q = [m]"
    using ring.push_cases [OF ri, of m] room by (auto simp: QUEUE_CAPACITY_def sys_start_def q_new_items)
  have none: "try_pop id QUEUE_CAPACITY (sy_queue ?s0) = None"
    using ring.pop_cases [OF ri, where moved = id] room by fastforce
  let ?s1 = "?s0\<lparr>sy_replay := r1, sy_phase := Pushing m, sy_world := (fst (sy_world ?s0), clk1)\<rparr>"
  let ?s2 = "?s1\<lparr>sy_running := False\<rparr>"
  let ?s3 = "?s2\<lparr>sy_replay := count_replayed (sy_replay ?s2), sy_phase := Reading, sy_queue := q\<rparr>"
  let ?s4 = "?s3\<lparr>sy_phase := Returned\<rparr>"
  let ?p = "pipeline_start ?s0"
  have st1: "pipeline_step id ?p (?p\<lparr>pl_sys := ?s1\<rparr>)"
    using n np sys_step.read [of ?s0 r1 m 0 clk1 id]
    by (intro pipeline_step.source) (simp_all add: pipeline_start_def sys_start_def replay_start_def)
  have st2: "pipeline_step id (?p\<lparr>pl_sys := ?s1\<rparr>) (?p\<lparr>pl_sys := ?s2\<rparr>)"
    using pipeline_step.source [of id "?p\<lparr>pl_sys := ?s1\<rparr>" ?s2] sys_step.shutdown [of id ?s1] by (simp add: pipeline_start_def)
  have st3: "pipeline_step id (?p\<lparr>pl_sys := ?s2\<rparr>) (?p\<lparr>pl_sys := ?s2, pl_consumer := Draining\<rparr>)"
    using pipeline_step.leave_loop [of "?p\<lparr>pl_sys := ?s2\<rparr>"] by (simp add: pipeline_start_def)
  have st4: "pipeline_step id (?p\<lparr>pl_sys := ?s2, pl_consumer := Draining\<rparr>)
      (?p\<lparr>pl_sys := ?s2, pl_consumer := Consumer_Exited, pl_clean := False\<rparr>)"
    using pipeline_step.exit [of "?p\<lparr>pl_sys := ?s2, pl_consumer := Draining\<rparr>" id] none by (simp add: pipeline_start_def)
  have st5: "pipeline_step id (?p\<lparr>pl_sys := ?s2, pl_consumer := Consumer_Exited, pl_clean := False\<rparr>)
      (?p\<lparr>pl_sys := ?s3, pl_consumer := Consumer_Exited, pl_clean := False\<rparr>)"
    using q(1) pipeline_step.source [of id "?p\<lparr>pl_sys := ?s2, pl_consumer := Consumer_Exited, pl_clean := False\<rparr>" ?s3]
      sys_step.push [of ?s2 m q id] by (simp add: pipeline_start_def)
  have st6: "pipeline_step id (?p\<lparr>pl_sys := ?s3, pl_consumer := Consumer_Exited, pl_clean := False\<rparr>)
      (?p\<lparr>pl_sys := ?s4, pl_consumer := Consumer_Exited, pl_clean := False\<rparr>)"
    using pipeline_step.source [of id "?p\<lparr>pl_sys := ?s3, pl_consumer := Consumer_Exited, pl_clean := False\<rparr>" ?s4]
      sys_step.stopped [of ?s3 id] by (simp add: pipeline_start_def)
  note reach = pipeline_reachable.pl_next
  have "pipeline_reachable id ?s0 (?p\<lparr>pl_sys := ?s4, pl_consumer := Consumer_Exited, pl_clean := False\<rparr>)"
    by (rule reach [OF reach [OF reach [OF reach [OF reach [OF reach [OF pipeline_reachable.pl_init st1] st2] st3] st4] st5] st6])
  then show thesis
    by (rule that) (simp_all add: q(2) sys_start_def count_replayed_def n1(1))
qed

text \<open>C23: the order of the two threads is not ensured: some run of a valid recording ends with both
  threads returned, one record counted as replayed, none handled, and its message left in
  the queue.\<close>

theorem shutdown_loses_message:
  "\<exists>dk path r p. replay_load path dk new_replay = (True, r)
     \<and> pipeline_reachable id (sys_start r (new_engine [] None, sample_clock)) p
     \<and> pl_consumer p = Consumer_Exited \<and> sy_phase (pl_sys p) = Returned
     \<and> rp_replayed (sy_replay (pl_sys p)) = 1 \<and> sy_handled (pl_sys p) = []"
proof -
  obtain r where r: "replay_load ''a.bin'' recorded_disk new_replay = (True, r)" by (rule recorded_load)
  obtain p where "pipeline_reachable id (sys_start r (new_engine [] None, sample_clock)) p"
    "pl_consumer p = Consumer_Exited" "sy_phase (pl_sys p) = Returned"
    "sy_handled (pl_sys p) = []" "rp_replayed (sy_replay (pl_sys p)) = 1" by (rule lost_message [OF r])
  then show ?thesis using r by blast
qed

section \<open>Concrete shutdowns\<close>

text \<open>The shutdown before the first record: the source returns, then the consumer.\<close>

theorem ordered_shutdown_witness:
  "\<exists>r p. replay_load ''a.bin'' recorded_disk new_replay = (True, r)
     \<and> pipeline_reachable id (sys_start r (new_engine [] None, sample_clock)) p \<and> pl_clean p
     \<and> rp_replayed (sy_replay (pl_sys p)) = of_nat (length (sy_handled (pl_sys p)))"
proof -
  obtain r where r: "replay_load ''a.bin'' recorded_disk new_replay = (True, r)" by (rule recorded_load)
  let ?s0 = "sys_start r (new_engine [] None, sample_clock)"
  let ?s1 = "?s0\<lparr>sy_running := False\<rparr>"
  let ?s2 = "?s1\<lparr>sy_phase := Returned\<rparr>"
  let ?p = "pipeline_start ?s0"
  have v: "valid_capacity QUEUE_CAPACITY" by (simp add: valid_capacity_def QUEUE_CAPACITY_def)
  have none: "try_pop id QUEUE_CAPACITY (sy_queue ?s0) = None"
    using ring.pop_cases [OF ring_new [OF v, of new_message], where moved = id] by (fastforce simp: sys_start_def q_new_items)
  have st1: "pipeline_step id ?p (?p\<lparr>pl_sys := ?s1\<rparr>)"
    by (rule pipeline_step.source) (simp_all add: pipeline_start_def sys_step.shutdown)
  have st2: "pipeline_step id (?p\<lparr>pl_sys := ?s1\<rparr>) (?p\<lparr>pl_sys := ?s2\<rparr>)"
    using pipeline_step.source [of id "?p\<lparr>pl_sys := ?s1\<rparr>" ?s2] sys_step.stopped [of ?s1 id]
    by (simp add: pipeline_start_def sys_start_def)
  have st3: "pipeline_step id (?p\<lparr>pl_sys := ?s2\<rparr>) (?p\<lparr>pl_sys := ?s2, pl_consumer := Draining\<rparr>)"
    using pipeline_step.leave_loop [of "?p\<lparr>pl_sys := ?s2\<rparr>"] by (simp add: pipeline_start_def)
  have st4: "pipeline_step id (?p\<lparr>pl_sys := ?s2, pl_consumer := Draining\<rparr>)
      (?p\<lparr>pl_sys := ?s2, pl_consumer := Consumer_Exited, pl_clean := True\<rparr>)"
    using pipeline_step.exit [of "?p\<lparr>pl_sys := ?s2, pl_consumer := Draining\<rparr>" id] none by (simp add: pipeline_start_def)
  note reach = pipeline_reachable.pl_next
  have p: "pipeline_reachable id ?s0 (?p\<lparr>pl_sys := ?s2, pl_consumer := Consumer_Exited, pl_clean := True\<rparr>)"
    by (rule reach [OF reach [OF reach [OF reach [OF pipeline_reachable.pl_init st1] st2] st3] st4])
  from ordered_shutdown [OF recorded_file header_valid sample_entries_ok(1) r p] show ?thesis
    using r p by (intro exI [of _ r] exI [of _ "?p\<lparr>pl_sys := ?s2, pl_consumer := Consumer_Exited, pl_clean := True\<rparr>"]) simp
qed

theorem shutdown_loses_at_most_one_witness:
  "\<exists>r p. replay_load ''a.bin'' recorded_disk new_replay = (True, r)
     \<and> pipeline_reachable id (sys_start r (new_engine [] None, sample_clock)) p \<and> pl_consumer p = Consumer_Exited
     \<and> rp_replayed (sy_replay (pl_sys p)) = 1 \<and> length (q_items QUEUE_CAPACITY (sy_queue (pl_sys p))) = 1"
proof -
  obtain r where r: "replay_load ''a.bin'' recorded_disk new_replay = (True, r)" by (rule recorded_load)
  obtain p where p: "pipeline_reachable id (sys_start r (new_engine [] None, sample_clock)) p"
    "pl_consumer p = Consumer_Exited" "sy_phase (pl_sys p) = Returned" "sy_handled (pl_sys p) = []"
    "rp_replayed (sy_replay (pl_sys p)) = 1" "length (q_items QUEUE_CAPACITY (sy_queue (pl_sys p))) = 1"
    by (rule lost_message [OF r])
  from shutdown_loses_at_most_one [OF recorded_file header_valid sample_entries_ok(1) r p(1,2)]
  show ?thesis using r p(1,2,5,6) by blast
qed

theorem done_shutdown_witness:
  "\<exists>s. replay_done s \<and> rp_finished (sy_replay s) \<and> sy_handled (pl_sys (pipeline_start s)) = sy_handled s
     \<and> q_items QUEUE_CAPACITY (sy_queue (pl_sys (pipeline_start s))) = []"
proof -
  obtain r where r: "replay_load ''a.bin'' recorded_disk new_replay = (True, r)" by (rule recorded_load)
  obtain s where s: "sys_reachable id (sys_start r (new_engine sample_conditions None, sample_clock)) s"
    "rp_finished (sy_replay s)" "q_empty (sy_queue s)" "sy_phase s = Returned" by (rule recorded_finish [OF r])
  have inv: "replay_inv sample_entries sample_conditions s"
    by (rule replay_inv_reachable [OF s(1) load_recording [OF recorded_file header_valid r] sample_entries_ok(1)])
  have d: "replay_done s" using s by (simp add: replay_done_def)
  from done_shutdown [OF inv d pipeline_reachable.pl_init] show ?thesis using d s(2) by blast
qed

end
