(* ===== verification/Config_Loader.thy ===== *)
theory Config_Loader
  imports Ieee_Double
begin

text \<open>
  \<open>src/config/config_loader.h\<close> and \<open>config_loader.cpp\<close>: the configuration of the program and
  how a YAML document overrides its defaults. The YAML library is not part of the
  repository: it is the parameter \<open>yaml_lib\<close>, over any type of nodes.
\<close>

section \<open>The configuration\<close>

record reconnect_config =
  rcf_initial_delay_ms :: u32
  rcf_max_delay_ms :: u32
  rcf_multiplier :: double

record feed_config =
  fc_url :: string
  fc_port :: string
  fc_symbols :: "string list"
  fc_streams :: "string list"
  fc_reconnect :: reconnect_config

record file_log_config =
  fl_enabled :: bool
  fl_path :: string
  fl_max_size_mb :: u32
  fl_max_files :: u32

record logging_config =
  lc_level :: string
  lc_console :: bool
  lc_file :: file_log_config

record server_config =
  sc_metrics_port :: u16
  sc_ws_port :: u16

record recording_config =
  rec_enabled :: bool
  rec_output_dir :: string

record app_config =
  ac_name :: string
  ac_feed :: feed_config
  ac_logging :: logging_config
  ac_server :: server_config
  ac_recording :: recording_config

definition default_reconnect :: reconnect_config where
  "default_reconnect = \<lparr>rcf_initial_delay_ms = 100, rcf_max_delay_ms = 30000, rcf_multiplier = double_of_int 2\<rparr>"

definition default_feed :: feed_config where
  "default_feed = \<lparr>fc_url = ''stream.binance.com'', fc_port = ''9443'', fc_symbols = [], fc_streams = [],
     fc_reconnect = default_reconnect\<rparr>"

definition default_file_log :: file_log_config where
  "default_file_log = \<lparr>fl_enabled = True, fl_path = ''logs/engine.log'', fl_max_size_mb = 50, fl_max_files = 3\<rparr>"

definition default_logging :: logging_config where
  "default_logging = \<lparr>lc_level = ''info'', lc_console = True, lc_file = default_file_log\<rparr>"

definition default_server :: server_config where
  "default_server = \<lparr>sc_metrics_port = 8080, sc_ws_port = 8081\<rparr>"

definition default_recording :: recording_config where
  "default_recording = \<lparr>rec_enabled = False, rec_output_dir = ''recordings/''\<rparr>"

definition default_config :: app_config where
  "default_config = \<lparr>ac_name = ''market-data-engine'', ac_feed = default_feed, ac_logging = default_logging,
     ac_server = default_server, ac_recording = default_recording\<rparr>"

section \<open>The YAML library\<close>

text \<open>
  The exceptions of the loader: the file cannot be read or parsed; a key is looked up in a
  node that has none; a list element is no string. \<open>yl_get\<close> is \<open>Inr None\<close> for a missing key; a
  conversion is \<open>None\<close> where \<open>as<T>\<close> falls back to its argument or throws.
\<close>

datatype config_error = Load_Failed string | Bad_Subscript | Bad_Conversion

type_synonym 'a loaded = "config_error + 'a"

record 'n yaml_lib =
  yl_load :: "string \<Rightarrow> string + 'n"
  yl_get :: "'n \<Rightarrow> string \<Rightarrow> 'n option loaded"
  yl_items :: "'n \<Rightarrow> 'n list"
  yl_string :: "'n \<Rightarrow> string option"
  yl_bool :: "'n \<Rightarrow> bool option"
  yl_u16 :: "'n \<Rightarrow> u16 option"
  yl_u32 :: "'n \<Rightarrow> u32 option"
  yl_double :: "'n \<Rightarrow> double option"

definition and_then :: "'a loaded \<Rightarrow> ('a \<Rightarrow> 'b loaded) \<Rightarrow> 'b loaded" where
  [code_unfold]: "and_then r k = (case r of Inl e \<Rightarrow> Inl e | Inr x \<Rightarrow> k x)"

lemma and_then_simps [simp]: "and_then (Inl e) k = Inl e" "and_then (Inr x) k = k x"
  by (simp_all add: and_then_def)

lemma and_then_Inr: "and_then r k = Inr y \<longleftrightarrow> (\<exists>x. r = Inr x \<and> k x = Inr y)"
  by (cases r) simp_all

section \<open>The loader\<close>

text \<open>\<open>node[key].as<T>(fallback)\<close>; \<open>if (auto n = node[key]) { ... }\<close>; and the loop over a list.\<close>

definition get_or :: "'n yaml_lib \<Rightarrow> 'n \<Rightarrow> string \<Rightarrow> ('n \<Rightarrow> 'a option) \<Rightarrow> 'a \<Rightarrow> 'a loaded" where
  "get_or lib node key conv fallback = and_then (yl_get lib node key) (\<lambda>n.
     Inr (case n of None \<Rightarrow> fallback | Some n \<Rightarrow> (case conv n of None \<Rightarrow> fallback | Some v \<Rightarrow> v)))"

definition when_present :: "'n yaml_lib \<Rightarrow> 'n \<Rightarrow> string \<Rightarrow> ('n \<Rightarrow> 'c \<Rightarrow> 'c loaded) \<Rightarrow> 'c \<Rightarrow> 'c loaded" where
  "when_present lib node key f cfg = and_then (yl_get lib node key) (\<lambda>n.
     case n of None \<Rightarrow> Inr cfg | Some n \<Rightarrow> f n cfg)"

fun strings_of :: "('n \<Rightarrow> string option) \<Rightarrow> 'n list \<Rightarrow> string list loaded" where
  "strings_of conv [] = Inr []"
| "strings_of conv (n # ns) = (case conv n of
     None \<Rightarrow> Inl Bad_Conversion
   | Some s \<Rightarrow> and_then (strings_of conv ns) (\<lambda>ss. Inr (s # ss)))"

definition load_list :: "'n yaml_lib \<Rightarrow> 'n \<Rightarrow> string list \<Rightarrow> string list loaded" where
  "load_list lib n old = strings_of (yl_string lib) (yl_items lib n)"

definition load_engine :: "'n yaml_lib \<Rightarrow> 'n \<Rightarrow> string \<Rightarrow> string loaded" where
  "load_engine lib n name = get_or lib n ''name'' (yl_string lib) name"

definition load_reconnect :: "'n yaml_lib \<Rightarrow> 'n \<Rightarrow> reconnect_config \<Rightarrow> reconnect_config loaded" where
  "load_reconnect lib n c =
     and_then (get_or lib n ''initial_delay_ms'' (yl_u32 lib) (rcf_initial_delay_ms c)) (\<lambda>i.
     and_then (get_or lib n ''max_delay_ms'' (yl_u32 lib) (rcf_max_delay_ms c)) (\<lambda>m.
     and_then (get_or lib n ''multiplier'' (yl_double lib) (rcf_multiplier c)) (\<lambda>k.
     Inr \<lparr>rcf_initial_delay_ms = i, rcf_max_delay_ms = m, rcf_multiplier = k\<rparr>)))"

definition load_feed :: "'n yaml_lib \<Rightarrow> 'n \<Rightarrow> feed_config \<Rightarrow> feed_config loaded" where
  "load_feed lib n c =
     and_then (get_or lib n ''url'' (yl_string lib) (fc_url c)) (\<lambda>url.
     and_then (get_or lib n ''port'' (yl_string lib) (fc_port c)) (\<lambda>port.
     and_then (when_present lib n ''symbols'' (load_list lib) (fc_symbols c)) (\<lambda>symbols.
     and_then (when_present lib n ''streams'' (load_list lib) (fc_streams c)) (\<lambda>streams.
     and_then (when_present lib n ''reconnect'' (load_reconnect lib) (fc_reconnect c)) (\<lambda>rc.
     Inr \<lparr>fc_url = url, fc_port = port, fc_symbols = symbols, fc_streams = streams, fc_reconnect = rc\<rparr>)))))"

definition load_file_log :: "'n yaml_lib \<Rightarrow> 'n \<Rightarrow> file_log_config \<Rightarrow> file_log_config loaded" where
  "load_file_log lib n c =
     and_then (get_or lib n ''enabled'' (yl_bool lib) (fl_enabled c)) (\<lambda>enabled.
     and_then (get_or lib n ''path'' (yl_string lib) (fl_path c)) (\<lambda>path.
     and_then (get_or lib n ''max_size_mb'' (yl_u32 lib) (fl_max_size_mb c)) (\<lambda>size_mb.
     and_then (get_or lib n ''max_files'' (yl_u32 lib) (fl_max_files c)) (\<lambda>files.
     Inr \<lparr>fl_enabled = enabled, fl_path = path, fl_max_size_mb = size_mb, fl_max_files = files\<rparr>))))"

definition load_logging :: "'n yaml_lib \<Rightarrow> 'n \<Rightarrow> logging_config \<Rightarrow> logging_config loaded" where
  "load_logging lib n c =
     and_then (get_or lib n ''level'' (yl_string lib) (lc_level c)) (\<lambda>level.
     and_then (get_or lib n ''console'' (yl_bool lib) (lc_console c)) (\<lambda>console.
     and_then (when_present lib n ''file'' (load_file_log lib) (lc_file c)) (\<lambda>file.
     Inr \<lparr>lc_level = level, lc_console = console, lc_file = file\<rparr>)))"

definition load_server :: "'n yaml_lib \<Rightarrow> 'n \<Rightarrow> server_config \<Rightarrow> server_config loaded" where
  "load_server lib n c =
     and_then (get_or lib n ''metrics_port'' (yl_u16 lib) (sc_metrics_port c)) (\<lambda>mp.
     and_then (get_or lib n ''ws_port'' (yl_u16 lib) (sc_ws_port c)) (\<lambda>wp.
     Inr \<lparr>sc_metrics_port = mp, sc_ws_port = wp\<rparr>))"

definition load_recording :: "'n yaml_lib \<Rightarrow> 'n \<Rightarrow> recording_config \<Rightarrow> recording_config loaded" where
  "load_recording lib n c =
     and_then (get_or lib n ''enabled'' (yl_bool lib) (rec_enabled c)) (\<lambda>enabled.
     and_then (get_or lib n ''output_dir'' (yl_string lib) (rec_output_dir c)) (\<lambda>dir.
     Inr \<lparr>rec_enabled = enabled, rec_output_dir = dir\<rparr>))"

definition load_config :: "'n yaml_lib \<Rightarrow> string \<Rightarrow> app_config loaded" where
  "load_config lib path = (case yl_load lib path of
      Inl e \<Rightarrow> Inl (Load_Failed (''Failed to load config: '' @ e))
    | Inr doc \<Rightarrow>
       (let c = default_config in
        and_then (when_present lib doc ''engine'' (load_engine lib) (ac_name c)) (\<lambda>name.
        and_then (when_present lib doc ''feed'' (load_feed lib) (ac_feed c)) (\<lambda>feed.
        and_then (when_present lib doc ''logging'' (load_logging lib) (ac_logging c)) (\<lambda>logging.
        and_then (when_present lib doc ''server'' (load_server lib) (ac_server c)) (\<lambda>server.
        and_then (when_present lib doc ''recording'' (load_recording lib) (ac_recording c)) (\<lambda>recording.
        Inr \<lparr>ac_name = name, ac_feed = feed, ac_logging = logging, ac_server = server, ac_recording = recording\<rparr>)))))))"

section \<open>Every setting comes from its place in the document or is the default\<close>

fun node_at :: "'n yaml_lib \<Rightarrow> 'n \<Rightarrow> string list \<Rightarrow> 'n option" where
  "node_at lib n [] = Some n"
| "node_at lib n (k # ks) = (case yl_get lib n k of Inr (Some m) \<Rightarrow> node_at lib m ks | _ \<Rightarrow> None)"

definition setting :: "'n yaml_lib \<Rightarrow> 'n \<Rightarrow> string list \<Rightarrow> ('n \<Rightarrow> 'a option) \<Rightarrow> 'a \<Rightarrow> 'a" where
  "setting lib doc ks conv d = (case node_at lib doc ks of
      None \<Rightarrow> d | Some n \<Rightarrow> (case conv n of None \<Rightarrow> d | Some v \<Rightarrow> v))"

definition list_setting :: "'n yaml_lib \<Rightarrow> 'n \<Rightarrow> string list \<Rightarrow> string list" where
  "list_setting lib doc ks = (case node_at lib doc ks of
      None \<Rightarrow> [] | Some n \<Rightarrow> map (the \<circ> yl_string lib) (yl_items lib n))"

lemma get_or_setting: "get_or lib n k conv d = Inr v \<Longrightarrow> v = setting lib n [k] conv d"
  by (auto simp: get_or_def setting_def and_then_Inr split: option.splits)

lemma strings_of_Inr: "strings_of conv ns = Inr ss \<Longrightarrow> ss = map (the \<circ> conv) ns"
  by (induction ns arbitrary: ss) (auto simp: and_then_Inr split: option.splits)

lemma list_present:
  "when_present lib n k (load_list lib) [] = Inr v \<Longrightarrow> v = list_setting lib n [k]"
  by (auto simp: when_present_def and_then_Inr load_list_def list_setting_def dest: strings_of_Inr split: option.splits)

text \<open>A section that is present hands its settings down; one that is missing leaves the defaults.\<close>

lemma present_cases:
  assumes "when_present lib n k f c = Inr v"
  obtains (missing) "yl_get lib n k = Inr None" "v = c"
    | (there) m where "yl_get lib n k = Inr (Some m)" "f m c = Inr v"
proof (cases "yl_get lib n k")
  case (Inr x)
  then show thesis using assms missing there by (cases x) (simp_all add: when_present_def)
qed (use assms in \<open>simp add: when_present_def\<close>)

lemma setting_below [simp]:
  "yl_get lib n k = Inr None \<Longrightarrow> setting lib n (k # ks) conv d = d"
  "yl_get lib n k = Inr (Some m) \<Longrightarrow> setting lib n (k # ks) conv d = setting lib m ks conv d"
  "yl_get lib n k = Inr None \<Longrightarrow> list_setting lib n (k # ks) = []"
  "yl_get lib n k = Inr (Some m) \<Longrightarrow> list_setting lib n (k # ks) = list_setting lib m ks"
  by (simp_all add: setting_def list_setting_def)

lemma reconnect_settings:
  "when_present lib n k (load_reconnect lib) c = Inr v \<Longrightarrow> v =
     \<lparr>rcf_initial_delay_ms = setting lib n [k, ''initial_delay_ms''] (yl_u32 lib) (rcf_initial_delay_ms c),
      rcf_max_delay_ms = setting lib n [k, ''max_delay_ms''] (yl_u32 lib) (rcf_max_delay_ms c),
      rcf_multiplier = setting lib n [k, ''multiplier''] (yl_double lib) (rcf_multiplier c)\<rparr>"
  by (erule present_cases) (auto simp: load_reconnect_def and_then_Inr dest!: get_or_setting)

lemma feed_settings:
  assumes "when_present lib n k (load_feed lib) c = Inr v" "fc_symbols c = []" "fc_streams c = []"
  shows "fc_url v = setting lib n [k, ''url''] (yl_string lib) (fc_url c)
    \<and> fc_port v = setting lib n [k, ''port''] (yl_string lib) (fc_port c)
    \<and> fc_symbols v = list_setting lib n [k, ''symbols''] \<and> fc_streams v = list_setting lib n [k, ''streams'']
    \<and> rcf_initial_delay_ms (fc_reconnect v) = setting lib n [k, ''reconnect'', ''initial_delay_ms''] (yl_u32 lib) (rcf_initial_delay_ms (fc_reconnect c))
    \<and> rcf_max_delay_ms (fc_reconnect v) = setting lib n [k, ''reconnect'', ''max_delay_ms''] (yl_u32 lib) (rcf_max_delay_ms (fc_reconnect c))
    \<and> rcf_multiplier (fc_reconnect v) = setting lib n [k, ''reconnect'', ''multiplier''] (yl_double lib) (rcf_multiplier (fc_reconnect c))"
  using assms by (elim present_cases)
    (auto simp: load_feed_def and_then_Inr dest!: get_or_setting list_present reconnect_settings)

lemma logging_settings:
  assumes "when_present lib n k (load_logging lib) c = Inr v"
  shows "lc_level v = setting lib n [k, ''level''] (yl_string lib) (lc_level c)
    \<and> lc_console v = setting lib n [k, ''console''] (yl_bool lib) (lc_console c)
    \<and> fl_enabled (lc_file v) = setting lib n [k, ''file'', ''enabled''] (yl_bool lib) (fl_enabled (lc_file c))
    \<and> fl_path (lc_file v) = setting lib n [k, ''file'', ''path''] (yl_string lib) (fl_path (lc_file c))
    \<and> fl_max_size_mb (lc_file v) = setting lib n [k, ''file'', ''max_size_mb''] (yl_u32 lib) (fl_max_size_mb (lc_file c))
    \<and> fl_max_files (lc_file v) = setting lib n [k, ''file'', ''max_files''] (yl_u32 lib) (fl_max_files (lc_file c))"
proof -
  have logfile: "when_present lib m ''file'' (load_file_log lib) d = Inr w \<Longrightarrow>
      fl_enabled w = setting lib m [''file'', ''enabled''] (yl_bool lib) (fl_enabled d)
    \<and> fl_path w = setting lib m [''file'', ''path''] (yl_string lib) (fl_path d)
    \<and> fl_max_size_mb w = setting lib m [''file'', ''max_size_mb''] (yl_u32 lib) (fl_max_size_mb d)
    \<and> fl_max_files w = setting lib m [''file'', ''max_files''] (yl_u32 lib) (fl_max_files d)" for m d w
    by (erule present_cases) (auto simp: load_file_log_def and_then_Inr dest!: get_or_setting)
  show ?thesis using assms
    by (elim present_cases) (auto simp: load_logging_def and_then_Inr dest!: get_or_setting logfile)
qed

lemma small_settings:
  "when_present lib n k (load_engine lib) d = Inr name \<Longrightarrow> name = setting lib n [k, ''name''] (yl_string lib) d"
  "when_present lib n k (load_server lib) sc = Inr sv \<Longrightarrow>
     sc_metrics_port sv = setting lib n [k, ''metrics_port''] (yl_u16 lib) (sc_metrics_port sc)
   \<and> sc_ws_port sv = setting lib n [k, ''ws_port''] (yl_u16 lib) (sc_ws_port sc)"
  "when_present lib n k (load_recording lib) rc = Inr rv \<Longrightarrow>
     rec_enabled rv = setting lib n [k, ''enabled''] (yl_bool lib) (rec_enabled rc)
   \<and> rec_output_dir rv = setting lib n [k, ''output_dir''] (yl_string lib) (rec_output_dir rc)"
  by (erule present_cases; auto simp: load_engine_def load_server_def load_recording_def and_then_Inr dest!: get_or_setting)+

lemma load_config_parts:
  assumes "load_config lib path = Inr c"
  obtains doc where "yl_load lib path = Inr doc"
    "when_present lib doc ''engine'' (load_engine lib) (ac_name default_config) = Inr (ac_name c)"
    "when_present lib doc ''feed'' (load_feed lib) default_feed = Inr (ac_feed c)"
    "when_present lib doc ''logging'' (load_logging lib) default_logging = Inr (ac_logging c)"
    "when_present lib doc ''server'' (load_server lib) default_server = Inr (ac_server c)"
    "when_present lib doc ''recording'' (load_recording lib) default_recording = Inr (ac_recording c)"
  using assms by (auto simp: load_config_def Let_def and_then_Inr default_config_def split: sum.splits)

text \<open>A configuration that loads has each setting from its own place in the document, converted, or
  the default when the place is missing or does not convert: sections do not influence each
  other, and a partial section keeps the defaults of the rest.\<close>

theorem config_settings:
  assumes "load_config lib path = Inr c" "yl_load lib path = Inr doc"
  shows "ac_name c = setting lib doc [''engine'', ''name''] (yl_string lib) ''market-data-engine''
    \<and> fc_url (ac_feed c) = setting lib doc [''feed'', ''url''] (yl_string lib) ''stream.binance.com''
    \<and> fc_port (ac_feed c) = setting lib doc [''feed'', ''port''] (yl_string lib) ''9443''
    \<and> fc_symbols (ac_feed c) = list_setting lib doc [''feed'', ''symbols'']
    \<and> fc_streams (ac_feed c) = list_setting lib doc [''feed'', ''streams'']
    \<and> rcf_initial_delay_ms (fc_reconnect (ac_feed c)) = setting lib doc [''feed'', ''reconnect'', ''initial_delay_ms''] (yl_u32 lib) 100
    \<and> rcf_max_delay_ms (fc_reconnect (ac_feed c)) = setting lib doc [''feed'', ''reconnect'', ''max_delay_ms''] (yl_u32 lib) 30000
    \<and> lc_level (ac_logging c) = setting lib doc [''logging'', ''level''] (yl_string lib) ''info''
    \<and> fl_max_size_mb (lc_file (ac_logging c)) = setting lib doc [''logging'', ''file'', ''max_size_mb''] (yl_u32 lib) 50
    \<and> sc_metrics_port (ac_server c) = setting lib doc [''server'', ''metrics_port''] (yl_u16 lib) 8080
    \<and> sc_ws_port (ac_server c) = setting lib doc [''server'', ''ws_port''] (yl_u16 lib) 8081
    \<and> rec_enabled (ac_recording c) = setting lib doc [''recording'', ''enabled''] (yl_bool lib) False
    \<and> rec_output_dir (ac_recording c) = setting lib doc [''recording'', ''output_dir''] (yl_string lib) ''recordings/''"
proof -
  obtain doc' where p: "yl_load lib path = Inr doc'"
    "when_present lib doc' ''engine'' (load_engine lib) (ac_name default_config) = Inr (ac_name c)"
    "when_present lib doc' ''feed'' (load_feed lib) default_feed = Inr (ac_feed c)"
    "when_present lib doc' ''logging'' (load_logging lib) default_logging = Inr (ac_logging c)"
    "when_present lib doc' ''server'' (load_server lib) default_server = Inr (ac_server c)"
    "when_present lib doc' ''recording'' (load_recording lib) default_recording = Inr (ac_recording c)"
    by (rule load_config_parts [OF assms(1)])
  have r: "doc' = doc" using p(1) assms(2) by simp
  have "fc_symbols default_feed = []" "fc_streams default_feed = []" by (simp_all add: default_feed_def)
  note feed = feed_settings [OF p(3) this]
  show ?thesis
    using small_settings(1) [OF p(2)] feed logging_settings [OF p(4)] small_settings(2) [OF p(5)] small_settings(3) [OF p(6)]
    unfolding r by (simp add: default_config_def default_feed_def default_reconnect_def default_logging_def
        default_file_log_def default_server_def default_recording_def)
qed

section \<open>A concrete document\<close>

datatype yaml_node = Scalar string | Sequence "yaml_node list" | Table "(string \<times> yaml_node) list"

definition scalar :: "yaml_node \<Rightarrow> string option" where
  "scalar n = (case n of Scalar s \<Rightarrow> Some s | _ \<Rightarrow> None)"

definition decimal_word :: "string \<Rightarrow> 'w::len word option" where
  "decimal_word s = (if s \<noteq> [] \<and> list_all (\<lambda>c. 48 \<le> (of_char c :: nat) \<and> (of_char c :: nat) \<le> 57) s
     then Some (of_nat (foldl (\<lambda>n c. 10 * n + (of_char c - 48)) 0 s)) else None)"

definition tree_yaml :: "yaml_node \<Rightarrow> yaml_node yaml_lib" where
  "tree_yaml doc = \<lparr>yl_load = (\<lambda>path. if path = ''dev.yaml'' then Inr doc else Inl ''bad file''),
     yl_get = (\<lambda>n k. case n of Table m \<Rightarrow> Inr (map_of m k) | Sequence ns \<Rightarrow> Inr None | Scalar s \<Rightarrow> Inl Bad_Subscript),
     yl_items = (\<lambda>n. case n of Sequence ns \<Rightarrow> ns | _ \<Rightarrow> []),
     yl_string = scalar,
     yl_bool = (\<lambda>n. case scalar n of None \<Rightarrow> None | Some s \<Rightarrow> if s = ''true'' then Some True else if s = ''false'' then Some False else None),
     yl_u16 = (\<lambda>n. case scalar n of None \<Rightarrow> None | Some s \<Rightarrow> decimal_word s),
     yl_u32 = (\<lambda>n. case scalar n of None \<Rightarrow> None | Some s \<Rightarrow> decimal_word s),
     yl_double = (\<lambda>n. None)\<rparr>"

definition sample_doc_tree :: yaml_node where
  "sample_doc_tree = Table [(''feed'', Table [(''symbols'', Sequence [Scalar ''btcusdt'', Scalar ''ethusdt'']),
       (''reconnect'', Table [(''max_delay_ms'', Scalar ''5000'')])]),
     (''server'', Table [(''ws_port'', Scalar ''9001''), (''metrics_port'', Scalar ''many'')])]"

theorem config_settings_witness:
  "\<exists>c. load_config (tree_yaml sample_doc_tree) ''dev.yaml'' = Inr c
    \<and> fc_symbols (ac_feed c) = [''btcusdt'', ''ethusdt'']
    \<and> rcf_max_delay_ms (fc_reconnect (ac_feed c)) = 5000 \<and> rcf_initial_delay_ms (fc_reconnect (ac_feed c)) = 100
    \<and> sc_ws_port (ac_server c) = 9001 \<and> sc_metrics_port (ac_server c) = 8080"
proof -
  let ?lib = "tree_yaml sample_doc_tree"
  have "case load_config ?lib ''dev.yaml'' of Inl _ \<Rightarrow> False | Inr _ \<Rightarrow> True" by code_simp
  then obtain c where c: "load_config ?lib ''dev.yaml'' = Inr c" by (auto split: sum.splits)
  have "yl_load ?lib ''dev.yaml'' = Inr sample_doc_tree" by (simp add: tree_yaml_def)
  note s = config_settings [OF c this]
  have v: "list_setting ?lib sample_doc_tree [''feed'', ''symbols''] = [''btcusdt'', ''ethusdt'']"
    "setting ?lib sample_doc_tree [''feed'', ''reconnect'', ''max_delay_ms''] (yl_u32 ?lib) 30000 = 5000"
    "setting ?lib sample_doc_tree [''feed'', ''reconnect'', ''initial_delay_ms''] (yl_u32 ?lib) 100 = 100"
    "setting ?lib sample_doc_tree [''server'', ''ws_port''] (yl_u16 ?lib) 8081 = 9001"
    "setting ?lib sample_doc_tree [''server'', ''metrics_port''] (yl_u16 ?lib) 8080 = 8080"
    by code_simp+
  show ?thesis using s c by (intro exI [of _ c]) (simp only: v simp_thms)
qed

end
