(* ===== verification/Ws_Client.thy ===== *)
theory Ws_Client
  imports Feed_Handler Config_Loader Double_Integers
begin

text \<open>
  \<open>src/feed/reconnect_policy.h\<close>, \<open>ws_client.h\<close> and \<open>ws_client.cpp\<close>: the connection to the
  exchange, its exponential backoff and the path of the streams it asks for. What the
  network does in an attempt to connect is an argument of the model.
\<close>

section \<open>The backoff policy\<close>

record reconnect_policy =
  bo_initial :: u32
  bo_max :: u32
  bo_multiplier :: double
  bo_current :: u32

definition new_policy :: "u32 \<Rightarrow> u32 \<Rightarrow> double \<Rightarrow> reconnect_policy" where
  "new_policy initial_ms max_ms mult = \<lparr>bo_initial = initial_ms, bo_max = max_ms, bo_multiplier = mult, bo_current = initial_ms\<rparr>"

text \<open>The product is a \<open>double\<close>; its conversion to 32 bits is undefined when it does not fit.\<close>

definition next_delay_ms :: "reconnect_policy \<Rightarrow> (u32 \<times> reconnect_policy) res" where
  "next_delay_ms p = bind_res (double_to_uint 32 (double_of_int (uint (bo_current p)) * bo_multiplier p)) (\<lambda>n.
     Inr (bo_current p, p\<lparr>bo_current := min (word_of_int n) (bo_max p)\<rparr>))"

definition reset_policy :: "reconnect_policy \<Rightarrow> reconnect_policy" where
  "reset_policy p = p\<lparr>bo_current := bo_initial p\<rparr>"

section \<open>The client\<close>

text \<open>
  An attempt fails at one of its stages, before the policy is reset, or it connects and
  delivers texts until a flag or an exception of the read ends it. A round of the loop is
  the flags at its head, the attempt, and the flags after it.
\<close>

datatype connect_stage = Resolve | Tcp_Connect | Set_Sni | Tls_Handshake | Ws_Handshake

datatype attempt = Fails connect_stage | Connected "string list"

datatype round = Round bool attempt bool

type_synonym 's message_callback = "(string \<Rightarrow> 's \<Rightarrow> 's) option"

definition deliver :: "'s message_callback \<Rightarrow> string \<Rightarrow> 's \<Rightarrow> 's" where
  "deliver cb json s = (case cb of None \<Rightarrow> s | Some f \<Rightarrow> f json s)"

definition connect_and_run :: "'s message_callback \<Rightarrow> attempt \<Rightarrow> reconnect_policy \<times> 's \<Rightarrow> reconnect_policy \<times> 's" where
  "connect_and_run cb a st = (case a of
      Fails stage \<Rightarrow> st
    | Connected texts \<Rightarrow> (reset_policy (fst st), fold (deliver cb) texts (snd st)))"

fun ws_run :: "'s message_callback \<Rightarrow> round list \<Rightarrow> reconnect_policy \<times> 's \<Rightarrow> (u32 list \<times> reconnect_policy \<times> 's) res" where
  "ws_run cb [] st = Inr ([], st)"
| "ws_run cb (Round go a again # rs) st =
     (if \<not> go then Inr ([], st)
      else let st = connect_and_run cb a st
           in if \<not> again then Inr ([], st)
              else bind_res (next_delay_ms (fst st)) (\<lambda>dp.
                   bind_res (ws_run cb rs (snd dp, snd st)) (\<lambda>r. Inr (fst dp # fst r, snd r))))"

definition new_client_policy :: "feed_config \<Rightarrow> reconnect_policy" where
  "new_client_policy cfg = new_policy (rcf_initial_delay_ms (fc_reconnect cfg)) (rcf_max_delay_ms (fc_reconnect cfg))
     (rcf_multiplier (fc_reconnect cfg))"

text \<open>The loop over symbols and streams, with the flag for the separator.\<close>

definition add_stream :: "string \<Rightarrow> string \<Rightarrow> string \<times> bool \<Rightarrow> string \<times> bool" where
  "add_stream symbol stream st = ((if snd st then fst st else fst st @ ''/'') @ symbol @ ''@'' @ stream, False)"

definition build_stream_path :: "feed_config \<Rightarrow> string" where
  "build_stream_path cfg =
     (if length (fc_symbols cfg) = 1 \<and> length (fc_streams cfg) = 1
      then ''/ws/'' @ hd (fc_symbols cfg) @ ''@'' @ hd (fc_streams cfg)
      else fst (fold (\<lambda>symbol. fold (add_stream symbol) (fc_streams cfg)) (fc_symbols cfg) (''/stream?streams='', True)))"

section \<open>What the backoff computes\<close>

lemma product_key:
  assumes "d_finite k" "0 \<le> c" "c < 2 ^ 32"
  shows "d_key (double_of_int c * k) = srnd (of_int c * d_val k)"
  using assms double_of_int_exact [of c] by (simp add: key_mult)

lemma next_delay_exact:
  assumes "bo_multiplier p = double_of_int k" "1 \<le> k" "k < 2 ^ 32" "uint (bo_current p) * k < 2 ^ 32"
  shows "next_delay_ms p = Inr (bo_current p, p\<lparr>bo_current := min (word_of_int (uint (bo_current p) * k)) (bo_max p)\<rparr>)"
proof -
  let ?c = "uint (bo_current p)" and ?d = "double_of_int (uint (bo_current p)) * double_of_int k"
  have c: "0 \<le> ?c" "?c < 2 ^ 32" using uint_lt2p [of "bo_current p"] by simp_all
  have ck: "0 \<le> ?c * k" "?c * k < 2 ^ 53" using c assms by simp_all
  have k: "d_val (double_of_int k) = of_int k" "d_finite (double_of_int k)" "\<not> d_sign (double_of_int k)"
    using double_of_int_exact [of k] assms(2,3) by simp_all
  note e = double_of_int_exact [OF ck]
  have "d_key ?d = srnd (of_int (?c * k))" using product_key [OF k(2) c] by (simp add: k(1))
  also have "\<dots> = d_key (double_of_int (?c * k))" using srnd_d_val [OF e(2)] by (simp only: e(1))
  finally have key: "d_key ?d = d_key (double_of_int (?c * k))" .
  then have v: "d_val ?d = of_int (?c * k)" using d_val_le_iff [of ?d] d_val_le_iff [of _ ?d] e(1) by (metis order_antisym order_refl)
  have f: "d_finite ?d" using key e(2) by (simp add: d_finite_key)
  have "\<not> d_sign ?d" using k c double_of_int_exact [of ?c] by (intro mult_sign) simp_all
  then have "d_trunc ?d = ?c * k" using v by (simp add: trunc_floor del: of_int_mult)
  then show ?thesis using f ck(1) assms(1,4) by (simp add: next_delay_ms_def double_to_uint_def)
qed

text \<open>
  The delays a run should have: they grow by the factor with each round since the last
  connection, from the initial delay to the maximal one.
\<close>

fun backoff_delays :: "int \<Rightarrow> int \<Rightarrow> int \<Rightarrow> nat \<Rightarrow> round list \<Rightarrow> int list" where
  "backoff_delays i m k n [] = []"
| "backoff_delays i m k n (Round go a again # rs) =
     (if \<not> go \<or> \<not> again then []
      else let n = (case a of Fails stage \<Rightarrow> n | Connected texts \<Rightarrow> 0)
           in min (i * k ^ n) m # backoff_delays i m k (Suc n) rs)"

fun received :: "round list \<Rightarrow> string list" where
  "received [] = []"
| "received (Round go a again # rs) =
     (if \<not> go then [] else (case a of Fails stage \<Rightarrow> [] | Connected texts \<Rightarrow> texts) @ (if again then received rs else []))"

definition policy_at :: "u32 \<Rightarrow> u32 \<Rightarrow> int \<Rightarrow> nat \<Rightarrow> reconnect_policy \<Rightarrow> bool" where
  "policy_at i m k n p \<longleftrightarrow> bo_initial p = i \<and> bo_max p = m \<and> bo_multiplier p = double_of_int k
     \<and> uint (bo_current p) = min (uint i * k ^ n) (uint m)"

lemma cap_step: "1 \<le> k \<Longrightarrow> min (min a m * k) m = min (a * k) m" if "0 \<le> m" for a m k :: int
proof (cases "a \<le> m")
  case False
  assume k: "1 \<le> k"
  have "m \<le> m * k" "m * k \<le> a * k" using mult_left_mono [OF k that] k False by (simp_all add: mult_right_mono)
  then show ?thesis using False by simp
qed (simp add: min_def)

lemma policy_step:
  assumes "policy_at i m k n p" "1 \<le> k" "k < 2 ^ 32" "uint m * k < 2 ^ 32"
  obtains p' where "next_delay_ms p = Inr (bo_current p, p')" "policy_at i m k (Suc n) p'"
proof -
  let ?c = "uint (bo_current p)"
  have m: "?c \<le> uint m" "bo_max p = m" using assms(1) by (simp_all add: policy_at_def)
  have "?c * k \<le> uint m * k" using m(1) assms(2) by (intro mult_right_mono) simp_all
  then have small: "?c * k < 2 ^ 32" using assms(4) by linarith
  have "0 \<le> ?c * k" using assms(2) by simp
  define w :: u32 where "w = word_of_int (?c * k)"
  have w: "uint w = ?c * k" unfolding w_def using small \<open>0 \<le> ?c * k\<close> by (subst uint_word_of_int) (simp add: take_bit_int_eq_self)
  have "uint (min w m) = min (?c * k) (uint m)" by (auto simp: min_def word_le_def w)
  also have "\<dots> = min (uint i * k ^ n * k) (uint m)"
    using assms(1,2) by (simp add: policy_at_def cap_step)
  finally have "uint (min w m) = min (uint i * k ^ Suc n) (uint m)" by (simp add: mult.left_commute mult.commute)
  then have "policy_at i m k (Suc n) (p\<lparr>bo_current := min w (bo_max p)\<rparr>)"
    using assms(1) by (simp add: policy_at_def m(2))
  then show thesis using next_delay_exact [of p k] assms small unfolding w_def by (intro that) (auto simp: policy_at_def)
qed

lemma ws_run_delays:
  assumes "policy_at i m k n (fst st)" "1 \<le> k" "k < 2 ^ 32" "uint m * k < 2 ^ 32" "uint i \<le> uint m"
  shows "\<exists>ds p. ws_run cb rs st = Inr (ds, p, fold (deliver cb) (received rs) (snd st))
    \<and> map uint ds = backoff_delays (uint i) (uint m) k n rs"
  using assms(1)
proof (induction rs arbitrary: n st)
  case (Cons r rs)
  obtain go a again where r: "r = Round go a again" by (cases r)
  define n' where "n' = (case a of Fails stage \<Rightarrow> n | Connected texts \<Rightarrow> 0)"
  let ?st = "connect_and_run cb a st"
  have p: "policy_at i m k n' (fst ?st)"
    using Cons.prems assms(5) by (cases a) (auto simp: connect_and_run_def n'_def policy_at_def reset_policy_def)
  obtain p' where p': "next_delay_ms (fst ?st) = Inr (bo_current (fst ?st), p')" "policy_at i m k (Suc n') p'"
    by (rule policy_step [OF p assms(2-4)])
  have s: "snd ?st = fold (deliver cb) (case a of Fails stage \<Rightarrow> [] | Connected texts \<Rightarrow> texts) (snd st)"
    by (cases a) (simp_all add: connect_and_run_def)
  have d: "uint (bo_current (fst ?st)) = min (uint i * k ^ n') (uint m)" using p by (simp add: policy_at_def)
  obtain ds q where q: "ws_run cb rs (p', snd ?st) = Inr (ds, q, fold (deliver cb) (received rs) (snd ?st))"
    "map uint ds = backoff_delays (uint i) (uint m) k (Suc n') rs"
    using Cons.IH [of "Suc n'" "(p', snd ?st)"] p'(2) by auto
  have n: "backoff_delays (uint i) (uint m) k n (r # rs)
      = (if \<not> go \<or> \<not> again then [] else min (uint i * k ^ n') (uint m) # backoff_delays (uint i) (uint m) k (Suc n') rs)"
    by (simp add: r n'_def Let_def)
  show ?case
  proof (cases "go \<and> again")
    case True
    then show ?thesis using p'(1) q s d by (simp add: r Let_def flip: n'_def)
  next
    case False
    then have "\<exists>p. ws_run cb (r # rs) st = Inr ([], p, fold (deliver cb) (received (r # rs)) (snd st))"
      using s by (cases ?st; cases st) (auto simp: r Let_def)
    then show ?thesis using False n by auto
  qed
qed (auto intro: prod.collapse [symmetric])



text \<open>Any factor of at least one: the delays stay between the initial and the maximal one and
  never shrink before a connection, if the largest product fits 32 bits.\<close>

definition grows :: "reconnect_policy \<Rightarrow> bool" where
  "grows p \<longleftrightarrow> d_finite (bo_multiplier p) \<and> 1 \<le> bo_multiplier p \<and> bo_initial p \<le> bo_current p \<and> bo_current p \<le> bo_max p
     \<and> double_of_int (uint (bo_max p)) * bo_multiplier p < double_of_int (2 ^ 32)"

lemma next_delay_grows:
  assumes "grows p"
  obtains p' where "next_delay_ms p = Inr (bo_current p, p')" "grows p'" "bo_current p \<le> bo_current p'"
    "bo_initial p' = bo_initial p" "bo_max p' = bo_max p" "bo_multiplier p' = bo_multiplier p"
proof -
  let ?k = "bo_multiplier p" and ?c = "uint (bo_current p)" and ?m = "uint (bo_max p)"
  let ?d = "double_of_int ?c * ?k"
  have cm: "0 \<le> ?c" "?c < 2 ^ 32" "?m < 2 ^ 32" "0 \<le> ?m" "?c \<le> ?m"
    using uint_lt2p [of "bo_current p"] uint_lt2p [of "bo_max p"] assms by (simp_all add: grows_def word_le_def)
  have k: "d_finite ?k" using assms by (simp add: grows_def)
  have "d_key 1 \<le> d_key ?k" using assms by (simp add: grows_def less_eq_double_def)
  then have k1: "1 \<le> d_val ?k" "\<not> d_sign ?k"
    using d_val_le_iff [of 1 ?k] d_sign_pos [of ?k] by (simp_all add: d_key_def [of 1])
  have "0 \<le> real_of_int ?c" using cm(1) by (simp only: of_int_0_le_iff)
  then have lo: "real_of_int ?c \<le> of_int ?c * d_val ?k" using mult_left_mono [OF k1(1), of "real_of_int ?c"] by (simp only: mult_1_right)
  have hi: "of_int ?c * d_val ?k \<le> of_int ?m * d_val ?k"
    using k1(1) cm(5) by (intro mult_right_mono) (simp_all only: of_int_le_iff)
  have "?c < 2 ^ 53" using cm(2) by simp
  note exact = double_of_int_exact [OF cm(1) this]
  have "srnd (of_int ?c) = d_key (double_of_int ?c)" using srnd_d_val [OF exact(2)] by (simp only: exact(1))
  then have "d_key (double_of_int ?c) \<le> d_key ?d"
    unfolding product_key [OF k cm(1,2)] using srnd_mono [OF lo] by (simp only:)
  then have "?c \<le> d_val ?d" using d_val_le_iff [of "double_of_int ?c" ?d] double_of_int_exact [of ?c] cm by simp
  moreover have "d_key ?d < d_key (double_of_int (2 ^ 32))"
  proof -
    have "d_key ?d \<le> d_key (double_of_int ?m * ?k)"
      unfolding product_key [OF k cm(1,2)] product_key [OF k cm(4,3)] by (rule srnd_mono [OF hi])
    then show ?thesis using assms by (simp add: grows_def less_double_def)
  qed
  then have top: "d_val ?d < 2 ^ 32" using d_val_less_iff [of ?d "double_of_int (2 ^ 32)"] double_of_int_exact [of "2 ^ 32"] by simp
  moreover have f: "d_finite ?d"
    using \<open>d_key ?d < d_key (double_of_int (2 ^ 32))\<close> \<open>d_key (double_of_int ?c) \<le> d_key ?d\<close>
      double_of_int_exact [of "2 ^ 32"] double_of_int_exact [of ?c] cm by (simp add: d_finite_key)
  moreover have "\<not> d_sign ?d" using k k1 cm double_of_int_exact [of ?c] by (intro mult_sign) simp_all
  ultimately have t: "?c \<le> d_trunc ?d" "d_trunc ?d < 2 ^ 32" by (simp_all add: trunc_floor le_floor_iff floor_less_iff)
  define n :: u32 where "n = word_of_int (d_trunc ?d)"
  have "0 \<le> d_trunc ?d" using t(1) cm(1) by linarith
  then have n: "uint n = d_trunc ?d" unfolding n_def using t by (subst uint_word_of_int) (simp add: take_bit_int_eq_self)
  have next': "next_delay_ms p = Inr (bo_current p, p\<lparr>bo_current := min n (bo_max p)\<rparr>)"
    using t f \<open>0 \<le> d_trunc ?d\<close> by (simp add: next_delay_ms_def double_to_uint_def n_def)
  have up: "bo_current p \<le> min n (bo_max p)" using t(1) cm(5) n by (simp add: word_le_def)
  have "grows (p\<lparr>bo_current := min n (bo_max p)\<rparr>)"
    using assms up by (auto simp: grows_def intro: order_trans)
  then show thesis using that [OF next'] up by simp
qed

definition failed :: "round \<Rightarrow> bool" where
  "failed r = (case r of Round go a again \<Rightarrow> (case a of Fails stage \<Rightarrow> True | Connected texts \<Rightarrow> False))"

lemma ws_run_grows:
  assumes "grows (fst st)"
  shows "\<exists>ds st'. ws_run cb rs st = Inr (ds, st') \<and> list_all (\<lambda>d. bo_initial (fst st) \<le> d \<and> d \<le> bo_max (fst st)) ds
    \<and> (list_all failed rs \<longrightarrow> sorted (bo_current (fst st) # ds))"
  using assms
proof (induction rs arbitrary: st)
  case (Cons r rs)
  obtain go a again where r: "r = Round go a again" by (cases r)
  let ?st = "connect_and_run cb a st"
  have g: "grows (fst ?st)" "bo_initial (fst ?st) = bo_initial (fst st)" "bo_max (fst ?st) = bo_max (fst st)"
    and kept: "failed r \<Longrightarrow> bo_current (fst ?st) = bo_current (fst st)"
    using Cons.prems by (auto simp: r failed_def connect_and_run_def grows_def reset_policy_def split: attempt.split)
  obtain p' where p': "next_delay_ms (fst ?st) = Inr (bo_current (fst ?st), p')" "grows p'" "bo_current (fst ?st) \<le> bo_current p'"
    "bo_initial p' = bo_initial (fst ?st)" "bo_max p' = bo_max (fst ?st)" by (rule next_delay_grows [OF g(1)])
  obtain ds st' where d: "ws_run cb rs (p', snd ?st) = Inr (ds, st')"
    "list_all (\<lambda>d. bo_initial (fst st) \<le> d \<and> d \<le> bo_max (fst st)) ds" "list_all failed rs \<longrightarrow> sorted (bo_current p' # ds)"
    using Cons.IH [of "(p', snd ?st)"] p' g by auto
  have "bo_initial (fst st) \<le> bo_current (fst ?st)" "bo_current (fst ?st) \<le> bo_max (fst st)"
    using g by (simp_all add: grows_def)
  then show ?case
    using p'(1,3) d kept by (auto simp: r Let_def intro: order_trans)
qed simp

text \<open>For any factor of at least one, a client that keeps trying is defined, every delay lies
  between the initial and the maximal one, and the delays of attempts that all fail never
  shrink.\<close>

theorem backoff_bounds:
  assumes "grows p"
  shows "\<exists>ds st'. ws_run cb rs (p, s) = Inr (ds, st') \<and> list_all (\<lambda>d. bo_initial p \<le> d \<and> d \<le> bo_max p) ds
    \<and> (list_all failed rs \<longrightarrow> sorted ds)"
  using ws_run_grows [of "(p, s)" cb rs] assms by auto

section \<open>The path of the streams\<close>

definition stream_names :: "feed_config \<Rightarrow> string list" where
  "stream_names cfg = concat (map (\<lambda>symbol. map (\<lambda>stream. symbol @ ''@'' @ stream) (fc_streams cfg)) (fc_symbols cfg))"

fun joined :: "string list \<Rightarrow> string" where
  "joined [] = []"
| "joined [n] = n"
| "joined (n # ns) = n @ ''/'' @ joined ns"

fun split_slash :: "string \<Rightarrow> string list" where
  "split_slash [] = [[]]"
| "split_slash (c # s) = (if c = CHR ''/'' then [] # split_slash s
     else case split_slash s of n # ns \<Rightarrow> (c # n) # ns | [] \<Rightarrow> [[c]])"

lemma joined_snoc: "ns \<noteq> [] \<Longrightarrow> joined (ns @ [n]) = joined ns @ ''/'' @ n"
  by (induction ns rule: joined.induct) simp_all

lemma add_streams_one:
  "fold (add_stream symbol) streams (pre @ joined ns, ns = [])
     = (pre @ joined (ns @ map (\<lambda>stream. symbol @ ''@'' @ stream) streams), ns = [] \<and> streams = [])"
proof (induction streams arbitrary: ns)
  case (Cons stream streams)
  have "add_stream symbol stream (pre @ joined ns, ns = []) = (pre @ joined (ns @ [symbol @ ''@'' @ stream]), ns @ [symbol @ ''@'' @ stream] = [])"
    by (cases "ns = []") (simp_all add: add_stream_def joined_snoc)
  then show ?case using Cons.IH [of "ns @ [symbol @ ''@'' @ stream]"] by simp
qed simp

lemma add_streams_all:
  "fst (fold (\<lambda>symbol. fold (add_stream symbol) streams) symbols (pre @ joined ns, ns = []))
     = pre @ joined (ns @ concat (map (\<lambda>symbol. map (\<lambda>stream. symbol @ ''@'' @ stream) streams) symbols))"
proof (induction symbols arbitrary: ns)
  case (Cons symbol symbols)
  have "(ns = [] \<and> streams = []) = (ns @ map (\<lambda>stream. symbol @ ''@'' @ stream) streams = [])" by simp
  then show ?case using Cons.IH [of "ns @ map (\<lambda>stream. symbol @ ''@'' @ stream) streams"]
    by (simp add: add_streams_one)
qed simp

lemma split_slash_ne: "split_slash s \<noteq> []"
  by (induction s) (auto split: list.split)

lemma split_word: "CHR ''/'' \<notin> set n \<Longrightarrow> split_slash n = [n]"
  by (induction n) auto

lemma split_word_slash: "CHR ''/'' \<notin> set n \<Longrightarrow> split_slash (n @ CHR ''/'' # s) = n # split_slash s"
  by (induction n) auto

lemma split_joined: "list_all (\<lambda>n. CHR ''/'' \<notin> set n) ns \<Longrightarrow> ns \<noteq> [] \<Longrightarrow> split_slash (joined ns) = ns"
  by (induction ns rule: joined.induct) (simp_all add: split_word split_word_slash)

lemma path_names: "build_stream_path cfg = (if length (fc_symbols cfg) = 1 \<and> length (fc_streams cfg) = 1
    then ''/ws/'' else ''/stream?streams='') @ joined (stream_names cfg)"
proof (cases "length (fc_symbols cfg) = 1 \<and> length (fc_streams cfg) = 1")
  case True
  then show ?thesis by (auto simp: build_stream_path_def stream_names_def length_Suc_conv)
next
  case False
  then show ?thesis
    using add_streams_all [of "fc_streams cfg" "fc_symbols cfg" "''/stream?streams=''" "[]"]
    by (auto simp: build_stream_path_def stream_names_def)
qed

text \<open>The path names every pair of a symbol and a stream, in order: what follows the prefix splits
  at the slashes into exactly the requested stream names.\<close>

theorem stream_path_roundtrip:
  assumes "stream_names cfg \<noteq> []" "list_all (\<lambda>n. CHR ''/'' \<notin> set n) (stream_names cfg)"
  shows "\<exists>path. build_stream_path cfg = (if length (fc_symbols cfg) = 1 \<and> length (fc_streams cfg) = 1
      then ''/ws/'' else ''/stream?streams='') @ path \<and> split_slash path = stream_names cfg"
  using path_names [of cfg] split_joined [OF assms(2,1)] by blast

section \<open>Concrete runs\<close>

definition sample_rounds :: "round list" where
  "sample_rounds = [Round True (Fails Resolve) True, Round True (Fails Tls_Handshake) True,
     Round True (Fails Tcp_Connect) True, Round True (Connected [''x'', ''y'']) True, Round True (Fails Set_Sni) True,
     Round True (Connected [''z'']) False, Round False (Fails Resolve) True]"

definition collect :: "string list message_callback" where
  "collect = Some (\<lambda>json s. s @ [json])"


theorem backoff_bounds_witness:
  "\<exists>ds st. ws_run collect sample_rounds (new_policy 100 30000 (double_lit 3 2), []) = Inr (ds, st)
    \<and> list_all (\<lambda>d. 100 \<le> d \<and> d \<le> 30000) ds"
proof -
  have "grows (new_policy 100 30000 (double_lit 3 2))" by code_simp
  from backoff_bounds [OF this, of collect sample_rounds "[]"] show ?thesis by (auto simp: new_policy_def)
qed

definition sample_feed_config :: feed_config where
  "sample_feed_config = default_feed\<lparr>fc_symbols := [''btcusdt'', ''ethusdt''], fc_streams := [''depth@100ms'', ''trade'']\<rparr>"

theorem stream_path_roundtrip_witness:
  "\<exists>path. build_stream_path sample_feed_config = ''/stream?streams='' @ path
    \<and> split_slash path = [''btcusdt@depth@100ms'', ''btcusdt@trade'', ''ethusdt@depth@100ms'', ''ethusdt@trade'']"
proof -
  have n: "stream_names sample_feed_config = [''btcusdt@depth@100ms'', ''btcusdt@trade'', ''ethusdt@depth@100ms'', ''ethusdt@trade'']"
    "length (fc_symbols sample_feed_config) = 2"
    by code_simp+
  have l: "stream_names sample_feed_config \<noteq> []" "list_all (\<lambda>n. CHR ''/'' \<notin> set n) (stream_names sample_feed_config)"
    by code_simp+
  from stream_path_roundtrip [OF l] n show ?thesis by simp
qed

text \<open>An initial delay above half the range overflows the conversion at the first round.\<close>

lemma overflowing_backoff:
  "next_delay_ms (new_policy 3000000000 4000000000 (double_of_int 2)) = Inl Cast_Range"
  by code_simp

end
