(* ===== verification/Live_Session.thy ===== *)
theory Live_Session
  imports Shutdown Ws_Client
begin

text \<open>
  The live side as one program: \<open>FeedHandler::start\<close> of \<open>src/feed/feed_handler.cpp\<close> runs the
  WebSocket client with \<open>on_message\<close> as its callback, beside the processing thread. First
  whole sessions over any number of connections, up to the books; then the end of a session,
  when the flag of \<open>src/main.cpp\<close> falls while the client may be blocked in a read.
\<close>

section \<open>A session over several connections\<close>

text \<open>The callback of the client. Between two texts the processing thread takes any number of turns,
  given by a list; the first fault ends the session.\<close>

type_synonym paced = "live res \<times> nat list"

definition next_turns :: "nat list \<Rightarrow> nat" where
  "next_turns ns = (case ns of [] \<Rightarrow> 0 | n # _ \<Rightarrow> n)"

definition on_text :: "json_lib \<Rightarrow> (queue_message \<Rightarrow> queue_message) \<Rightarrow> string \<Rightarrow> paced \<Rightarrow> paced" where
  "on_text jl moved json st =
     (bind_res (fst st) (\<lambda>s. bind_res (live_step jl moved (Receive json) s)
        (live_run jl moved (replicate (next_turns (snd st)) Turn))), tl (snd st))"

definition feed_session ::
    "json_lib \<Rightarrow> (queue_message \<Rightarrow> queue_message) \<Rightarrow> feed_config \<Rightarrow> round list \<Rightarrow> nat list \<Rightarrow> live \<Rightarrow> (u32 list \<times> live) res" where
  "feed_session jl moved cfg rounds turns s0 =
     bind_res (ws_run (Some (on_text jl moved)) rounds (new_client_policy cfg, (Inr s0, turns))) (\<lambda>r.
     bind_res (fst (snd (snd r))) (\<lambda>s. Inr (fst r, s)))"

fun paced_events :: "string list \<Rightarrow> nat list \<Rightarrow> live_event list" where
  "paced_events [] ns = []"
| "paced_events (t # ts) ns = Receive t # replicate (next_turns ns) Turn @ paced_events ts (tl ns)"

lemma texts_of_turns [simp]: "texts_of (replicate n Turn) = []"
  by (induction n) simp_all

lemma texts_of_paced [simp]: "texts_of (paced_events ts ns) = ts"
  by (induction ts ns rule: paced_events.induct) simp_all

lemma live_run_eq: "live_run jl moved evs = fold_res (live_step jl moved) evs"
  by (rule ext) (simp add: live_run_def)

lemma fold_on_text:
  "fst (fold (deliver (Some (on_text jl moved))) ts (r, ns)) = bind_res r (live_run jl moved (paced_events ts ns))"
proof (induction ts arbitrary: r ns)
  case Nil
  then show ?case by (cases r) (simp_all add: live_run_def)
next
  case (Cons t ts)
  show ?case
  proof (cases r)
    case (Inl f)
    then show ?thesis using Cons.IH [of "Inl f" "tl ns"] by (simp add: deliver_def on_text_def)
  next
    case (Inr s)
    have "live_run jl moved (Receive t # replicate n Turn @ evs) s
        = bind_res (bind_res (live_step jl moved (Receive t) s) (live_run jl moved (replicate n Turn))) (live_run jl moved evs)"
      for n evs
      using live_run_append [of jl moved "Receive t # replicate n Turn" evs s]
      by (simp add: live_run_eq del: live_step.simps)
    then show ?thesis using Cons.IH by (simp add: Inr deliver_def on_text_def del: live_step.simps)
  qed
qed

lemma ws_run_texts: "ws_run cb rs st = Inr (ds, p, x) \<Longrightarrow> x = fold (deliver cb) (received rs) (snd st)"
proof (induction cb rs st arbitrary: ds p x rule: ws_run.induct)
  case (2 cb go a again rs st)
  have s: "snd (connect_and_run cb a st) = fold (deliver cb) (case a of Fails stage \<Rightarrow> [] | Connected texts \<Rightarrow> texts) (snd st)"
    by (cases a) (simp_all add: connect_and_run_def)
  show ?case
  proof (cases "go \<and> again")
    case True
    then obtain dp r where "next_delay_ms (fst (connect_and_run cb a st)) = Inr dp"
      "ws_run cb rs (snd dp, snd (connect_and_run cb a st)) = Inr r" "r = (tl ds, p, x)"
      using "2.prems" by (fastforce simp: res_simps Let_def)
    then show ?thesis using "2.IH" True s by fastforce
  next
    case False
    then show ?thesis using "2.prems" s by (cases "connect_and_run cb a st") (auto simp: Let_def split: if_splits)
  qed
qed simp

lemma feed_session_run:
  assumes "feed_session jl moved cfg rounds turns s0 = Inr (delays, s)"
  shows "live_run jl moved (paced_events (received rounds) turns) s0 = Inr s"
proof -
  obtain r where r: "ws_run (Some (on_text jl moved)) rounds (new_client_policy cfg, (Inr s0, turns)) = Inr r"
    "fst (snd (snd r)) = Inr s" using assms by (auto simp: feed_session_def res_simps)
  have "snd (snd r) = fold (deliver (Some (on_text jl moved))) (received rounds) (Inr s0, turns)"
    using ws_run_texts [of _ _ _ "fst r" "fst (snd r)" "snd (snd r)"] r(1) by simp
  then show ?thesis using fold_on_text [of jl moved "received rounds" "Inr s0" turns] r(2) by simp
qed

lemma turns_empty:
  assumes "live_inv jl e0 texts s" "waiting s \<le> n" "live_run jl moved (replicate n Turn) s = Inr s'"
  shows "q_empty (lp_queue s') \<and> fh_queue_full (lp_feed s') = fh_queue_full (lp_feed s)"
  using assms
proof (induction n arbitrary: s)
  case 0
  then have "q_items QUEUE_CAPACITY (lp_queue s) = []" unfolding waiting_def by (simp only: le_zero_eq length_0_conv)
  then show ?case using q_empty_iff [of QUEUE_CAPACITY "lp_queue s"] 0
    by (simp add: live_run_def live_inv_def ring_inv_def)
next
  case (Suc n)
  then obtain s1 where s1: "live_step jl moved Turn s = Inr s1" "live_run jl moved (replicate n Turn) s1 = Inr s'"
    by (auto simp: live_run_def res_simps simp del: live_step.simps)
  have "ring_inv QUEUE_CAPACITY (lp_queue s)" using Suc.prems(1) by (simp add: live_inv_def)
  then have "waiting s1 \<le> n \<and> fh_queue_full (lp_feed s1) = fh_queue_full (lp_feed s)"
  proof (cases rule: ring.pop_cases [where moved = moved])
    case empty
    then show ?thesis using s1(1) by (simp add: waiting_def)
  next
    case (item m q)
    then obtain w where "s1 = s\<lparr>lp_queue := q, lp_world := w, lp_handled := lp_handled s @ [m]\<rparr>"
      using s1(1) by (auto simp: res_simps)
    then show ?thesis using Suc.prems(2) item(1) by (simp add: waiting_def)
  qed
  then show ?case using Suc.IH [OF live_inv_turn [OF Suc.prems(1) s1(1)] _ s1(2)] by simp
qed

text \<open>C8: over any number of connections, failed attempts, pauses and schedules of the processing
  thread, a session that drops nothing and is drained leaves every symbol with the book and
  the aggregates that the texts of all connections, in the order received, describe.\<close>

theorem session_books:
  fixes name :: string
  assumes "feed_session jl moved cfg rounds turns (live_start (new_engine conds rec) clk) = Inr (delays, s)"
    and "live_run jl moved (replicate 8191 Turn) s = Inr s'"
    and "fh_queue_full (lp_feed s) = 0" "length (received rounds) < 2 ^ 64"
  defines "parsed \<equiv> messages_of name (parsed_messages jl (received rounds))"
  shows "get_order_book name (fst (lp_world s')) = (if parsed = [] then None
      else case book_run (depths parsed) (new_book name) of Inl _ \<Rightarrow> None | Inr b \<Rightarrow> Some b)
    \<and> get_aggregator name (fst (lp_world s')) = (if parsed = [] then None else Some (ag_snapshot
        (agg_run (book_trace (depths parsed) (new_book name)) default_aggregator)))"
proof -
  let ?s0 = "live_start (new_engine conds rec) clk" and ?evs = "paced_events (received rounds) turns"
  note run = feed_session_run [OF assms(1)]
  have inv: "live_inv jl (new_engine conds rec) (received rounds) s" using live_inv_run [OF run] by simp
  then have "waiting s \<le> 8191"
    using ring.items_room [of QUEUE_CAPACITY "lp_queue s"] by (simp add: live_inv_def waiting_def QUEUE_CAPACITY_def)
  note e = turns_empty [OF inv this assms(2)]
  have "live_run jl moved (?evs @ replicate 8191 Turn) ?s0 = Inr s'" using run assms(2) by (simp add: live_run_append)
  from live_inv_run [OF this] have inv': "live_inv jl (new_engine conds rec) (received rounds) s'" by simp
  then have "engine_after (new_engine conds rec) (lp_handled s') (fst (lp_world s'))" by (simp add: live_inv_def)
  moreover have "map untimed (lp_handled s') = parsed_messages jl (received rounds)"
    using all_handled [OF inv' _ assms(4)] e assms(3) by simp
  ultimately show ?thesis unfolding parsed_def by (rule live_books_of)
qed

section \<open>Every session completes\<close>

lemma receive_defined: "\<exists>s'. live_step jl moved (Receive json) s = Inr s'"
  by (cases "on_message jl json (lp_feed s, lp_queue s, snd (lp_world s))") simp

lemma turn_defined:
  assumes "live_inv jl (new_engine conds rec) texts s" "list_all applicable (parsed_messages jl texts)"
  shows "\<exists>s'. live_step jl moved Turn s = Inr s' \<and> fh_queue_full (lp_feed s') = fh_queue_full (lp_feed s)"
proof -
  have "ring_inv QUEUE_CAPACITY (lp_queue s)" using assms(1) by (simp add: live_inv_def)
  then show ?thesis
  proof (cases rule: ring.pop_cases [where moved = moved])
    case (item m q)
    have "applicable m" using accepted_applicable [OF assms, of m] item(1) by (simp add: accepted_def)
    moreover have "engine_after (new_engine conds rec) (lp_handled s) (fst (lp_world s))" using assms(1) by (simp add: live_inv_def)
    ultimately obtain e clk where "handle m (fst (lp_world s), snd (lp_world s)) = Inr (e, clk)"
      using handle_defined by blast
    then show ?thesis using item(2)
      by (intro exI [of _ "s\<lparr>lp_queue := q, lp_world := (e, clk), lp_handled := lp_handled s @ [m]\<rparr>"]) simp
  qed (auto intro: exI [of _ s])
qed

lemma live_any:
  assumes "list_all applicable (parsed_messages jl (texts_of evs))"
  shows "\<exists>s. live_run jl moved evs (live_start (new_engine conds rec) clk) = Inr s
    \<and> (length (texts_of evs) < 8192 \<longrightarrow> fh_queue_full (lp_feed s) = 0)"
  using assms
proof (induction evs rule: rev_induct)
  case Nil
  then show ?case by (simp add: live_run_def live_start_def new_feed_def)
next
  case (snoc ev evs)
  let ?P = "parsed_messages jl (texts_of evs)"
  have app: "list_all applicable ?P" using snoc.prems by (cases ev) (simp_all add: parsed_messages_snoc)
  then obtain s where s: "live_run jl moved evs (live_start (new_engine conds rec) clk) = Inr s"
    "length (texts_of evs) < 8192 \<longrightarrow> fh_queue_full (lp_feed s) = 0" using snoc.IH by blast
  have inv: "live_inv jl (new_engine conds rec) (texts_of evs) s" by (rule live_inv_run [OF s(1)])
  have run: "live_run jl moved (evs @ [ev]) (live_start (new_engine conds rec) clk) = live_step jl moved ev s"
    using s(1) by (simp add: live_run_eq fold_res_append bind_res_def del: live_step.simps split: sum.split)
  show ?case
  proof (cases ev)
    case (Receive json)
    have "waiting s \<le> length (accepted s)" by (simp add: waiting_def accepted_def)
    also have "\<dots> \<le> length ?P"
      using inv list_emb_length [of "(=)" "map untimed (accepted s)" ?P] by (simp add: live_inv_def)
    also have "\<dots> \<le> length (texts_of evs)" by (rule parsed_messages_le)
    finally have w: "length (texts_of (evs @ [ev])) < 8192 \<Longrightarrow> waiting s < 8191" by (simp add: Receive)
    obtain s' where s': "live_step jl moved ev s = Inr s'" using receive_defined unfolding Receive by blast
    have "fh_queue_full (lp_feed s') = 0" if "length (texts_of (evs @ [ev])) < 8192"
      using receive_room [OF inv w [OF that], of moved json] s' s(2) that by (simp add: Receive del: live_step.simps)
    then show ?thesis using run s' by simp
  next
    case Turn
    obtain s' where "live_step jl moved Turn s = Inr s'" "fh_queue_full (lp_feed s') = fh_queue_full (lp_feed s)"
      using turn_defined [OF inv app] by blast
    then show ?thesis using run s(2) by (auto simp: Turn)
  qed
qed

lemma session_defined:
  assumes "rcf_multiplier (fc_reconnect cfg) = double_of_int k" "1 \<le> k" "k < 2 ^ 32"
    and "uint (rcf_max_delay_ms (fc_reconnect cfg)) * k < 2 ^ 32"
    and "rcf_initial_delay_ms (fc_reconnect cfg) \<le> rcf_max_delay_ms (fc_reconnect cfg)"
    and "length (received rounds) < 8192" "list_all applicable (parsed_messages jl (received rounds))"
  shows "\<exists>delays s s'. feed_session jl moved cfg rounds turns (live_start (new_engine conds rec) clk) = Inr (delays, s)
    \<and> live_run jl moved (replicate 8191 Turn) s = Inr s' \<and> q_empty (lp_queue s') \<and> fh_queue_full (lp_feed s) = 0
    \<and> map uint delays = backoff_delays (uint (rcf_initial_delay_ms (fc_reconnect cfg)))
        (uint (rcf_max_delay_ms (fc_reconnect cfg))) k 0 rounds"
proof -
  let ?s0 = "live_start (new_engine conds rec) clk" and ?evs = "paced_events (received rounds) turns"
  let ?i = "rcf_initial_delay_ms (fc_reconnect cfg)" and ?m = "rcf_max_delay_ms (fc_reconnect cfg)"
  have "policy_at ?i ?m k 0 (new_client_policy cfg)"
    using assms(1,5) by (simp add: policy_at_def new_client_policy_def new_policy_def word_le_def)
  then obtain ds p where d: "ws_run (Some (on_text jl moved)) rounds (new_client_policy cfg, (Inr ?s0, turns))
      = Inr (ds, p, fold (deliver (Some (on_text jl moved))) (received rounds) (Inr ?s0, turns))"
    "map uint ds = backoff_delays (uint ?i) (uint ?m) k 0 rounds"
    using ws_run_delays [of ?i ?m k 0 "(new_client_policy cfg, (Inr ?s0, turns))" "Some (on_text jl moved)" rounds]
      assms(2-5) by (auto simp: word_le_def)
  obtain s where s: "live_run jl moved ?evs ?s0 = Inr s" "fh_queue_full (lp_feed s) = 0"
    using live_any [of jl ?evs moved conds rec clk] assms(6,7) by auto
  then have f: "feed_session jl moved cfg rounds turns ?s0 = Inr (ds, s)"
    using d(1) fold_on_text [of jl moved "received rounds" "Inr ?s0" turns] by (simp add: feed_session_def)
  obtain s' where s': "live_run jl moved (?evs @ replicate 8191 Turn) ?s0 = Inr s'"
    using live_any [of jl "?evs @ replicate 8191 Turn" moved conds rec clk] assms(7) by auto
  then have t: "live_run jl moved (replicate 8191 Turn) s = Inr s'" using s(1) by (simp add: live_run_append)
  have inv: "live_inv jl (new_engine conds rec) (received rounds) s" using live_inv_run [OF s(1)] by simp
  then have "waiting s \<le> 8191"
    using ring.items_room [of QUEUE_CAPACITY "lp_queue s"] by (simp add: live_inv_def waiting_def QUEUE_CAPACITY_def)
  from turns_empty [OF inv this t] show ?thesis using f t s(2) d(2) by blast
qed


section \<open>The end of a session\<close>

text \<open>
  Where the feed thread is: between two attempts to connect, at the head of the read loop,
  blocked in a read, or returned. A failed attempt changes nothing the others see. The flags
  are the \<open>g_running\<close> of the program and the \<open>stopped_\<close> of the client.
\<close>

datatype feed_phase = Feed_Idle | Feed_Connected | Feed_Reading | Feed_Returned

record live_pipe =
  lv_live :: live
  lv_feed :: feed_phase
  lv_running :: bool
  lv_stopped :: bool
  lv_consumer :: consumer_phase
  lv_texts :: "string list"
  lv_clean :: bool

definition feed_goes :: "live_pipe \<Rightarrow> bool" where
  "feed_goes p \<longleftrightarrow> lv_running p \<and> \<not> lv_stopped p"

inductive feed_step :: "json_lib \<Rightarrow> (queue_message \<Rightarrow> queue_message) \<Rightarrow> live_pipe \<Rightarrow> live_pipe \<Rightarrow> bool" for jl moved where
  connect: "lv_feed p = Feed_Idle \<Longrightarrow> feed_goes p \<Longrightarrow> feed_step jl moved p (p\<lparr>lv_feed := Feed_Connected\<rparr>)"
| feed_exit: "lv_feed p = Feed_Idle \<Longrightarrow> \<not> feed_goes p \<Longrightarrow> feed_step jl moved p (p\<lparr>lv_feed := Feed_Returned\<rparr>)"
| await: "lv_feed p = Feed_Connected \<Longrightarrow> feed_goes p \<Longrightarrow> feed_step jl moved p (p\<lparr>lv_feed := Feed_Reading\<rparr>)"
| hang_up: "lv_feed p = Feed_Connected \<Longrightarrow> \<not> feed_goes p \<Longrightarrow> feed_step jl moved p (p\<lparr>lv_feed := Feed_Idle\<rparr>)"
| got_text: "lv_feed p = Feed_Reading \<Longrightarrow> live_step jl moved (Receive json) (lv_live p) = Inr s \<Longrightarrow>
    feed_step jl moved p (p\<lparr>lv_live := s, lv_feed := Feed_Connected, lv_texts := lv_texts p @ [json]\<rparr>)"
| broken: "lv_feed p = Feed_Reading \<Longrightarrow> feed_step jl moved p (p\<lparr>lv_feed := Feed_Idle\<rparr>)"
| lower_flag: "feed_step jl moved p (p\<lparr>lv_running := False\<rparr>)"
| stop_client: "feed_step jl moved p (p\<lparr>lv_stopped := True\<rparr>)"

inductive live_pipe_step :: "json_lib \<Rightarrow> (queue_message \<Rightarrow> queue_message) \<Rightarrow> live_pipe \<Rightarrow> live_pipe \<Rightarrow> bool" for jl moved where
  live_source: "feed_step jl moved p p' \<Longrightarrow> live_pipe_step jl moved p p'"
| live_take: "lv_consumer p = Draining \<or> (lv_consumer p = Consuming \<and> lv_running p) \<Longrightarrow>
    try_pop moved QUEUE_CAPACITY (lp_queue (lv_live p)) \<noteq> None \<Longrightarrow> live_step jl moved Turn (lv_live p) = Inr s \<Longrightarrow>
    live_pipe_step jl moved p (p\<lparr>lv_live := s\<rparr>)"
| live_leave: "lv_consumer p = Consuming \<Longrightarrow> \<not> lv_running p \<Longrightarrow>
    live_pipe_step jl moved p (p\<lparr>lv_consumer := Draining\<rparr>)"
| live_exit: "lv_consumer p = Draining \<Longrightarrow> try_pop moved QUEUE_CAPACITY (lp_queue (lv_live p)) = None \<Longrightarrow>
    live_pipe_step jl moved p (p\<lparr>lv_consumer := Consumer_Exited, lv_clean := (lv_feed p = Feed_Returned)\<rparr>)"

definition live_pipe_start :: "engine \<Rightarrow> clock \<Rightarrow> live_pipe" where
  "live_pipe_start e clk = \<lparr>lv_live = live_start e clk, lv_feed = Feed_Idle, lv_running = True, lv_stopped = False,
     lv_consumer = Consuming, lv_texts = [], lv_clean = False\<rparr>"

inductive live_pipe_reachable :: "json_lib \<Rightarrow> (queue_message \<Rightarrow> queue_message) \<Rightarrow> live_pipe \<Rightarrow> live_pipe \<Rightarrow> bool" for jl moved p0 where
  lv_init: "live_pipe_reachable jl moved p0 p0"
| lv_next: "live_pipe_reachable jl moved p0 p \<Longrightarrow> live_pipe_step jl moved p p' \<Longrightarrow> live_pipe_reachable jl moved p0 p'"

definition live_ok :: "json_lib \<Rightarrow> engine \<Rightarrow> live_pipe \<Rightarrow> bool" where
  "live_ok jl e0 p \<longleftrightarrow> live_inv jl e0 (lv_texts p) (lv_live p)"

definition in_read :: "live_pipe \<Rightarrow> nat" where
  "in_read p = (if lv_feed p = Feed_Reading then 1 else 0)"

lemma receive_waiting:
  assumes "live_inv jl e0 texts s" "live_step jl moved (Receive json) s = Inr s'"
  shows "waiting s' \<le> Suc (waiting s)"
proof -
  obtain mo clk where b: "build_message jl json (fst (now (snd (lp_world s)))) (snd (now (snd (lp_world s)))) = (mo, clk)"
    by fastforce
  have "ring_inv QUEUE_CAPACITY (lp_queue s)" using assms(1) by (simp add: live_inv_def)
  then show ?thesis
  proof (cases rule: ring.push_cases [where x = "the mo"])
    case full
    then show ?thesis using assms(2) b
      by (cases mo) (auto simp: on_message_def now_def Let_def enqueue_def waiting_def)
  next
    case (room q)
    then have "q_count QUEUE_CAPACITY q = Suc (q_count QUEUE_CAPACITY (lp_queue s))"
      by (metis length_append_singleton length_q_items)
    then show ?thesis using assms(2) b room(2)
      by (cases mo) (auto simp: on_message_def now_def Let_def enqueue_def waiting_def)
  qed
qed

interpretation feeding: stoppable "feed_step jl moved" "live_ok jl e0" lv_running "\<lambda>p. waiting (lv_live p)" in_read
  for jl moved e0
proof unfold_locales
  fix p p' :: live_pipe
  show "in_read p \<le> 1" by (simp add: in_read_def)
  show "\<not> lv_running p'" if "feed_step jl moved p p'" "\<not> lv_running p"
    using that by cases auto
  assume inv: "live_ok jl e0 p" and st: "feed_step jl moved p p'"
  from st show "live_ok jl e0 p'"
  proof cases
    case (got_text json s)
    then show ?thesis using live_inv_receive [of jl e0 "lv_texts p" "lv_live p" moved json s] inv by (simp add: live_ok_def)
  qed (use inv in \<open>simp_all add: live_ok_def\<close>)
  assume off: "\<not> lv_running p"
  from st show "waiting (lv_live p') + in_read p' \<le> waiting (lv_live p) + in_read p"
  proof cases
    case (got_text json s)
    then show ?thesis using receive_waiting [of jl e0 "lv_texts p" "lv_live p" moved json s] inv
      by (simp add: live_ok_def in_read_def)
  qed (use off in \<open>simp_all add: in_read_def feed_goes_def\<close>)
qed

lemma no_pop_empty: "live_ok jl e0 p \<Longrightarrow> try_pop moved QUEUE_CAPACITY (lp_queue (lv_live p)) = None \<Longrightarrow> waiting (lv_live p) = 0"
  unfolding live_ok_def live_inv_def waiting_def using popped_none [of "lp_queue (lv_live p)" moved] by (simp only: length_0_conv)

definition leaving_live :: "json_lib \<Rightarrow> engine \<Rightarrow> live_pipe \<Rightarrow> bool" where
  "leaving_live jl e0 p \<longleftrightarrow> feeding.leaving jl e0 (lv_consumer p \<noteq> Consuming) (lv_consumer p = Consumer_Exited) p
     \<and> (lv_clean p \<and> lv_consumer p = Consumer_Exited \<longrightarrow> lv_feed p = Feed_Returned \<and> waiting (lv_live p) = 0)"

lemma leaving_live_start: "leaving_live jl e0 (live_pipe_start e0 clk)"
proof -
  have "live_ok jl e0 (live_pipe_start e0 clk)"
    using live_inv_start [of jl e0 clk] by (simp add: live_ok_def live_pipe_start_def)
  from feeding.leaving_start [OF this] show ?thesis by (simp add: leaving_live_def) (simp add: live_pipe_start_def)
qed

lemma leaving_live_step:
  assumes "leaving_live jl e0 p" "live_pipe_step jl moved p p'"
  shows "leaving_live jl e0 p'"
proof -
  note l = assms(1) [unfolded leaving_live_def]
  have inv: "live_ok jl e0 p" using l by (simp add: feeding.leaving_def)
  from assms(2) show ?thesis unfolding leaving_live_def
  proof cases
    case live_source
    then have c: "lv_consumer p' = lv_consumer p" "lv_clean p' = lv_clean p" by (auto elim: feed_step.cases)
    have "lv_feed p = Feed_Returned \<Longrightarrow> lv_feed p' = Feed_Returned \<and> lv_live p' = lv_live p"
      using live_source by (auto elim: feed_step.cases)
    then show "feeding.leaving jl e0 (lv_consumer p' \<noteq> Consuming) (lv_consumer p' = Consumer_Exited) p'
        \<and> (lv_clean p' \<and> lv_consumer p' = Consumer_Exited \<longrightarrow> lv_feed p' = Feed_Returned \<and> waiting (lv_live p') = 0)"
      using feeding.leaving_step [OF _ live_source] l by (auto simp: c)
  next
    case (live_take s)
    then have "lv_consumer p \<noteq> Consumer_Exited" by auto
    moreover have "live_ok jl e0 p'"
      using live_inv_turn [of jl e0 "lv_texts p" "lv_live p" moved s] inv live_take by (simp add: live_ok_def)
    ultimately show "feeding.leaving jl e0 (lv_consumer p' \<noteq> Consuming) (lv_consumer p' = Consumer_Exited) p'
        \<and> (lv_clean p' \<and> lv_consumer p' = Consumer_Exited \<longrightarrow> lv_feed p' = Feed_Returned \<and> waiting (lv_live p') = 0)"
      using l live_take(1) by (auto intro: feeding.leaving_take)
  next
    case live_leave
    then show "feeding.leaving jl e0 (lv_consumer p' \<noteq> Consuming) (lv_consumer p' = Consumer_Exited) p'
        \<and> (lv_clean p' \<and> lv_consumer p' = Consumer_Exited \<longrightarrow> lv_feed p' = Feed_Returned \<and> waiting (lv_live p') = 0)"
      using l unfolding feeding.leaving_def by (auto simp: live_ok_def)
  next
    case live_exit
    then show "feeding.leaving jl e0 (lv_consumer p' \<noteq> Consuming) (lv_consumer p' = Consumer_Exited) p'
        \<and> (lv_clean p' \<and> lv_consumer p' = Consumer_Exited \<longrightarrow> lv_feed p' = Feed_Returned \<and> waiting (lv_live p') = 0)"
      using no_pop_empty [OF inv live_exit(3)] l
      unfolding feeding.leaving_def by (auto simp: live_ok_def in_read_def)
  qed
qed

lemma live_pipe_leaving:
  "live_pipe_reachable jl moved (live_pipe_start e0 clk) p \<Longrightarrow> leaving_live jl e0 p"
  by (induction rule: live_pipe_reachable.induct) (auto intro: leaving_live_start leaving_live_step)

text \<open>The account of a live run whose processing thread has returned.\<close>

lemma live_account:
  assumes "leaving_live jl (new_engine conds rec) p" "lv_consumer p = Consumer_Exited"
  defines "left \<equiv> length (q_items QUEUE_CAPACITY (lp_queue (lv_live p)))"
    and "handled \<equiv> lp_handled (lv_live p)" and "fd \<equiv> lp_feed (lv_live p)"
  shows "left \<le> 1 \<and> (lv_clean p \<longrightarrow> left = 0)
    \<and> fh_parse_errors fd + fh_queue_full fd + of_nat (length handled + left) = of_nat (length (lv_texts p))
    \<and> subseq (map untimed handled) (parsed_messages jl (lv_texts p))
    \<and> engine_after (new_engine conds rec) handled (fst (lp_world (lv_live p)))"
proof -
  note l = assms(1) [unfolded leaving_live_def]
  have inv: "live_inv jl (new_engine conds rec) (lv_texts p) (lv_live p)" using l by (simp add: feeding.leaving_def live_ok_def)
  have w: "waiting (lv_live p) = left" by (simp add: waiting_def left_def)
  then have "left \<le> 1" "lv_clean p \<longrightarrow> left = 0"
    using l assms(2) by (simp_all add: feeding.leaving_def)
  moreover have sub: "subseq (map untimed (accepted (lv_live p))) (parsed_messages jl (lv_texts p))"
    using inv by (simp add: live_inv_def)
  have "length handled + left \<le> length (parsed_messages jl (lv_texts p))"
    using list_emb_length [OF sub] by (simp add: accepted_def handled_def left_def)
  then have "fh_parse_errors fd + fh_queue_full fd + of_nat (length handled + left) = of_nat (length (lv_texts p))"
    using inv parsed_messages_le [of jl "lv_texts p"]
    by (simp add: live_inv_def feed_inv_def fd_def accepted_def handled_def left_def flip: of_nat_add)
  moreover have "subseq (map untimed handled) (map untimed (accepted (lv_live p)))"
    by (simp add: accepted_def handled_def subseq_rev_drop_many)
  then have "subseq (map untimed handled) (parsed_messages jl (lv_texts p))"
    using sub by (rule subseq_order.trans)
  ultimately show ?thesis using inv by (simp add: live_inv_def handled_def)
qed

text \<open>When the processing thread of a live run has returned, whatever the network and the order in
  which the threads noticed the flag: each text received was a parse error, was dropped, was
  handled, or is the only message left in the queue; and none is left if the feed thread
  had returned first. The handled messages are parsed texts in order.\<close>

theorem live_shutdown:
  assumes "live_pipe_reachable jl moved (live_pipe_start (new_engine conds rec) clk) p" "lv_consumer p = Consumer_Exited"
  defines "left \<equiv> length (q_items QUEUE_CAPACITY (lp_queue (lv_live p)))"
    and "handled \<equiv> lp_handled (lv_live p)" and "fd \<equiv> lp_feed (lv_live p)"
  shows "left \<le> 1 \<and> (lv_clean p \<longrightarrow> left = 0)
    \<and> fh_parse_errors fd + fh_queue_full fd + of_nat (length handled + left) = of_nat (length (lv_texts p))
    \<and> subseq (map untimed handled) (parsed_messages jl (lv_texts p))
    \<and> engine_after (new_engine conds rec) handled (fst (lp_world (lv_live p)))"
  unfolding left_def handled_def fd_def by (rule live_account [OF live_pipe_leaving [OF assms(1)] assms(2)])

section \<open>Concrete sessions\<close>

text \<open>Two failed attempts, a connection that breaks after two texts, and one that is closed.\<close>

definition sample_rounds :: "round list" where
  "sample_rounds = [Round True (Fails Resolve) True, Round True (Fails Tcp_Connect) True,
     Round True (Connected [sample_doc, ''garbage'']) True,
     Round True (Connected [sample_trade_doc, sample_doc]) False]"

definition sample_feed_config :: feed_config where
  "sample_feed_config = default_feed\<lparr>fc_reconnect := \<lparr>rcf_initial_delay_ms = 1000, rcf_max_delay_ms = 30000,
     rcf_multiplier = double_of_int 2\<rparr>\<rparr>"

lemma sample_rounds_texts: "received sample_rounds = sample_texts"
  by (simp add: sample_rounds_def sample_texts_def)

lemma sample_backoff: "rcf_multiplier (fc_reconnect sample_feed_config) = double_of_int 2" "1 \<le> (2 :: int)" "(2 :: int) < 2 ^ 32"
  "uint (rcf_max_delay_ms (fc_reconnect sample_feed_config)) * 2 < 2 ^ 32"
  "rcf_initial_delay_ms (fc_reconnect sample_feed_config) \<le> rcf_max_delay_ms (fc_reconnect sample_feed_config)"
  by (simp_all add: sample_feed_config_def)

lemma sample_rounds_ok: "length (received sample_rounds) < 8192"
  "list_all applicable (parsed_messages clean_json (received sample_rounds))"
  by (simp_all add: sample_rounds_texts sample_texts_ok)

lemma sample_rounds_session:
  obtains delays s s' where
    "feed_session clean_json id sample_feed_config sample_rounds [1, 0, 2] (live_start (new_engine sample_conditions None) sample_clock) = Inr (delays, s)"
    "live_run clean_json id (replicate 8191 Turn) s = Inr s'" "q_empty (lp_queue s')" "fh_queue_full (lp_feed s) = 0"
    "map uint delays = [1000, 2000, 1000]"
proof -
  have "backoff_delays 1000 30000 2 0 sample_rounds = [1000, 2000, 1000]" by (simp add: sample_rounds_def)
  moreover have "uint (rcf_initial_delay_ms (fc_reconnect sample_feed_config)) = 1000"
    "uint (rcf_max_delay_ms (fc_reconnect sample_feed_config)) = 30000" by (simp_all add: sample_feed_config_def)
  ultimately have "backoff_delays (uint (rcf_initial_delay_ms (fc_reconnect sample_feed_config)))
      (uint (rcf_max_delay_ms (fc_reconnect sample_feed_config))) 2 0 sample_rounds = [1000, 2000, 1000]"
    by (simp only:)
  then show thesis
    using session_defined [OF sample_backoff sample_rounds_ok, of id "[1, 0, 2]" sample_conditions None sample_clock] that
    by metis
qed


theorem session_books_witness:
  "\<exists>delays s s' b. feed_session clean_json id sample_feed_config sample_rounds [1, 0, 2]
      (live_start (new_engine sample_conditions None) sample_clock) = Inr (delays, s)
    \<and> live_run clean_json id (replicate 8191 Turn) s = Inr s'
    \<and> get_order_book ''BTC'' (fst (lp_world s')) = Some b \<and> ob_bids b = [(double_of_int 100, 1)]"
proof -
  obtain delays s s' where s: "feed_session clean_json id sample_feed_config sample_rounds [1, 0, 2]
      (live_start (new_engine sample_conditions None) sample_clock) = Inr (delays, s)"
    "live_run clean_json id (replicate 8191 Turn) s = Inr s'" "fh_queue_full (lp_feed s) = 0"
    by (rule sample_rounds_session)
  let ?p = "messages_of ''BTC'' (parsed_messages clean_json sample_texts)"
  have "case book_run (depths ?p) (new_book ''BTC'') of Inl _ \<Rightarrow> False | Inr b \<Rightarrow> ob_bids b = [(double_of_int 100, 1)]"
    by code_simp
  then obtain b where b: "book_run (depths ?p) (new_book ''BTC'') = Inr b" "ob_bids b = [(double_of_int 100, 1)]"
    by (auto split: sum.splits)
  have "?p \<noteq> []" using sample_texts_ok(4) by (auto simp: depths_def)
  moreover have "length (received sample_rounds) < 2 ^ 64" by (simp add: sample_rounds_texts sample_texts_ok)
  ultimately have "get_order_book ''BTC'' (fst (lp_world s')) = Some b"
    using session_books [OF s, of "''BTC''"] b(1) by (simp add: sample_rounds_texts)
  then show ?thesis using s(1,2) b(2) by blast
qed

text \<open>The flag falls while the client is blocked in a read; the consumer returns, then the text comes.\<close>

lemma lost_text:
  obtains p where "live_pipe_reachable clean_json id (live_pipe_start (new_engine [] None) sample_clock) p"
    "lv_consumer p = Consumer_Exited" "lv_feed p = Feed_Returned" "lp_handled (lv_live p) = []"
    "lv_texts p = [sample_doc]" "fh_parse_errors (lp_feed (lv_live p)) = 0" "fh_queue_full (lp_feed (lv_live p)) = 0"
proof -
  let ?p0 = "live_pipe_start (new_engine [] None) sample_clock" and ?s0 = "live_start (new_engine [] None) sample_clock"
  obtain s where s: "live_step clean_json id (Receive sample_doc) ?s0 = Inr s" using receive_defined by blast
  have inv: "live_inv clean_json (new_engine [] None) [sample_doc] s"
    using live_inv_receive [OF live_inv_start [of clean_json "new_engine [] None" sample_clock] , of id sample_doc s] s
    by simp
  have full: "fh_queue_full (lp_feed s) = 0"
    using receive_room [OF live_inv_start [of clean_json "new_engine [] None" sample_clock], of id sample_doc] s
    by (auto simp: waiting_def live_start_def q_new_items new_feed_def simp del: live_step.simps)
  have "length (parsed_messages clean_json [sample_doc]) = 1" by code_simp
  then have err: "fh_parse_errors (lp_feed s) = 0" using inv by (simp add: live_inv_def feed_inv_def)
  have handled: "lp_handled s = []" using s by (auto simp: live_start_def split: prod.splits)
  have v: "valid_capacity QUEUE_CAPACITY" by (simp add: valid_capacity_def QUEUE_CAPACITY_def)
  have none: "try_pop id QUEUE_CAPACITY (lp_queue ?s0) = None"
    using ring.pop_cases [OF ring_new [OF v, of new_message], where moved = id] by (fastforce simp: live_start_def q_new_items)
  let ?p1 = "?p0\<lparr>lv_feed := Feed_Connected\<rparr>"
  let ?p2 = "?p0\<lparr>lv_feed := Feed_Reading\<rparr>"
  let ?p3 = "?p2\<lparr>lv_running := False\<rparr>"
  let ?p4 = "?p3\<lparr>lv_consumer := Draining\<rparr>"
  let ?p5 = "?p3\<lparr>lv_consumer := Consumer_Exited\<rparr>"
  let ?p6 = "?p5\<lparr>lv_live := s, lv_feed := Feed_Connected, lv_texts := [sample_doc]\<rparr>"
  let ?p7 = "?p6\<lparr>lv_feed := Feed_Idle\<rparr>"
  let ?p8 = "?p6\<lparr>lv_feed := Feed_Returned\<rparr>"
  let ?st = "live_pipe_step clean_json id"
  have st1: "?st ?p0 ?p1" using feed_step.connect [of ?p0 clean_json id] by (auto simp: live_pipe_start_def feed_goes_def intro: live_source)
  have st2: "?st ?p1 ?p2" using feed_step.await [of ?p1 clean_json id] by (auto simp: live_pipe_start_def feed_goes_def intro: live_source)
  have st3: "?st ?p2 ?p3" using feed_step.lower_flag [of clean_json id ?p2] by (auto intro: live_source)
  have st4: "?st ?p3 ?p4" using live_leave [of ?p3 clean_json id] by (simp add: live_pipe_start_def)
  have st5: "?st ?p4 ?p5" using live_exit [of ?p4 id clean_json] none by (simp add: live_pipe_start_def)
  have st6: "?st ?p5 ?p6" using feed_step.got_text [of ?p5 clean_json id sample_doc s] s
    by (auto simp: live_pipe_start_def intro: live_source simp del: live_step.simps)
  have st7: "?st ?p6 ?p7" using feed_step.hang_up [of ?p6 clean_json id] by (auto simp: live_pipe_start_def feed_goes_def intro: live_source)
  have st8: "?st ?p7 ?p8" using feed_step.feed_exit [of ?p7 clean_json id] by (auto simp: live_pipe_start_def feed_goes_def intro: live_source)
  have "live_pipe_reachable clean_json id ?p0 ?p8"
    by (rule lv_next [OF lv_next [OF lv_next [OF lv_next [OF lv_next [OF lv_next [OF lv_next [OF lv_next
      [OF lv_init st1] st2] st3] st4] st5] st6] st7] st8])
  then show thesis by (rule that) (simp_all add: live_pipe_start_def err full handled)
qed

theorem live_shutdown_witness:
  "\<exists>p. live_pipe_reachable clean_json id (live_pipe_start (new_engine [] None) sample_clock) p
    \<and> lv_consumer p = Consumer_Exited \<and> lv_feed p = Feed_Returned \<and> lp_handled (lv_live p) = []
    \<and> length (q_items QUEUE_CAPACITY (lp_queue (lv_live p))) = 1"
proof -
  obtain p where p: "live_pipe_reachable clean_json id (live_pipe_start (new_engine [] None) sample_clock) p"
    "lv_consumer p = Consumer_Exited" "lv_feed p = Feed_Returned" "lp_handled (lv_live p) = []"
    "lv_texts p = [sample_doc]" "fh_parse_errors (lp_feed (lv_live p)) = 0" "fh_queue_full (lp_feed (lv_live p)) = 0"
    by (rule lost_text)
  have l: "length (q_items QUEUE_CAPACITY (lp_queue (lv_live p))) \<le> 1"
    "(of_nat (length (q_items QUEUE_CAPACITY (lp_queue (lv_live p)))) :: u64) = 1"
    using live_shutdown [OF p(1,2)] unfolding p(4-7) by auto
  have "length (q_items QUEUE_CAPACITY (lp_queue (lv_live p))) = 1"
  proof (cases "length (q_items QUEUE_CAPACITY (lp_queue (lv_live p)))")
    case 0
    then show ?thesis using l(2) by simp
  qed (use l(1) in simp)
  then show ?thesis using p(1-4) by blast
qed

end
