(* ===== verification/Main_Loop.thy ===== *)
theory Main_Loop
  imports Live_Session
begin

text \<open>
  The main thread of \<open>src/main.cpp\<close> beside the threads it starts: its status loop, the signal
  handler, the end of a replay that is done, and the stops with their joins. The loop is
  defined once over what \<open>main\<close> asks of the source and of the processing thread, and used
  for both modes; a locale states what they promise in return.
\<close>

section \<open>What main asks of the threads\<close>

text \<open>
  \<open>ho_threads\<close> are the steps of the source and of the processing thread, and the calls of the
  dashboard. \<open>ho_finished\<close> and \<open>ho_empty\<close> are the two tests that end a replay. \<open>ho_stop\<close> is the
  part of the source's \<open>stop\<close> before its join and \<open>ho_stopped\<close> the part after it. \<open>ho_result\<close> is
  what \<open>main\<close> leaves: the last log line and, when it recorded, the closed file.
\<close>

record ('s, 'r) host =
  ho_threads :: "'s \<Rightarrow> 's \<Rightarrow> bool"
  ho_running :: "'s \<Rightarrow> bool"
  ho_lower :: "'s \<Rightarrow> 's"
  ho_finished :: "'s \<Rightarrow> bool"
  ho_empty :: "'s \<Rightarrow> bool"
  ho_stop :: "'s \<Rightarrow> 's"
  ho_source_done :: "'s \<Rightarrow> bool"
  ho_stopped :: "'s \<Rightarrow> 's"
  ho_processor_done :: "'s \<Rightarrow> bool"
  ho_result :: "'s \<Rightarrow> 'r"

section \<open>The main thread\<close>

text \<open>
  Where it is: at the head of the loop, asleep for five seconds, before the test of
  \<open>is_finished\<close>, between the two tests, before it clears the flag, before the stop of the
  source, in the join of its thread, in the join of the processing thread, returned. The status
  lines of \<open>Status_Lines\<close> are written before the test, and the two servers (\<open>Ws_Server\<close>,
  \<open>Metrics_Server\<close>) are stopped before the source: neither changes the source, the queue or the
  engine. The commands of the dashboard stay possible to the end, since nothing joins the
  threads that read them. In a live run, which has no test, the phase \<open>Testing\<close> leads back to the
  head.
\<close>

datatype main_phase =
  Loop_Head | Asleep | Testing | Testing_Queue | Lowering | Stopping | Joining_Source | Joining_Processor | Main_Returned

record ('s, 'r) main_run =
  mr_state :: 's
  mr_main :: main_phase
  mr_signalled :: bool
  mr_result :: "'r option"

definition main_start :: "'s \<Rightarrow> ('s, 'r) main_run" where
  "main_start s = \<lparr>mr_state = s, mr_main = Loop_Head, mr_signalled = False, mr_result = None\<rparr>"

text \<open>When \<open>main\<close> has returned the process is over, and no thread takes another step.\<close>

inductive main_step :: "('s, 'r) host \<Rightarrow> ('s, 'r) main_run \<Rightarrow> ('s, 'r) main_run \<Rightarrow> bool" for h where
  threads: "mr_main p \<noteq> Main_Returned \<Longrightarrow> ho_threads h (mr_state p) s \<Longrightarrow> main_step h p (p\<lparr>mr_state := s\<rparr>)"
| on_signal: "mr_main p \<noteq> Main_Returned \<Longrightarrow>
    main_step h p (p\<lparr>mr_state := ho_lower h (mr_state p), mr_signalled := True\<rparr>)"
| sleep: "mr_main p = Loop_Head \<Longrightarrow> ho_running h (mr_state p) \<Longrightarrow> main_step h p (p\<lparr>mr_main := Asleep\<rparr>)"
| leave: "mr_main p = Loop_Head \<Longrightarrow> \<not> ho_running h (mr_state p) \<Longrightarrow> main_step h p (p\<lparr>mr_main := Stopping\<rparr>)"
| wake: "mr_main p = Asleep \<Longrightarrow> ho_running h (mr_state p) \<Longrightarrow> main_step h p (p\<lparr>mr_main := Testing\<rparr>)"
| wake_leave: "mr_main p = Asleep \<Longrightarrow> \<not> ho_running h (mr_state p) \<Longrightarrow> main_step h p (p\<lparr>mr_main := Stopping\<rparr>)"
| test_finished: "mr_main p = Testing \<Longrightarrow>
    main_step h p (p\<lparr>mr_main := (if ho_finished h (mr_state p) then Testing_Queue else Loop_Head)\<rparr>)"
| test_queue: "mr_main p = Testing_Queue \<Longrightarrow>
    main_step h p (p\<lparr>mr_main := (if ho_empty h (mr_state p) then Lowering else Loop_Head)\<rparr>)"
| replay_complete: "mr_main p = Lowering \<Longrightarrow>
    main_step h p (p\<lparr>mr_state := ho_lower h (mr_state p), mr_main := Loop_Head\<rparr>)"
| stop_source: "mr_main p = Stopping \<Longrightarrow>
    main_step h p (p\<lparr>mr_state := ho_stop h (mr_state p), mr_main := Joining_Source\<rparr>)"
| join_source: "mr_main p = Joining_Source \<Longrightarrow> ho_source_done h (mr_state p) \<Longrightarrow>
    main_step h p (p\<lparr>mr_state := ho_stopped h (mr_state p), mr_main := Joining_Processor\<rparr>)"
| join_processor: "mr_main p = Joining_Processor \<Longrightarrow> ho_processor_done h (mr_state p) \<Longrightarrow>
    main_step h p (p\<lparr>mr_main := Main_Returned, mr_result := Some (ho_result h (mr_state p))\<rparr>)"

inductive_cases main_stepE: "main_step h p p'"

abbreviation main_steps :: "('s, 'r) host \<Rightarrow> ('s, 'r) main_run \<Rightarrow> ('s, 'r) main_run \<Rightarrow> bool" where
  "main_steps h \<equiv> (main_step h)\<^sup>*\<^sup>*"

definition shutting_down :: "main_phase \<Rightarrow> bool" where
  "shutting_down m \<longleftrightarrow> m \<in> {Stopping, Joining_Source, Joining_Processor, Main_Returned}"

lemma shutting_down_simps [simp]:
  "\<not> shutting_down Loop_Head" "\<not> shutting_down Asleep" "\<not> shutting_down Testing" "\<not> shutting_down Testing_Queue"
  "\<not> shutting_down Lowering" "shutting_down Stopping" "shutting_down Joining_Source" "shutting_down Joining_Processor"
  "shutting_down Main_Returned"
  by (simp_all add: shutting_down_def)

section \<open>What the threads promise\<close>

text \<open>
  Only \<open>main\<close> and the signal handler lower the flag, and nothing raises it. A thread that has
  returned stays so. \<open>settled\<close> is what the two tests of the end of a replay are to establish:
  it follows when the first holds and then the second, and lasts.
\<close>

locale hosted =
  fixes h :: "('s, 'r) host"
    and inv :: "'s \<Rightarrow> bool"
    and settled :: "'s \<Rightarrow> bool"
  assumes inv_threads: "inv s \<Longrightarrow> ho_threads h s s' \<Longrightarrow> inv s'"
    and inv_lower: "inv s \<Longrightarrow> inv (ho_lower h s)"
    and inv_stop: "inv s \<Longrightarrow> inv (ho_stop h s)"
    and inv_stopped: "inv s \<Longrightarrow> ho_source_done h s \<Longrightarrow> inv (ho_stopped h s)"
    and flag: "ho_threads h s s' \<Longrightarrow> ho_running h s' = ho_running h s" "\<not> ho_running h (ho_lower h s)"
      "ho_running h (ho_stop h s) = ho_running h s" "ho_running h (ho_stopped h s) = ho_running h s"
    and source: "inv s \<Longrightarrow> ho_threads h s s' \<Longrightarrow> ho_source_done h s \<Longrightarrow> ho_source_done h s'"
      "ho_source_done h (ho_lower h s) = ho_source_done h s" "ho_source_done h (ho_stop h s) = ho_source_done h s"
      "ho_source_done h (ho_stopped h s) = ho_source_done h s"
    and processor: "ho_processor_done h (ho_lower h s) = ho_processor_done h s"
      "ho_processor_done h (ho_stop h s) = ho_processor_done h s"
      "ho_processor_done h (ho_stopped h s) = ho_processor_done h s"
    and finished: "inv s \<Longrightarrow> ho_threads h s s' \<Longrightarrow> ho_finished h s \<Longrightarrow> ho_finished h s'"
      "ho_finished h (ho_lower h s) = ho_finished h s"
    and settles: "inv s \<Longrightarrow> ho_finished h s \<Longrightarrow> ho_empty h s \<Longrightarrow> settled s"
    and settled_stays: "inv s \<Longrightarrow> ho_threads h s s' \<Longrightarrow> settled s \<Longrightarrow> settled s'"
      "settled s \<Longrightarrow> settled (ho_lower h s)" "settled s \<Longrightarrow> settled (ho_stop h s)"
      "settled s \<Longrightarrow> settled (ho_stopped h s)"
begin

definition main_inv :: "('s, 'r) main_run \<Rightarrow> bool" where
  "main_inv p \<longleftrightarrow> inv (mr_state p)
     \<and> (shutting_down (mr_main p) \<longrightarrow> \<not> ho_running h (mr_state p))
     \<and> (mr_main p = Testing_Queue \<longrightarrow> ho_finished h (mr_state p))
     \<and> (mr_main p = Lowering \<longrightarrow> settled (mr_state p))
     \<and> (\<not> ho_running h (mr_state p) \<and> \<not> mr_signalled p \<longrightarrow> settled (mr_state p))
     \<and> (mr_main p \<in> {Joining_Processor, Main_Returned} \<longrightarrow> ho_source_done h (mr_state p))
     \<and> (mr_main p = Main_Returned \<longrightarrow>
          ho_processor_done h (mr_state p) \<and> mr_result p = Some (ho_result h (mr_state p)))"

lemma main_inv_start: "inv s \<Longrightarrow> ho_running h s \<Longrightarrow> main_inv (main_start s)"
  by (simp add: main_inv_def main_start_def)

lemma main_inv_step: "main_inv p \<Longrightarrow> main_step h p p' \<Longrightarrow> main_inv p'"
  by (erule main_stepE)
    (auto simp: main_inv_def flag source processor finished split: if_splits
      intro: inv_threads inv_lower inv_stop inv_stopped settles settled_stays source(1) finished(1))

lemma main_inv_steps: "main_steps h p p' \<Longrightarrow> main_inv p \<Longrightarrow> main_inv p'"
  by (induction rule: rtranclp_induct) (auto intro: main_inv_step)

text \<open>When \<open>main\<close> has returned both threads had, and if no signal came the run was settled.\<close>

lemma returned:
  assumes "main_steps h (main_start s) p" "inv s" "ho_running h s" "mr_main p = Main_Returned"
  shows "inv (mr_state p) \<and> ho_source_done h (mr_state p) \<and> ho_processor_done h (mr_state p)
    \<and> mr_result p = Some (ho_result h (mr_state p)) \<and> \<not> ho_running h (mr_state p)
    \<and> (\<not> mr_signalled p \<longrightarrow> settled (mr_state p))"
  using main_inv_steps [OF assms(1) main_inv_start [OF assms(2,3)]] assms(4) by (simp add: main_inv_def)

section \<open>Main can return\<close>

text \<open>The steps of the threads happen while \<open>main\<close> stays where it is.\<close>

lemma threads_lift:
  "(ho_threads h)\<^sup>*\<^sup>* s s' \<Longrightarrow> mr_main p \<noteq> Main_Returned \<Longrightarrow> mr_state p = s \<Longrightarrow> main_steps h p (p\<lparr>mr_state := s'\<rparr>)"
proof (induction rule: rtranclp_induct)
  case base
  then have "p\<lparr>mr_state := s\<rparr> = p" by simp
  then show ?case by simp
next
  case (step s1 s2)
  from step.IH [OF step.prems] have "main_steps h p (p\<lparr>mr_state := s1\<rparr>)" .
  moreover have "main_step h (p\<lparr>mr_state := s1\<rparr>) (p\<lparr>mr_state := s2\<rparr>)"
    using main_step.threads [of "p\<lparr>mr_state := s1\<rparr>" h s2] step.hyps(2) step.prems(1) by simp
  ultimately show ?case by (rule rtranclp.rtrancl_into_rtrancl)
qed

text \<open>What \<open>main\<close> itself does to the state on its way out.\<close>

definition quiet :: "'s \<Rightarrow> 's \<Rightarrow> bool" where
  "quiet s s' \<longleftrightarrow> s' = ho_lower h s \<or> s' = ho_stop h s \<or> s' = ho_stopped h s"

definition closes :: "('s, 'r) main_run \<Rightarrow> ('s, 'r) main_run \<Rightarrow> bool" where
  "closes p p' \<longleftrightarrow> main_steps h p p' \<and> mr_main p' = Main_Returned \<and> mr_signalled p' = mr_signalled p
     \<and> quiet\<^sup>*\<^sup>* (mr_state p) (mr_state p')"

lemma closes_step:
  assumes "main_step h p p1" "mr_signalled p1 = mr_signalled p" "mr_state p1 = mr_state p \<or> quiet (mr_state p) (mr_state p1)"
    and "\<exists>p'. closes p1 p'"
  shows "\<exists>p'. closes p p'"
  using assms unfolding closes_def by (metis converse_rtranclp_into_rtranclp)

text \<open>Once the flag is down and both threads have returned, nothing keeps \<open>main\<close>.\<close>

lemma finish_processor:
  assumes "mr_main p = Joining_Processor" "ho_processor_done h (mr_state p)"
  shows "\<exists>p'. closes p p'"
proof (rule closes_step [OF main_step.join_processor [OF assms]])
  show "\<exists>p'. closes (p\<lparr>mr_main := Main_Returned, mr_result := Some (ho_result h (mr_state p))\<rparr>) p'"
    by (rule exI [of _ "p\<lparr>mr_main := Main_Returned, mr_result := Some (ho_result h (mr_state p))\<rparr>"]) (simp add: closes_def)
qed simp_all

lemma finish_source:
  assumes "mr_main p = Joining_Source" "ho_source_done h (mr_state p)" "ho_processor_done h (mr_state p)"
  shows "\<exists>p'. closes p p'"
  using assms by (intro closes_step [OF main_step.join_source _ _ finish_processor]) (simp_all add: quiet_def processor)

lemma finish_stopping:
  assumes "mr_main p = Stopping" "ho_source_done h (mr_state p)" "ho_processor_done h (mr_state p)"
  shows "\<exists>p'. closes p p'"
  using assms by (intro closes_step [OF main_step.stop_source _ _ finish_source]) (simp_all add: quiet_def processor source)

lemma finish_head:
  assumes "mr_main p = Loop_Head" "\<not> ho_running h (mr_state p)" "ho_source_done h (mr_state p)" "ho_processor_done h (mr_state p)"
  shows "\<exists>p'. closes p p'"
  using assms by (intro closes_step [OF main_step.leave _ _ finish_stopping]) simp_all

lemma finish_lowering:
  assumes "mr_main p = Lowering" "ho_source_done h (mr_state p)" "ho_processor_done h (mr_state p)"
  shows "\<exists>p'. closes p p'"
  using assms by (intro closes_step [OF main_step.replay_complete _ _ finish_head]) (simp_all add: quiet_def flag processor source)

lemma finish_queue:
  assumes "mr_main p = Testing_Queue" "\<not> ho_running h (mr_state p)" "ho_source_done h (mr_state p)" "ho_processor_done h (mr_state p)"
  shows "\<exists>p'. closes p p'"
proof (cases "ho_empty h (mr_state p)")
  case True
  then show ?thesis using assms by (intro closes_step [OF main_step.test_queue _ _ finish_lowering]) simp_all
next
  case False
  then show ?thesis using assms by (intro closes_step [OF main_step.test_queue _ _ finish_head]) simp_all
qed

lemma finish_testing:
  assumes "mr_main p = Testing" "\<not> ho_running h (mr_state p)" "ho_source_done h (mr_state p)" "ho_processor_done h (mr_state p)"
  shows "\<exists>p'. closes p p'"
proof (cases "ho_finished h (mr_state p)")
  case True
  then show ?thesis using assms by (intro closes_step [OF main_step.test_finished _ _ finish_queue]) simp_all
next
  case False
  then show ?thesis using assms by (intro closes_step [OF main_step.test_finished _ _ finish_head]) simp_all
qed

lemma finish:
  assumes "main_inv p" "\<not> ho_running h (mr_state p)" "ho_source_done h (mr_state p)" "ho_processor_done h (mr_state p)"
  shows "\<exists>p'. closes p p'"
proof (cases "mr_main p")
  case Asleep
  then show ?thesis using assms by (intro closes_step [OF main_step.wake_leave _ _ finish_stopping]) simp_all
next
  case Main_Returned
  then show ?thesis by (intro exI [of _ p]) (simp add: closes_def)
qed (use assms finish_head finish_testing finish_queue finish_lowering finish_stopping finish_source finish_processor in blast)+

text \<open>With the flag down \<open>main\<close> can return if the threads can.\<close>

lemma can_return:
  assumes "main_inv p" "mr_main p \<noteq> Main_Returned" "\<not> ho_running h (mr_state p)"
    and "(ho_threads h)\<^sup>*\<^sup>* (mr_state p) s" "ho_source_done h s" "ho_processor_done h s"
  shows "\<exists>p'. main_steps h p p' \<and> mr_main p' = Main_Returned \<and> mr_signalled p' = mr_signalled p \<and> quiet\<^sup>*\<^sup>* s (mr_state p')"
proof -
  have down: "\<not> ho_running h s" using assms(4,3) by (induction rule: rtranclp_induct) (auto simp: flag)
  have lift: "main_steps h p (p\<lparr>mr_state := s\<rparr>)" using assms(2,4) by (intro threads_lift) simp_all
  from finish [OF main_inv_steps [OF lift assms(1)]] down assms(5,6) lift show ?thesis
    by (auto simp: closes_def intro: rtranclp_trans)
qed

text \<open>While it is up, a source that can finish and be drained lets \<open>main\<close> end the run by itself.\<close>

lemma reach_lowering:
  assumes "\<not> shutting_down (mr_main p)" "ho_running h (mr_state p)" "ho_finished h (mr_state p)" "ho_empty h (mr_state p)"
  shows "main_steps h p (p\<lparr>mr_main := Lowering\<rparr>)"
proof -
  have q: "main_step h (p\<lparr>mr_main := Testing_Queue\<rparr>) (p\<lparr>mr_main := Lowering\<rparr>)"
    using main_step.test_queue [of "p\<lparr>mr_main := Testing_Queue\<rparr>" h] assms(4) by simp
  have t: "main_step h (p\<lparr>mr_main := Testing\<rparr>) (p\<lparr>mr_main := Testing_Queue\<rparr>)"
    using main_step.test_finished [of "p\<lparr>mr_main := Testing\<rparr>" h] assms(3) by simp
  have w: "main_step h (p\<lparr>mr_main := Asleep\<rparr>) (p\<lparr>mr_main := Testing\<rparr>)"
    using main_step.wake [of "p\<lparr>mr_main := Asleep\<rparr>" h] assms(2) by simp
  have l: "main_step h (p\<lparr>mr_main := Loop_Head\<rparr>) (p\<lparr>mr_main := Asleep\<rparr>)"
    using main_step.sleep [of "p\<lparr>mr_main := Loop_Head\<rparr>" h] assms(2) by simp
  have p: "p\<lparr>mr_main := m\<rparr> = p" if "mr_main p = m" for m using that by simp
  note prepend = converse_rtranclp_into_rtranclp [of "main_step h"]
  have "main_steps h (p\<lparr>mr_main := m\<rparr>) (p\<lparr>mr_main := Lowering\<rparr>)" if "\<not> shutting_down m" for m
    using that l w t q by (cases m) (auto intro: prepend)
  from this [OF assms(1)] show ?thesis by (simp add: p)
qed

lemma can_end_itself:
  assumes "main_inv p" "ho_running h (mr_state p)"
    and "(ho_threads h)\<^sup>*\<^sup>* (mr_state p) s1" "ho_finished h s1" "ho_empty h s1"
    and "(ho_threads h)\<^sup>*\<^sup>* (ho_lower h s1) s2" "ho_source_done h s2" "ho_processor_done h s2"
  shows "\<exists>p'. main_steps h p p' \<and> mr_main p' = Main_Returned \<and> mr_signalled p' = mr_signalled p"
proof -
  have main: "\<not> shutting_down (mr_main p)" using assms(1,2) by (auto simp: main_inv_def)
  have up: "ho_running h s1" using assms(3,2) by (induction rule: rtranclp_induct) (auto simp: flag)
  let ?p1 = "p\<lparr>mr_state := s1\<rparr>" and ?p2 = "p\<lparr>mr_state := ho_lower h s1, mr_main := Loop_Head\<rparr>"
  have "main_steps h p ?p1" using main assms(3) by (intro threads_lift) auto
  also have "main_steps h ?p1 (?p1\<lparr>mr_main := Lowering\<rparr>)" using main up assms(4,5) by (intro reach_lowering) simp_all
  also have "main_steps h (?p1\<lparr>mr_main := Lowering\<rparr>) ?p2"
    using main_step.replay_complete [of "?p1\<lparr>mr_main := Lowering\<rparr>" h] by auto
  finally have s: "main_steps h p ?p2" .
  obtain p' where "main_steps h ?p2 p'" "mr_main p' = Main_Returned" "mr_signalled p' = mr_signalled p"
    using can_return [OF main_inv_steps [OF s assms(1)], of s2] assms(6-8) by (auto simp: flag)
  then show ?thesis using s by (meson rtranclp_trans)
qed

end

section \<open>The result\<close>

text \<open>What \<open>main\<close> leaves: the counters of its last log line, and the disk once the recorder was
  closed.\<close>

record main_result =
  res_processed :: u64
  res_signals :: u64
  res_disk :: "disk option"

definition last_line :: "engine \<Rightarrow> disk option \<Rightarrow> main_result" where
  "last_line e d = \<lparr>res_processed = en_processed e, res_signals = sk_signals_fired (en_sink e), res_disk = d\<rparr>"

end
