(* ===== verification/Replay_Program.thy ===== *)
theory Replay_Program
  imports Main_Loop
begin

text \<open>
  A whole replay, from the start of its threads to the return of \<open>main\<close>: the main loop with the
  replay and the processing thread of the theory \<open>Shutdown\<close>. What it handles, what its last log line says, and
  that it always can end.
\<close>

section \<open>A replay under the main loop\<close>

definition map_replay :: "(replay \<Rightarrow> replay) \<Rightarrow> pipeline \<Rightarrow> pipeline" where
  "map_replay f p = p\<lparr>pl_sys := (pl_sys p)\<lparr>sy_replay := f (sy_replay (pl_sys p))\<rparr>\<rparr>"

definition close_replay :: "replay \<Rightarrow> replay" where
  "close_replay r = r\<lparr>rp_reader := reader_close (rp_reader r)\<rparr>"

lemma replay_stop_parts: "replay_stop r = close_replay (resume r)"
  by (simp add: replay_stop_def close_replay_def resume_def)

definition replay_host :: "(queue_message \<Rightarrow> queue_message) \<Rightarrow> (pipeline, main_result) host" where
  "replay_host moved = \<lparr>
     ho_threads = (\<lambda>p p'. pipeline_step moved p p' \<and> sy_running (pl_sys p') = sy_running (pl_sys p)),
     ho_running = (\<lambda>p. sy_running (pl_sys p)),
     ho_lower = (\<lambda>p. p\<lparr>pl_sys := (pl_sys p)\<lparr>sy_running := False\<rparr>\<rparr>),
     ho_finished = (\<lambda>p. rp_finished (sy_replay (pl_sys p))),
     ho_empty = (\<lambda>p. q_empty (sy_queue (pl_sys p))),
     ho_stop = map_replay resume,
     ho_source_done = (\<lambda>p. sy_phase (pl_sys p) = Returned),
     ho_stopped = map_replay close_replay,
     ho_processor_done = (\<lambda>p. pl_consumer p = Consumer_Exited),
     ho_result = (\<lambda>p. last_line (fst (sy_world (pl_sys p))) None)\<rparr>"

lemma replay_host_simps [simp]:
  "ho_threads (replay_host moved) p p' \<longleftrightarrow> pipeline_step moved p p' \<and> sy_running (pl_sys p') = sy_running (pl_sys p)"
  "ho_running (replay_host moved) p = sy_running (pl_sys p)"
  "ho_lower (replay_host moved) p = p\<lparr>pl_sys := (pl_sys p)\<lparr>sy_running := False\<rparr>\<rparr>"
  "ho_finished (replay_host moved) p = rp_finished (sy_replay (pl_sys p))"
  "ho_empty (replay_host moved) p = q_empty (sy_queue (pl_sys p))"
  "ho_stop (replay_host moved) = map_replay resume"
  "ho_source_done (replay_host moved) p \<longleftrightarrow> sy_phase (pl_sys p) = Returned"
  "ho_stopped (replay_host moved) = map_replay close_replay"
  "ho_processor_done (replay_host moved) p \<longleftrightarrow> pl_consumer p = Consumer_Exited"
  "ho_result (replay_host moved) p = last_line (fst (sy_world (pl_sys p))) None"
  by (simp_all add: replay_host_def)

lemma map_replay_fields [simp]:
  "pl_consumer (map_replay f p) = pl_consumer p" "sy_replay (pl_sys (map_replay f p)) = f (sy_replay (pl_sys p))"
  "sy_phase (pl_sys (map_replay f p)) = sy_phase (pl_sys p)" "sy_running (pl_sys (map_replay f p)) = sy_running (pl_sys p)"
  "sy_queue (pl_sys (map_replay f p)) = sy_queue (pl_sys p)" "sy_world (pl_sys (map_replay f p)) = sy_world (pl_sys p)"
  "sy_handled (pl_sys (map_replay f p)) = sy_handled (pl_sys p)"
  by (simp_all add: map_replay_def)

text \<open>The invariant: that of the replay and that of the consumer's end; a replay thread that returned
  before the flag fell has finished.\<close>

definition replay_ok :: "entry list \<Rightarrow> condition list \<Rightarrow> pipeline \<Rightarrow> bool" where
  "replay_ok es conds p \<longleftrightarrow> list_all wf_entry es \<and> replay_inv es conds (pl_sys p) \<and> leaving_pipe p
     \<and> (sy_running (pl_sys p) \<and> sy_phase (pl_sys p) = Returned \<longrightarrow> rp_finished (sy_replay (pl_sys p)))"

definition replay_settled :: "pipeline \<Rightarrow> bool" where
  "replay_settled p \<longleftrightarrow> rp_finished (sy_replay (pl_sys p)) \<and> q_items QUEUE_CAPACITY (sy_queue (pl_sys p)) = []"

lemma pipeline_step_sys:
  assumes "pipeline_step moved p p'"
  shows "sys_step moved (pl_sys p) (pl_sys p') \<or> pl_sys p' = pl_sys p"
  using assms by cases (auto intro: sys_step.consume)

lemma finished_returned: "replay_inv es conds s \<Longrightarrow> rp_finished (sy_replay s) \<Longrightarrow> sy_phase s = Returned"
  by (auto simp: replay_inv_def)

lemma returned_step:
  assumes "sys_step moved s s'" "sy_phase s = Returned"
  shows "sy_phase s' = Returned \<and> rp_finished (sy_replay s') = rp_finished (sy_replay s)
    \<and> (sy_queue s' = sy_queue s \<or> (\<exists>m. try_pop moved QUEUE_CAPACITY (sy_queue s) = Some (m, sy_queue s')))"
  using assms by cases (auto simp: pause_def resume_def set_speed_def)

lemma returned_early:
  assumes "sys_step moved s s'" "sy_running s'"
    and "sy_running s \<and> sy_phase s = Returned \<longrightarrow> rp_finished (sy_replay s)"
  shows "sy_phase s' = Returned \<longrightarrow> rp_finished (sy_replay s')"
  using assms by cases (auto dest: replay_next_cases simp: pause_def resume_def set_speed_def)

lemma replay_ok_step:
  assumes "replay_ok es conds p" "pipeline_step moved p p'"
  shows "replay_ok es conds p'"
  using pipeline_step_sys [OF assms(2)]
proof
  assume st: "sys_step moved (pl_sys p) (pl_sys p')"
  then show ?thesis
    using replay_inv_step [OF _ st] leaving_pipe_step [OF _ assms(2)] assms(1) returned_early [OF st]
    by (auto simp: replay_ok_def)
qed (use leaving_pipe_step [OF _ assms(2)] assms(1) in \<open>auto simp: replay_ok_def\<close>)

lemma replay_inv_frame:
  assumes "replay_inv es conds s" "sy_queue s' = sy_queue s" "sy_world s' = sy_world s" "sy_handled s' = sy_handled s"
    and "sy_phase s' = sy_phase s" "rp_replayed (sy_replay s') = rp_replayed (sy_replay s)"
    and "rp_finished (sy_replay s') = rp_finished (sy_replay s)"
    and "sy_phase s \<noteq> Returned \<Longrightarrow> rp_reader (sy_replay s') = rp_reader (sy_replay s)"
  shows "replay_inv es conds s'"
proof -
  have "underway s' = underway s" using assms by (simp add: underway_def)
  then show ?thesis using assms unfolding replay_inv_def by auto
qed

lemma settled_step:
  assumes "replay_inv es conds s" "rp_finished (sy_replay s)" "q_items QUEUE_CAPACITY (sy_queue s) = []" "sys_step moved s s'"
  shows "rp_finished (sy_replay s') \<and> q_items QUEUE_CAPACITY (sy_queue s') = []"
proof -
  have ri: "ring_inv QUEUE_CAPACITY (sy_queue s)" using assms(1) by (simp add: replay_inv_def)
  then have "try_pop moved QUEUE_CAPACITY (sy_queue s) = None"
    using assms(3) by (cases rule: ring.pop_cases [where moved = moved]) auto
  then show ?thesis using returned_step [OF assms(4) finished_returned [OF assms(1,2)]] assms(2,3) by auto
qed

interpretation replay_main: hosted "replay_host moved" "replay_ok es conds" replay_settled
  for moved es conds
proof unfold_locales
  fix p p' :: pipeline
  show "replay_ok es conds p'" if "replay_ok es conds p" "ho_threads (replay_host moved) p p'"
    using that by (auto intro: replay_ok_step)
  show "replay_ok es conds (ho_lower (replay_host moved) p)" if "replay_ok es conds p"
    using that replay_inv_frame [of es conds "pl_sys p" "(pl_sys p)\<lparr>sy_running := False\<rparr>"]
    by (auto simp: replay_ok_def leaving_pipe_def)
  show "replay_ok es conds (ho_stop (replay_host moved) p)" if "replay_ok es conds p"
    using that replay_inv_frame [of es conds "pl_sys p" "pl_sys (map_replay resume p)"]
    by (auto simp: replay_ok_def leaving_pipe_def resume_def)
  show "replay_ok es conds (ho_stopped (replay_host moved) p)"
    if "replay_ok es conds p" "ho_source_done (replay_host moved) p"
    using that replay_inv_frame [of es conds "pl_sys p" "pl_sys (map_replay close_replay p)"]
    by (auto simp: replay_ok_def leaving_pipe_def close_replay_def)
  show "ho_source_done (replay_host moved) p'" if "ho_threads (replay_host moved) p p'" "ho_source_done (replay_host moved) p"
    using that pipeline_step_sys [of moved p p'] returned_step [of moved "pl_sys p" "pl_sys p'"] by auto
  show "ho_finished (replay_host moved) p'"
    if "replay_ok es conds p" "ho_threads (replay_host moved) p p'" "ho_finished (replay_host moved) p"
    using that pipeline_step_sys [of moved p p'] returned_step [of moved "pl_sys p" "pl_sys p'"]
      finished_returned [of es conds "pl_sys p"] by (auto simp: replay_ok_def)
  show "replay_settled p'" if "replay_ok es conds p" "ho_threads (replay_host moved) p p'" "replay_settled p"
    using that pipeline_step_sys [of moved p p'] settled_step [of es conds "pl_sys p" moved "pl_sys p'"]
    by (auto simp: replay_ok_def replay_settled_def)
  show "replay_settled p" if "replay_ok es conds p" "ho_finished (replay_host moved) p" "ho_empty (replay_host moved) p"
    using that q_empty_iff [of QUEUE_CAPACITY "sy_queue (pl_sys p)"]
    by (auto simp: replay_ok_def replay_inv_def ring_inv_def replay_settled_def)
qed (auto simp: replay_settled_def resume_def close_replay_def)

lemma replay_ok_start:
  assumes "ahead (rp_reader r) es" "list_all wf_entry es"
  shows "replay_ok es conds (pipeline_start (sys_start r (new_engine conds None, clk)))"
proof -
  have v: "valid_capacity QUEUE_CAPACITY" by (simp add: valid_capacity_def QUEUE_CAPACITY_def)
  have "ring_inv QUEUE_CAPACITY (sy_queue (sys_start r (new_engine conds None, clk)))"
    using ring_new [OF v] by (simp add: sys_start_def)
  then show ?thesis using assms replay_inv_start [OF assms(1), of conds clk]
    by (simp add: replay_ok_def leaving_pipe_start) (simp add: pipeline_start_def sys_start_def)
qed

text \<open>The handled messages are those of the first entries.\<close>

lemma handled_prefix:
  assumes "replay_inv es conds s"
  shows "list_all2 carries (sy_handled s) (take (length (sy_handled s)) es)"
proof -
  obtain j where "list_all2 carries (underway s) (take j es)" "j \<le> length es"
    using assms unfolding replay_inv_def by fastforce
  then have "list_all2 carries (sy_handled s) (take (length (sy_handled s)) (take j es))" "length (sy_handled s) \<le> j"
    using list_all2_takeI [of carries "underway s" "take j es" "length (sy_handled s)"]
    by (auto simp: underway_def dest!: list_all2_lengthD)
  then show ?thesis by (simp add: min_def)
qed

lemma settled_all:
  assumes "replay_inv es conds s" "rp_finished (sy_replay s)" "q_items QUEUE_CAPACITY (sy_queue s) = []"
  shows "list_all2 carries (sy_handled s) es"
proof -
  have "underway s = sy_handled s"
    using assms(3) finished_returned [OF assms(1,2)] by (simp add: underway_def in_hand_def)
  then show ?thesis using assms(1,2) by (auto simp: replay_inv_def)
qed

lemma replay_program_facts:
  assumes "ahead (rp_reader r) es" "list_all wf_entry es"
    and "main_steps (replay_host moved) (main_start (pipeline_start (sys_start r (new_engine conds None, clk)))) p"
    and "mr_main p = Main_Returned"
  defines "s \<equiv> pl_sys (mr_state p)"
  shows "replay_inv es conds s \<and> length (q_items QUEUE_CAPACITY (sy_queue s)) \<le> 1
    \<and> mr_result p = Some (last_line (fst (sy_world s)) None)
    \<and> (\<not> mr_signalled p \<longrightarrow> list_all2 carries (sy_handled s) es)"
proof -
  have start: "sy_running (pl_sys (pipeline_start (sys_start r (new_engine conds None, clk))))"
    by (simp add: pipeline_start_def sys_start_def)
  have r: "replay_ok es conds (mr_state p)" "pl_consumer (mr_state p) = Consumer_Exited"
    "mr_result p = Some (last_line (fst (sy_world s)) None)" "\<not> mr_signalled p \<longrightarrow> replay_settled (mr_state p)"
    using replay_main.returned [OF assms(3) replay_ok_start [OF assms(1,2)] _ assms(4)] start by (simp_all add: s_def)
  then show ?thesis using settled_all [of es conds s]
    by (auto simp: replay_ok_def leaving_pipe_def replay_settled_def s_def length_q_items)
qed

text \<open>C2: A replay that is not interrupted by a signal handles every record of the file exactly once and in
  order before \<open>main\<close> returns, whatever the interleaving of the threads and the commands of the
  dashboard, and the last line of the log counts them; an interrupted one handles the first
  records and leaves at most one message in the queue.\<close>

theorem replay_program:
  assumes "map_of (disk_files dk) path = Some (recording h es)" "fh_magic h = FILE_MAGIC" "fh_version h = FILE_VERSION"
    and "list_all wf_entry es" "replay_load path dk new_replay = (True, r)"
    and "main_steps (replay_host moved) (main_start (pipeline_start (sys_start r (new_engine conds None, clk)))) p"
    and "mr_main p = Main_Returned"
  defines "s \<equiv> pl_sys (mr_state p)"
  shows "(\<not> mr_signalled p \<longrightarrow> length (sy_handled s) = length es)
    \<and> list_all2 carries (sy_handled s) (take (length (sy_handled s)) es)
    \<and> length (q_items QUEUE_CAPACITY (sy_queue s)) \<le> 1
    \<and> engine_after (new_engine conds None) (sy_handled s) (fst (sy_world s))
    \<and> map_option res_processed (mr_result p) = Some (of_nat (length (sy_handled s)))"
proof -
  note f = replay_program_facts [OF load_recording [OF assms(1-3,5)] assms(4,6,7), folded s_def]
  then have e: "engine_after (new_engine conds None) (sy_handled s) (fst (sy_world s))" by (simp add: replay_inv_def)
  then show ?thesis using f handled_prefix engine_after_counts [OF e]
    by (auto simp: last_line_def dest: list_all2_lengthD)
qed

section \<open>A replay always can end\<close>

lemma carries_applicable: "carries m e \<Longrightarrow> entry_applicable e \<Longrightarrow> applicable m"
proof -
  assume c: "carries m e" and a: "entry_applicable e"
  have "entry_applicable (0, stored (msg_depth m))"
    using c a entry_applicable_stored [of 0 "snd e" "fst e"] by (simp add: carries_def)
  then have "entry_applicable (0, msg_depth m)" using entry_applicable_stored by blast
  then show ?thesis using c by (simp add: entry_applicable_def applicable_def carries_def is_depth_def)
qed

lemma queued_applicable:
  assumes "replay_inv es conds s" "list_all entry_applicable es" "m \<in> set (q_items QUEUE_CAPACITY (sy_queue s))"
  shows "applicable m"
proof -
  obtain j where "list_all2 carries (underway s) (take j es)" using assms(1) unfolding replay_inv_def by blast
  moreover have "m \<in> set (underway s)" using assms(3) by (simp add: underway_def)
  ultimately have "\<exists>e\<in>set (take j es). carries m e" unfolding list_all2_conv_all_nth in_set_conv_nth by (metis nth_mem)
  then obtain e where "e \<in> set es" "carries m e" by (auto dest: in_set_takeD)
  then show ?thesis using assms(2) carries_applicable by (auto simp: list_all_iff)
qed

abbreviation replay_threads :: "(queue_message \<Rightarrow> queue_message) \<Rightarrow> pipeline \<Rightarrow> pipeline \<Rightarrow> bool" where
  "replay_threads moved \<equiv> (ho_threads (replay_host moved))\<^sup>*\<^sup>*"

lemma replay_threads_ok: "replay_threads moved p p' \<Longrightarrow> replay_ok es conds p \<Longrightarrow> replay_ok es conds p'"
  by (induction rule: rtranclp_induct) (auto intro: replay_ok_step)

text \<open>A consumer that has not returned empties the queue.\<close>

lemma drain_pipe:
  assumes "replay_ok es conds p" "list_all entry_applicable es"
    and "pl_consumer p = Draining \<or> (pl_consumer p = Consuming \<and> sy_running (pl_sys p))"
  obtains q w hs where "replay_threads moved p (p\<lparr>pl_sys := (pl_sys p)\<lparr>sy_queue := q, sy_world := w, sy_handled := hs\<rparr>\<rparr>)"
    "q_items QUEUE_CAPACITY q = []"
proof -
  have "\<exists>q w hs. replay_threads moved p (p\<lparr>pl_sys := (pl_sys p)\<lparr>sy_queue := q, sy_world := w, sy_handled := hs\<rparr>\<rparr>)
      \<and> q_items QUEUE_CAPACITY q = []"
    using assms(1,3)
  proof (induction "length (q_items QUEUE_CAPACITY (sy_queue (pl_sys p)))" arbitrary: p)
    case 0
    then have "q_items QUEUE_CAPACITY (sy_queue (pl_sys p)) = []" by (simp del: length_q_items)
    then show ?case
      by (intro exI [of _ "sy_queue (pl_sys p)"] exI [of _ "sy_world (pl_sys p)"] exI [of _ "sy_handled (pl_sys p)"]) simp
  next
    case (Suc n)
    have inv: "replay_inv es conds (pl_sys p)" using Suc.prems(1) by (simp add: replay_ok_def)
    then have "ring_inv QUEUE_CAPACITY (sy_queue (pl_sys p))" by (simp add: replay_inv_def)
    then obtain m q where item: "q_items QUEUE_CAPACITY (sy_queue (pl_sys p)) = m # q_items QUEUE_CAPACITY q"
      "try_pop moved QUEUE_CAPACITY (sy_queue (pl_sys p)) = Some (m, q)"
      using Suc.hyps(2) by (cases rule: ring.pop_cases [where moved = moved]) auto
    have "applicable m" using queued_applicable [OF inv assms(2)] item(1) by simp
    moreover have "engine_after (new_engine conds None) (sy_handled (pl_sys p)) (fst (sy_world (pl_sys p)))"
      using inv by (simp add: replay_inv_def)
    ultimately obtain w where h: "handle m (sy_world (pl_sys p)) = Inr w" using handle_defined by (metis prod.collapse)
    let ?p = "p\<lparr>pl_sys := (pl_sys p)\<lparr>sy_queue := q, sy_world := w, sy_handled := sy_handled (pl_sys p) @ [m]\<rparr>\<rparr>"
    have st: "pipeline_step moved p ?p" by (rule pipeline_step.take_one [OF Suc.prems(2) item(2) h])
    obtain q' w' hs where "replay_threads moved ?p (?p\<lparr>pl_sys := (pl_sys ?p)\<lparr>sy_queue := q', sy_world := w', sy_handled := hs\<rparr>\<rparr>)"
      "q_items QUEUE_CAPACITY q' = []"
      using Suc.hyps(1) [of ?p] Suc.hyps(2) Suc.prems replay_ok_step [OF Suc.prems(1) st] item(1) by auto
    moreover have "replay_threads moved p ?p" using st by (intro r_into_rtranclp) simp
    ultimately have "replay_threads moved p (?p\<lparr>pl_sys := (pl_sys ?p)\<lparr>sy_queue := q', sy_world := w', sy_handled := hs\<rparr>\<rparr>)"
      by (meson rtranclp_trans)
    then show ?case using \<open>q_items QUEUE_CAPACITY q' = []\<close>
      by (intro exI [of _ q'] exI [of _ w'] exI [of _ hs]) simp
  qed
  then show thesis using that by blast
qed

lemma source_thread:
  "sys_step moved (pl_sys p) s \<Longrightarrow> sy_handled s = sy_handled (pl_sys p) \<Longrightarrow> sy_running s = sy_running (pl_sys p) \<Longrightarrow>
    ho_threads (replay_host moved) p (p\<lparr>pl_sys := s\<rparr>)"
  by (auto intro: pipeline_step.source)

text \<open>With the flag down the replay thread returns: from the head of its loop at once, from a push when
  that succeeds or finds the queue full.\<close>

lemma source_returns:
  assumes "replay_ok es conds p" "\<not> sy_running (pl_sys p)"
  obtains p' where "replay_threads moved p p'" "sy_phase (pl_sys p') = Returned" "pl_consumer p' = pl_consumer p"
proof -
  have stopped: "\<exists>p'. replay_threads moved p p' \<and> sy_phase (pl_sys p') = Returned \<and> pl_consumer p' = pl_consumer p"
    if "sy_phase (pl_sys p) = Reading" "\<not> sy_running (pl_sys p)" for p
    using source_thread [OF sys_step.stopped [OF that]]
    by (intro exI [of _ "p\<lparr>pl_sys := (pl_sys p)\<lparr>sy_phase := Returned\<rparr>\<rparr>"]) (auto intro: r_into_rtranclp)
  have "\<exists>p'. replay_threads moved p p' \<and> sy_phase (pl_sys p') = Returned \<and> pl_consumer p' = pl_consumer p"
  proof (cases "sy_phase (pl_sys p)")
    case Reading
    then show ?thesis using stopped assms(2) by blast
  next
    case (Pushing m)
    obtain pushed q where q: "try_push QUEUE_CAPACITY m (sy_queue (pl_sys p)) = (pushed, q)" by fastforce
    show ?thesis
    proof (cases pushed)
      case True
      let ?s = "(pl_sys p)\<lparr>sy_replay := count_replayed (sy_replay (pl_sys p)), sy_phase := Reading, sy_queue := q\<rparr>"
      have "ho_threads (replay_host moved) p (p\<lparr>pl_sys := ?s\<rparr>)"
        using q True by (intro source_thread sys_step.push [OF Pushing]) simp_all
      then have "replay_threads moved p (p\<lparr>pl_sys := ?s\<rparr>)" by (rule r_into_rtranclp)
      moreover obtain p' where "replay_threads moved (p\<lparr>pl_sys := ?s\<rparr>) p'" "sy_phase (pl_sys p') = Returned" "pl_consumer p' = pl_consumer p"
        using stopped [of "p\<lparr>pl_sys := ?s\<rparr>"] assms(2) by auto
      ultimately show ?thesis by (meson rtranclp_trans)
    next
      case False
      let ?s = "(pl_sys p)\<lparr>sy_phase := Returned\<rparr>"
      have "ho_threads (replay_host moved) p (p\<lparr>pl_sys := ?s\<rparr>)"
        using q False assms(2) by (intro source_thread sys_step.give_up [OF Pushing]) simp_all
      then show ?thesis by (intro exI [of _ "p\<lparr>pl_sys := ?s\<rparr>"]) auto
    qed
  qed auto
  then show thesis using that by blast
qed

lemma threads_exit:
  assumes "replay_ok es conds p" "list_all entry_applicable es" "\<not> sy_running (pl_sys p)"
  obtains p' where "replay_threads moved p p'" "sy_phase (pl_sys p') = Returned" "pl_consumer p' = Consumer_Exited"
proof -
  obtain p1 where p1: "replay_threads moved p p1" "sy_phase (pl_sys p1) = Returned" "pl_consumer p1 = pl_consumer p"
    by (rule source_returns [OF assms(1,3)])
  have down: "\<not> sy_running (pl_sys p')" if "replay_threads moved p p'" for p'
    using that assms(3) by (induction rule: rtranclp_induct) auto
  have drained: "\<exists>p'. replay_threads moved p2 p' \<and> sy_phase (pl_sys p') = Returned \<and> pl_consumer p' = Consumer_Exited"
    if p2: "replay_threads moved p p2" "sy_phase (pl_sys p2) = Returned" "pl_consumer p2 = Draining" for p2
  proof -
    note ok = replay_threads_ok [OF p2(1) assms(1)]
    obtain q w hs where d: "replay_threads moved p2 (p2\<lparr>pl_sys := (pl_sys p2)\<lparr>sy_queue := q, sy_world := w, sy_handled := hs\<rparr>\<rparr>)"
        (is "replay_threads moved p2 ?p3") "q_items QUEUE_CAPACITY q = []"
      by (rule drain_pipe [OF ok assms(2)]) (use p2(3) in auto)
    have "ring_inv QUEUE_CAPACITY q" using replay_threads_ok [OF d(1) ok] by (simp add: replay_ok_def leaving_pipe_def)
    then have "try_pop moved QUEUE_CAPACITY q = None"
      using d(2) by (cases rule: ring.pop_cases [where moved = moved]) auto
    then have "ho_threads (replay_host moved) ?p3 (?p3\<lparr>pl_consumer := Consumer_Exited, pl_clean := True\<rparr>)"
      using pipeline_step.exit [of ?p3 moved] p2(2,3) by simp
    then have "replay_threads moved p2 (?p3\<lparr>pl_consumer := Consumer_Exited, pl_clean := True\<rparr>)"
      using d(1) by (rule rtranclp.rtrancl_into_rtrancl [rotated])
    then show ?thesis using p2(2) by (intro exI conjI) (assumption, simp_all)
  qed
  show thesis
  proof (cases "pl_consumer p1")
    case Consuming
    let ?p2 = "p1\<lparr>pl_consumer := Draining\<rparr>"
    have "ho_threads (replay_host moved) p1 ?p2" using Consuming down [OF p1(1)] by (auto intro: pipeline_step.leave_loop)
    then have "replay_threads moved p ?p2" using p1(1) by (rule rtranclp.rtrancl_into_rtrancl [rotated])
    then show thesis using drained [of ?p2] p1(2) that by (auto intro: rtranclp_trans)
  next
    case Draining
    then show thesis using drained [OF p1(1,2)] p1(1) that by (auto intro: rtranclp_trans)
  next
    case Consumer_Exited
    then show thesis using p1 that by blast
  qed
qed

text \<open>While the flag is up, the replay can be brought to its end: a client of the dashboard resumes it
  at full speed, what is underway gets through, then the remaining records follow.\<close>

lemma sys_threads:
  assumes "sys_reachable moved s s'" "sy_running s'" "pl_sys p = s" "pl_consumer p = Consuming"
  shows "replay_threads moved p (p\<lparr>pl_sys := s'\<rparr>)"
  using assms(1,2)
proof induction
  case start
  have "p\<lparr>pl_sys := s\<rparr> = p" using assms(3) by auto
  then show ?case by (metis rtranclp.rtrancl_refl)
next
  case (step s1 s2)
  have up: "sy_running s1" using step.hyps(2) step.prems by cases auto
  let ?p1 = "p\<lparr>pl_sys := s1\<rparr>" and ?p2 = "p\<lparr>pl_sys := s2\<rparr>"
  have "pipeline_step moved ?p1 ?p2"
  proof (cases "sy_handled s2 = sy_handled s1")
    case True
    then show ?thesis using step.hyps(2) pipeline_step.source [of moved ?p1 s2] by simp
  next
    case False
    with step.hyps(2) obtain m q w where "try_pop moved QUEUE_CAPACITY (sy_queue s1) = Some (m, q)"
      "handle m (sy_world s1) = Inr w" "s2 = s1\<lparr>sy_queue := q, sy_world := w, sy_handled := sy_handled s1 @ [m]\<rparr>"
      by cases auto
    then show ?thesis using pipeline_step.take_one [of ?p1 moved m q w] assms(4) up by simp
  qed
  then have "replay_threads moved ?p1 ?p2" using up step.prems by (intro r_into_rtranclp) simp
  then show ?case using step.IH [OF up] by (meson rtranclp_trans)
qed

lemma consuming: "replay_ok es conds p \<Longrightarrow> sy_running (pl_sys p) \<Longrightarrow> pl_consumer p = Consuming"
  by (auto simp: replay_ok_def leaving_pipe_def)

lemma running_same: "replay_threads moved p p' \<Longrightarrow> sy_running (pl_sys p') = sy_running (pl_sys p)"
  by (induction rule: rtranclp_induct) auto

lemma to_reading:
  assumes "replay_ok es conds p" "list_all entry_applicable es" "sy_running (pl_sys p)" "sy_phase (pl_sys p) \<noteq> Returned"
  obtains p' where "replay_threads moved p p'" "sy_phase (pl_sys p') = Reading"
proof (cases "sy_phase (pl_sys p)")
  case (Pushing m)
  obtain q w hs where d: "replay_threads moved p (p\<lparr>pl_sys := (pl_sys p)\<lparr>sy_queue := q, sy_world := w, sy_handled := hs\<rparr>\<rparr>)"
      (is "replay_threads moved p ?p1") "q_items QUEUE_CAPACITY q = []"
    by (rule drain_pipe [OF assms(1,2)]) (use consuming [OF assms(1,3)] assms(3) in auto)
  have ri: "ring_inv QUEUE_CAPACITY q"
    using replay_threads_ok [OF d(1) assms(1)] by (simp add: replay_ok_def leaving_pipe_def)
  have "length (q_items QUEUE_CAPACITY q) < unat QUEUE_CAPACITY - 1"
    by (simp only: d(2) list.size(3)) (simp add: QUEUE_CAPACITY_def)
  from ring.push_room [OF ri this, of m] obtain q1 where q1: "try_push QUEUE_CAPACITY m q = (True, q1)" by blast
  let ?s = "(pl_sys ?p1)\<lparr>sy_replay := count_replayed (sy_replay (pl_sys ?p1)), sy_phase := Reading, sy_queue := q1\<rparr>"
  have "ho_threads (replay_host moved) ?p1 (?p1\<lparr>pl_sys := ?s\<rparr>)"
    by (intro source_thread sys_step.push [of _ m]) (simp_all add: Pushing q1)
  then have "replay_threads moved p (?p1\<lparr>pl_sys := ?s\<rparr>)" using d(1) by (rule rtranclp.rtrancl_into_rtrancl [rotated])
  then show thesis by (rule that) simp
qed (use that assms(4) in auto)

lemma to_idle:
  assumes "replay_ok es conds p" "list_all entry_applicable es" "sy_running (pl_sys p)" "sy_phase (pl_sys p) = Reading"
  obtains p' k where "replay_threads moved p p'" "idle conds (drop k es) (pl_sys p')"
proof -
  obtain q w hs where d: "replay_threads moved p (p\<lparr>pl_sys := (pl_sys p)\<lparr>sy_queue := q, sy_world := w, sy_handled := hs\<rparr>\<rparr>)"
      (is "replay_threads moved p ?p1") "q_items QUEUE_CAPACITY q = []"
    by (rule drain_pipe [OF assms(1,2)]) (use consuming [OF assms(1,3)] assms(3) in auto)
  let ?s1 = "pl_sys ?p1"
  let ?s2 = "?s1\<lparr>sy_replay := resume (sy_replay ?s1)\<rparr>"
  let ?s3 = "?s2\<lparr>sy_replay := set_speed MAX_SPEED (sy_replay ?s2)\<rparr>"
  have "sys_step moved ?s1 ?s2" "sys_step moved ?s2 ?s3" by (rule sys_step.resuming, rule sys_step.speeding)
  then have "sys_reachable moved ?s1 ?s3" by (meson sys_reachable.intros)
  then have "replay_threads moved ?p1 (?p1\<lparr>pl_sys := ?s3\<rparr>)"
    by (rule sys_threads) (use assms(3) consuming [OF assms(1,3)] in auto)
  then have r: "replay_threads moved p (?p1\<lparr>pl_sys := ?s3\<rparr>)" using d(1) by (meson rtranclp_trans)
  have inv: "replay_inv es conds ?s1" using replay_threads_ok [OF d(1) assms(1)] by (simp add: replay_ok_def)
  then obtain k where "ahead (rp_reader (sy_replay ?s1)) (drop k es)"
    using assms(4) unfolding replay_inv_def by fastforce
  then have "idle conds (drop k es) (pl_sys (?p1\<lparr>pl_sys := ?s3\<rparr>))"
    using inv assms(3,4) d(2) by (simp add: idle_def resume_def set_speed_def replay_inv_def)
  with r show thesis by (rule that)
qed

lemma threads_finish:
  assumes "replay_ok es conds p" "list_all entry_applicable es" "sy_running (pl_sys p)"
  obtains p' where "replay_threads moved p p'" "rp_finished (sy_replay (pl_sys p'))" "q_empty (sy_queue (pl_sys p'))"
proof (cases "sy_phase (pl_sys p) = Returned")
  case True
  obtain q w hs where d: "replay_threads moved p (p\<lparr>pl_sys := (pl_sys p)\<lparr>sy_queue := q, sy_world := w, sy_handled := hs\<rparr>\<rparr>)"
      (is "replay_threads moved p ?p1") "q_items QUEUE_CAPACITY q = []"
    by (rule drain_pipe [OF assms(1,2)]) (use consuming [OF assms(1,3)] assms(3) in auto)
  have "ring_inv QUEUE_CAPACITY q" using replay_threads_ok [OF d(1) assms(1)] by (simp add: replay_ok_def leaving_pipe_def)
  then have "q_empty q" using d(2) q_empty_iff [of QUEUE_CAPACITY q] by (simp add: ring_inv_def)
  then show thesis using that [OF d(1)] assms(1,3) True by (simp add: replay_ok_def)
next
  case False
  obtain p1 where p1: "replay_threads moved p p1" "sy_phase (pl_sys p1) = Reading"
    by (rule to_reading [OF assms False])
  note ok1 = replay_threads_ok [OF p1(1) assms(1)] and up1 = running_same [OF p1(1)]
  obtain p2 k where p2: "replay_threads moved p1 p2" "idle conds (drop k es) (pl_sys p2)"
    by (rule to_idle [OF ok1 assms(2) _ p1(2)]) (use up1 assms(3) in auto)
  have up2: "sy_running (pl_sys p2)" using running_same [OF p2(1)] up1 assms(3) by simp
  have "list_all wf_entry (drop k es)" "list_all entry_applicable (drop k es)"
    using assms(1,2) by (auto simp: replay_ok_def list_all_iff dest: in_set_dropD)
  from idle_completes [OF p2(2) this] obtain s where s: "sys_reachable moved (pl_sys p2) s" "rp_finished (sy_replay s)"
    "q_empty (sy_queue s)" "sy_running s" by blast
  have "replay_threads moved p2 (p2\<lparr>pl_sys := s\<rparr>)"
    using consuming [OF replay_threads_ok [OF p2(1) ok1] up2] by (intro sys_threads [OF s(1,4)]) simp_all
  then have "replay_threads moved p (p2\<lparr>pl_sys := s\<rparr>)" using p1(1) p2(1) by (meson rtranclp_trans)
  then show thesis by (rule that) (simp_all add: s(2,3))
qed

lemma replay_can_end:
  assumes "ahead (rp_reader r) es" "list_all wf_entry es" "list_all entry_applicable es"
    and "main_steps (replay_host moved) (main_start (pipeline_start (sys_start r (new_engine conds None, clk)))) p"
  shows "\<exists>p'. main_steps (replay_host moved) p p' \<and> mr_main p' = Main_Returned \<and> mr_signalled p' = mr_signalled p"
proof -
  let ?h = "replay_host moved"
  have "replay_main.main_inv moved es conds (main_start (pipeline_start (sys_start r (new_engine conds None, clk))))"
    using replay_ok_start [OF assms(1,2), of conds clk]
    by (intro replay_main.main_inv_start) (simp_all add: pipeline_start_def sys_start_def)
  then have inv: "replay_main.main_inv moved es conds p" by (rule replay_main.main_inv_steps [OF assms(4)])
  then have ok: "replay_ok es conds (mr_state p)" by (simp add: replay_main.main_inv_def)
  show ?thesis
  proof (cases "ho_running ?h (mr_state p)")
    case True
    obtain s1 where s1: "replay_threads moved (mr_state p) s1" "ho_finished ?h s1" "ho_empty ?h s1"
      using threads_finish [OF ok assms(3)] True by auto
    have "replay_ok es conds (ho_lower ?h s1)" by (rule replay_main.inv_lower [OF replay_threads_ok [OF s1(1) ok]])
    then obtain s2 where "replay_threads moved (ho_lower ?h s1) s2" "ho_source_done ?h s2" "ho_processor_done ?h s2"
      using threads_exit [OF _ assms(3)] by (metis replay_main.flag(2) replay_host_simps(2,7,9))
    then show ?thesis by (rule replay_main.can_end_itself [OF inv True s1])
  next
    case False
    show ?thesis
    proof (cases "mr_main p = Main_Returned")
      case True
      then show ?thesis by blast
    next
      case main: False
      obtain s where "replay_threads moved (mr_state p) s" "ho_source_done ?h s" "ho_processor_done ?h s"
        using threads_exit [OF ok assms(3)] False by auto
      then show ?thesis using replay_main.can_return [OF inv main False] by blast
    qed
  qed
qed

text \<open>C22: From every state of a replay of readable records \<open>main\<close> can still return, without a signal unless
  one came before: no interleaving, pause or full queue leaves it waiting in a join.\<close>

theorem replay_program_ends:
  assumes "map_of (disk_files dk) path = Some (recording h es)" "fh_magic h = FILE_MAGIC" "fh_version h = FILE_VERSION"
    and "list_all wf_entry es" "list_all entry_applicable es" "replay_load path dk new_replay = (True, r)"
    and "main_steps (replay_host moved) (main_start (pipeline_start (sys_start r (new_engine conds None, clk)))) p"
  shows "\<exists>p'. main_steps (replay_host moved) p p' \<and> mr_main p' = Main_Returned \<and> mr_signalled p' = mr_signalled p"
  by (rule replay_can_end [OF load_recording [OF assms(1-3,6)] assms(4,5,7)])

section \<open>A concrete replay\<close>

lemma sample_replay_end:
  assumes "replay_load ''a.bin'' recorded_disk new_replay = (True, r)"
  obtains p where "main_steps (replay_host id) (main_start (pipeline_start (sys_start r (new_engine sample_conditions None, sample_clock)))) p"
    "mr_main p = Main_Returned" "\<not> mr_signalled p"
  using replay_can_end [OF load_recording [OF recorded_file header_valid assms] sample_entries_ok rtranclp.rtrancl_refl,
      of id sample_conditions sample_clock] that
  by (auto simp: main_start_def)

theorem replay_program_witness:
  "\<exists>r p. replay_load ''a.bin'' recorded_disk new_replay = (True, r)
    \<and> main_steps (replay_host id) (main_start (pipeline_start (sys_start r (new_engine sample_conditions None, sample_clock)))) p
    \<and> mr_main p = Main_Returned \<and> \<not> mr_signalled p \<and> map_option res_processed (mr_result p) = Some 2"
proof -
  obtain r where r: "replay_load ''a.bin'' recorded_disk new_replay = (True, r)" by (rule recorded_load)
  obtain p where p: "main_steps (replay_host id) (main_start (pipeline_start (sys_start r (new_engine sample_conditions None, sample_clock)))) p"
    "mr_main p = Main_Returned" "\<not> mr_signalled p" by (rule sample_replay_end [OF r])
  have "length sample_entries = 2" by (simp add: sample_entries_def)
  with replay_program [OF recorded_file header_valid sample_entries_ok(1) r p(1,2)] p(3)
  have "map_option res_processed (mr_result p) = Some 2" by auto
  then show ?thesis using r p by blast
qed

text \<open>A signal comes before the first record.\<close>

theorem replay_program_ends_witness:
  "\<exists>r p p'. replay_load ''a.bin'' recorded_disk new_replay = (True, r)
    \<and> main_step (replay_host id) (main_start (pipeline_start (sys_start r (new_engine sample_conditions None, sample_clock)))) p
    \<and> main_steps (replay_host id) p p' \<and> mr_main p' = Main_Returned \<and> mr_signalled p'"
proof -
  obtain r where r: "replay_load ''a.bin'' recorded_disk new_replay = (True, r)" by (rule recorded_load)
  let ?p0 = "main_start (pipeline_start (sys_start r (new_engine sample_conditions None, sample_clock))) :: (pipeline, main_result) main_run"
  let ?p1 = "?p0\<lparr>mr_state := ho_lower (replay_host id) (mr_state ?p0), mr_signalled := True\<rparr>"
  have st: "main_step (replay_host id) ?p0 ?p1" by (rule main_step.on_signal) (simp add: main_start_def)
  obtain p' where "main_steps (replay_host id) ?p1 p'" "mr_main p' = Main_Returned" "mr_signalled p' = mr_signalled ?p1"
    using replay_program_ends [OF recorded_file header_valid sample_entries_ok r r_into_rtranclp [of "main_step (replay_host id)", OF st]] by blast
  then show ?thesis using r st by (intro exI [of _ r] exI [of _ ?p1] exI [of _ p']) simp
qed

end
