(* ===== verification/Live_Program.thy ===== *)
theory Live_Program
  imports Replay_Program
begin

text \<open>
  A whole live run, from the start of its threads to the return of \<open>main\<close>, with a recorder that
  is closed at the end; then two runs of the program: a live one, and the replay of the file
  it left.
\<close>

section \<open>A live run under the main loop\<close>

text \<open>The disk after \<open>main\<close> has closed the recorder, when there is one.\<close>

definition closed_disk :: "engine \<Rightarrow> disk option" where
  "closed_disk e = map_option (\<lambda>(lg, dk). snd (logger_close lg dk)) (en_recorder e)"

text \<open>In this mode \<open>main\<close> never lowers the flag itself; it stops the client, then joins.\<close>

definition live_host :: "json_lib \<Rightarrow> (queue_message \<Rightarrow> queue_message) \<Rightarrow> (live_pipe, main_result) host" where
  "live_host jl moved = \<lparr>
     ho_threads = (\<lambda>p p'. live_pipe_step jl moved p p' \<and> lv_running p' = lv_running p \<and> lv_stopped p' = lv_stopped p),
     ho_running = lv_running,
     ho_lower = (\<lambda>p. p\<lparr>lv_running := False\<rparr>),
     ho_finished = (\<lambda>p. False),
     ho_empty = (\<lambda>p. q_empty (lp_queue (lv_live p))),
     ho_stop = (\<lambda>p. p\<lparr>lv_stopped := True\<rparr>),
     ho_source_done = (\<lambda>p. lv_feed p = Feed_Returned),
     ho_stopped = (\<lambda>p. p),
     ho_processor_done = (\<lambda>p. lv_consumer p = Consumer_Exited),
     ho_result = (\<lambda>p. let e = fst (lp_world (lv_live p)) in last_line e (closed_disk e))\<rparr>"

lemma live_host_simps [simp]:
  "ho_threads (live_host jl moved) p p' \<longleftrightarrow>
     live_pipe_step jl moved p p' \<and> lv_running p' = lv_running p \<and> lv_stopped p' = lv_stopped p"
  "ho_running (live_host jl moved) p = lv_running p"
  "ho_lower (live_host jl moved) p = p\<lparr>lv_running := False\<rparr>"
  "ho_finished (live_host jl moved) p = False"
  "ho_empty (live_host jl moved) p = q_empty (lp_queue (lv_live p))"
  "ho_stop (live_host jl moved) p = p\<lparr>lv_stopped := True\<rparr>"
  "ho_source_done (live_host jl moved) p \<longleftrightarrow> lv_feed p = Feed_Returned"
  "ho_stopped (live_host jl moved) p = p"
  "ho_processor_done (live_host jl moved) p \<longleftrightarrow> lv_consumer p = Consumer_Exited"
  "ho_result (live_host jl moved) p = (let e = fst (lp_world (lv_live p)) in last_line e (closed_disk e))"
  by (simp_all add: live_host_def)

lemma leaving_live_off:
  assumes "leaving_live jl e0 p" "lv_consumer p' = lv_consumer p" "lv_feed p' = lv_feed p" "lv_live p' = lv_live p"
    and "lv_texts p' = lv_texts p" "lv_clean p' = lv_clean p" "lv_running p' \<longrightarrow> lv_running p"
  shows "leaving_live jl e0 p'"
  using assms unfolding leaving_live_def feeding.leaving_def by (auto simp: live_ok_def in_read_def)

lemma feed_returned_stays:
  assumes "live_pipe_step jl moved p p'" "lv_feed p = Feed_Returned"
  shows "lv_feed p' = Feed_Returned"
  using assms by (auto elim!: live_pipe_step.cases feed_step.cases)

interpretation live_main: hosted "live_host jl moved" "leaving_live jl e0" "\<lambda>p. False"
  for jl moved e0
proof unfold_locales
  fix p p' :: live_pipe
  show "leaving_live jl e0 p'" if "leaving_live jl e0 p" "ho_threads (live_host jl moved) p p'"
    using that by (auto intro: leaving_live_step)
  show "leaving_live jl e0 (ho_lower (live_host jl moved) p)" if "leaving_live jl e0 p"
    using that by (rule leaving_live_off) simp_all
  show "leaving_live jl e0 (ho_stop (live_host jl moved) p)" if "leaving_live jl e0 p"
    using that by (rule leaving_live_off) simp_all
  show "ho_source_done (live_host jl moved) p'" if "ho_threads (live_host jl moved) p p'" "ho_source_done (live_host jl moved) p"
    using that by (auto intro: feed_returned_stays)
qed auto

text \<open>Every message that a text gives is well formed.\<close>

lemma parsed_wf:
  assumes "m \<in> set (parsed_messages jl texts)" "is_depth m"
  shows "wf_update (msg_depth m)"
proof -
  obtain t where t: "parsed_message jl t = Some m"
    using assms(1) by (auto simp: parsed_messages_def List.map_filter_def)
  have new: "length (du_bids new_update) = MAX_LEVELS" "length (du_asks new_update) = MAX_LEVELS"
    by (simp_all add: new_update_def)
  show ?thesis
  proof (cases "contains (quoted ''trade'') t")
    case True
    then show ?thesis using t assms(2) by (auto simp: parsed_message_def is_depth_def split: prod.splits bool.splits)
  next
    case False
    then obtain u where "parse_depth jl t new_update = (True, u)" "msg_depth m = u"
      using t by (auto simp: parsed_message_def split: prod.splits bool.splits)
    then show ?thesis using parse_depth_levels [OF new] by blast
  qed
qed

lemma untimed_depth: "is_depth m \<Longrightarrow> wf_update (msg_depth (untimed m)) = wf_update (msg_depth m)"
  "is_depth m \<Longrightarrow> du_symbol (msg_depth (untimed m)) = du_symbol (msg_depth m)"
  by (simp_all add: untimed_def wf_update_def)

lemma subseq_in: "subseq xs ys \<Longrightarrow> x \<in> set xs \<Longrightarrow> x \<in> set ys"
  using list_emb_set [of "(=)" xs ys x] by auto

lemma depths_subseq:
  assumes "subseq (map untimed ms) parsed" "u \<in> set (depths ms)"
  obtains u' where "u' \<in> set (depths parsed)" "wf_update u' = wf_update u" "du_symbol u' = du_symbol u"
proof -
  obtain m where m: "m \<in> set ms" "is_depth m" "u = msg_depth m" using assms(2) by (auto simp: depths_def)
  then have "untimed m \<in> set parsed" using subseq_in [OF assms(1)] by simp
  then have "msg_depth (untimed m) \<in> set (depths parsed)" using m(2) untimed_transparent(2) by (auto simp: depths_def)
  then show thesis using that m by (metis untimed_depth)
qed

lemma handled_depths:
  assumes "subseq (map untimed ms) (parsed_messages jl texts)"
  shows "list_all wf_update (depths ms)" "length (depths ms) \<le> length texts"
proof -
  have "wf_update u" if u: "u \<in> set (depths ms)" for u
  proof -
    obtain u' where "u' \<in> set (depths (parsed_messages jl texts))" "wf_update u' = wf_update u"
      using depths_subseq [OF assms u] by blast
    then show ?thesis using parsed_wf by (auto simp: depths_def)
  qed
  then show "list_all wf_update (depths ms)" by (simp add: list_all_iff)
  have "length (depths ms) \<le> length ms" by (simp add: depths_def)
  also have "\<dots> \<le> length (parsed_messages jl texts)" using list_emb_length [OF assms] by simp
  also have "\<dots> \<le> length texts" by (rule parsed_messages_le)
  finally show "length (depths ms) \<le> length texts" .
qed

lemma live_program_facts:
  assumes "main_steps (live_host jl moved) (main_start (live_pipe_start (new_engine conds rec) clk)) p"
    and "mr_main p = Main_Returned"
  shows "leaving_live jl (new_engine conds rec) (mr_state p)" "lv_consumer (mr_state p) = Consumer_Exited"
    "lv_feed (mr_state p) = Feed_Returned" "mr_signalled p"
    "mr_result p = Some (ho_result (live_host jl moved) (mr_state p))"
proof -
  have "lv_running (live_pipe_start (new_engine conds rec) clk)" by (simp add: live_pipe_start_def)
  with live_main.returned [OF assms(1) leaving_live_start _ assms(2)]
  show "leaving_live jl (new_engine conds rec) (mr_state p)" "lv_consumer (mr_state p) = Consumer_Exited"
    "lv_feed (mr_state p) = Feed_Returned" "mr_signalled p"
    "mr_result p = Some (ho_result (live_host jl moved) (mr_state p))"
    by simp_all
qed

text \<open>C3: A live run with a recorder, from start to the return of \<open>main\<close>: it ends by a signal only. Each text
  received was a parse error, a drop or a handled message, but for at most one that is left in
  the queue. The file that was closed holds exactly the depth updates handled, in the order
  they were handled, and the last line of the log counts all handled messages.\<close>

theorem live_program:
  assumes "main_steps (live_host jl moved) (main_start (live_pipe_start (new_engine conds (Some (lg, dk))) clk)) p"
    and "mr_main p = Main_Returned"
    and "\<And>clk. recording_open path created [] (lg, dk, clk)"
    and "length (lv_texts (mr_state p)) * entry_size \<le> disk_space dk"
  defines "s \<equiv> lv_live (mr_state p)" and "texts \<equiv> lv_texts (mr_state p)"
  shows "\<exists>left d rd. mr_signalled p \<and> left \<le> 1
    \<and> fh_parse_errors (lp_feed s) + fh_queue_full (lp_feed s) + of_nat (length (lp_handled s) + left) = of_nat (length texts)
    \<and> subseq (map untimed (lp_handled s)) (parsed_messages jl texts)
    \<and> map_option res_processed (mr_result p) = Some (of_nat (length (lp_handled s)))
    \<and> map_option res_disk (mr_result p) = Some (Some d) \<and> reader_open path d new_reader = (True, rd)
    \<and> fh_record_count (rd_header rd) = of_nat (length (depths (lp_handled s)))
    \<and> map (from_record \<circ> fst) (read_all rd) = map (Inr \<circ> stored) (depths (lp_handled s))"
proof -
  note f = live_program_facts [OF assms(1,2)]
  note acc = live_account [OF f(1,2), folded s_def texts_def]
  then have e: "engine_after (new_engine conds (Some (lg, dk))) (lp_handled s) (fst (lp_world s))" by blast
  note hd = handled_depths [of "lp_handled s" jl texts]
  have "length (depths (lp_handled s)) * entry_size \<le> length texts * entry_size"
    using hd(2) acc by (intro mult_le_mono1) blast
  also have "\<dots> \<le> disk_space dk" using assms(4) by (simp add: texts_def)
  finally have space: "length (depths (lp_handled s)) * entry_size \<le> disk_space dk" .
  have "recorded path created (disk_space dk) (depths (lp_handled s)) (fst (lp_world s))"
    using acc hd(1) by (intro engine_after_recorded [OF e assms(3) _ space]) (auto simp: depths_def list_all_iff)
  from recorded_read [OF this] obtain lg' dk' rd where r: "en_recorder (fst (lp_world s)) = Some (lg', dk')"
    "reader_open path (snd (logger_close lg' dk')) new_reader = (True, rd)"
    "fh_record_count (rd_header rd) = of_nat (length (depths (lp_handled s)))"
    "map (from_record \<circ> fst) (read_all rd) = map (Inr \<circ> stored) (depths (lp_handled s))" by blast
  have "mr_result p = Some (last_line (fst (lp_world s)) (Some (snd (logger_close lg' dk'))))"
    using f(5) by (simp add: s_def [symmetric] closed_disk_def r(1))
  then have "map_option res_processed (mr_result p) = Some (of_nat (length (lp_handled s)))"
    "map_option res_disk (mr_result p) = Some (Some (snd (logger_close lg' dk')))"
    using engine_after_counts [OF e] by (simp_all add: last_line_def)
  then show ?thesis using acc r(2-4) f(4)
    by (intro exI [of _ "length (q_items QUEUE_CAPACITY (lp_queue s))"] exI [of _ "snd (logger_close lg' dk')"] exI [of _ rd] conjI)
      (simp_all del: length_q_items)
qed

section \<open>A live run, then its replay\<close>

text \<open>The file of a live run that was closed.\<close>

lemma live_file:
  assumes "main_steps (live_host jl moved) (main_start (live_pipe_start (new_engine conds (Some (lg, dk))) clk)) p"
    and "mr_main p = Main_Returned"
    and "\<And>clk. recording_open path created [] (lg, dk, clk)"
    and "length (lv_texts (mr_state p)) * entry_size \<le> disk_space dk"
    and "list_all (\<lambda>u. storable (du_symbol u)) (depths (parsed_messages jl (lv_texts (mr_state p))))"
  defines "s \<equiv> lv_live (mr_state p)"
  obtains d es h where "map_option res_disk (mr_result p) = Some (Some d)"
    "map_of (disk_files d) path = Some (recording h es)" "fh_magic h = FILE_MAGIC" "fh_version h = FILE_VERSION"
    "list_all wf_entry es" "map (stored \<circ> snd) es = map stored (depths (lp_handled s))"
    "\<And>conds' hs e' name. list_all2 carries hs es \<Longrightarrow> engine_after (new_engine conds' None) hs e' \<Longrightarrow>
       name \<in> du_symbol ` set (depths (lp_handled s)) \<Longrightarrow>
       get_order_book name e' = get_order_book name (fst (lp_world s))
       \<and> get_aggregator name e' = get_aggregator name (fst (lp_world s))"
proof -
  note f = live_program_facts [OF assms(1,2)]
  note acc = live_account [OF f(1,2), folded s_def]
  then have e: "engine_after (new_engine conds (Some (lg, dk))) (lp_handled s) (fst (lp_world s))" by blast
  have sub: "subseq (map untimed (lp_handled s)) (parsed_messages jl (lv_texts (mr_state p)))" using acc by blast
  note hd = handled_depths [OF sub]
  have "length (depths (lp_handled s)) * entry_size \<le> length (lv_texts (mr_state p)) * entry_size"
    using hd(2) by (intro mult_le_mono1)
  then have space: "length (depths (lp_handled s)) * entry_size \<le> disk_space dk" using assms(4) by linarith
  have sym: "list_all (\<lambda>u. storable (du_symbol u)) (depths (lp_handled s))"
    unfolding list_all_iff using depths_subseq [OF sub] assms(5) by (metis list_all_iff)
  show thesis
  proof (rule rebuilt_books [OF e assms(3) hd(1) space sym])
    fix lg' dk' es h
    assume rec: "en_recorder (fst (lp_world s)) = Some (lg', dk')"
      and disk: "map_of (disk_files (snd (logger_close lg' dk'))) path = Some (recording h es)"
        "fh_magic h = FILE_MAGIC" "fh_version h = FILE_VERSION"
        "list_all wf_entry es" "map (stored \<circ> snd) es = map stored (depths (lp_handled s))"
      and same: "\<And>conds' hs e' name. list_all2 carries hs es \<Longrightarrow> engine_after (new_engine conds' None) hs e' \<Longrightarrow>
        name \<in> du_symbol ` set (depths (lp_handled s)) \<Longrightarrow>
        get_order_book name e' = get_order_book name (fst (lp_world s))
        \<and> get_aggregator name e' = get_aggregator name (fst (lp_world s))"
    have "map_option res_disk (mr_result p) = Some (Some (snd (logger_close lg' dk')))"
      using f(5) by (simp add: s_def [symmetric] closed_disk_def rec last_line_def Let_def)
    then show thesis using disk same by (rule that)
  qed
qed

text \<open>C1: Two runs of the program: a live run with a recorder until a signal ends it, and the replay of the
  file it left until that ends by itself. Whatever the texts, the schedules, the commands of
  the dashboard and the message that the first run may have left behind, the file loads, the
  second run handles as many messages as the first handled depth updates, and ends with the
  same book and the same aggregates for every symbol that had one.\<close>

theorem live_run_replayed:
  assumes "main_steps (live_host jl moved) (main_start (live_pipe_start (new_engine conds (Some (lg, dk))) clk)) p"
    and "mr_main p = Main_Returned"
    and "\<And>clk. recording_open path created [] (lg, dk, clk)"
    and "length (lv_texts (mr_state p)) * entry_size \<le> disk_space dk"
    and "list_all (\<lambda>u. storable (du_symbol u)) (depths (parsed_messages jl (lv_texts (mr_state p))))"
  defines "s \<equiv> lv_live (mr_state p)"
  shows "\<exists>d r. map_option res_disk (mr_result p) = Some (Some d) \<and> replay_load path d new_replay = (True, r)
    \<and> (\<forall>moved' conds' clk' p'.
         main_steps (replay_host moved') (main_start (pipeline_start (sys_start r (new_engine conds' None, clk')))) p'
         \<and> mr_main p' = Main_Returned \<and> \<not> mr_signalled p' \<longrightarrow>
         length (sy_handled (pl_sys (mr_state p'))) = length (depths (lp_handled s))
         \<and> (\<forall>name \<in> du_symbol ` set (depths (lp_handled s)).
              get_order_book name (fst (sy_world (pl_sys (mr_state p')))) = get_order_book name (fst (lp_world s))
            \<and> get_aggregator name (fst (sy_world (pl_sys (mr_state p')))) = get_aggregator name (fst (lp_world s))))"
proof (rule live_file [OF assms(1-5), folded s_def])
  fix d es h
  assume res: "map_option res_disk (mr_result p) = Some (Some d)"
    and disk: "map_of (disk_files d) path = Some (recording h es)" "fh_magic h = FILE_MAGIC" "fh_version h = FILE_VERSION"
    and es: "list_all wf_entry es" "map (stored \<circ> snd) es = map stored (depths (lp_handled s))"
    and same: "\<And>conds' hs e' name. list_all2 carries hs es \<Longrightarrow> engine_after (new_engine conds' None) hs e' \<Longrightarrow>
       name \<in> du_symbol ` set (depths (lp_handled s)) \<Longrightarrow>
       get_order_book name e' = get_order_book name (fst (lp_world s))
       \<and> get_aggregator name e' = get_aggregator name (fst (lp_world s))"
  have bs: "map_of (disk_files d) path = Some (enc_file_header h @ concat (map entry_bytes es))"
    using disk(1) by (simp add: recording_def)
  from reader_open_Some [OF this valid_recording [OF disk(2,3)]] obtain r where
    r: "replay_load path d new_replay = (True, r)" by (simp add: replay_load_def)
  have len: "length es = length (depths (lp_handled s))" using es(2) by (metis length_map)
  show ?thesis
  proof (intro exI [of _ d] exI [of _ r] conjI allI impI)
    fix moved' conds' clk' p'
    assume run: "main_steps (replay_host moved') (main_start (pipeline_start (sys_start r (new_engine conds' None, clk')))) p'
      \<and> mr_main p' = Main_Returned \<and> \<not> mr_signalled p'"
    let ?s' = "pl_sys (mr_state p')"
    have "replay_inv es conds' ?s'" "list_all2 carries (sy_handled ?s') es"
      using replay_program_facts [OF load_recording [OF disk r] es(1), of moved' conds' clk' p'] run by blast+
    then show "length (sy_handled ?s') = length (depths (lp_handled s))"
      "\<forall>name \<in> du_symbol ` set (depths (lp_handled s)).
         get_order_book name (fst (sy_world ?s')) = get_order_book name (fst (lp_world s))
       \<and> get_aggregator name (fst (sy_world ?s')) = get_aggregator name (fst (lp_world s))"
      using same [of "sy_handled ?s'" conds' "fst (sy_world ?s')"] len
      by (auto simp: replay_inv_def dest: list_all2_lengthD)
  qed (use res r in simp_all)
qed

section \<open>A live run always can end\<close>

abbreviation live_threads :: "json_lib \<Rightarrow> (queue_message \<Rightarrow> queue_message) \<Rightarrow> live_pipe \<Rightarrow> live_pipe \<Rightarrow> bool" where
  "live_threads jl moved \<equiv> (ho_threads (live_host jl moved))\<^sup>*\<^sup>*"

lemma feed_thread:
  "feed_step jl moved p p' \<Longrightarrow> lv_running p' = lv_running p \<Longrightarrow> lv_stopped p' = lv_stopped p \<Longrightarrow> live_threads jl moved p p'"
  by (rule r_into_rtranclp) (simp add: live_source)

text \<open>With the flag down the feed thread returns, once the read it is blocked in ends.\<close>

lemma feed_returns:
  assumes "\<not> lv_running p"
  shows "live_threads jl moved p (p\<lparr>lv_feed := Feed_Returned\<rparr>)"
proof -
  have goes: "\<not> feed_goes (p\<lparr>lv_feed := f\<rparr>)" for f using assms by (simp add: feed_goes_def)
  have idle: "live_threads jl moved (p\<lparr>lv_feed := Feed_Idle\<rparr>) (p\<lparr>lv_feed := Feed_Returned\<rparr>)"
    using feed_step.feed_exit [of "p\<lparr>lv_feed := Feed_Idle\<rparr>" jl moved] goes by (intro feed_thread) simp_all
  have connected: "live_threads jl moved (p\<lparr>lv_feed := Feed_Connected\<rparr>) (p\<lparr>lv_feed := Feed_Idle\<rparr>)"
    using feed_step.hang_up [of "p\<lparr>lv_feed := Feed_Connected\<rparr>" jl moved] goes by (intro feed_thread) simp_all
  have reading: "live_threads jl moved (p\<lparr>lv_feed := Feed_Reading\<rparr>) (p\<lparr>lv_feed := Feed_Idle\<rparr>)"
    using feed_step.broken [of "p\<lparr>lv_feed := Feed_Reading\<rparr>" jl moved] by (intro feed_thread) simp_all
  have "live_threads jl moved (p\<lparr>lv_feed := f\<rparr>) (p\<lparr>lv_feed := Feed_Returned\<rparr>)" for f
    using idle connected reading by (cases f) (auto intro: rtranclp_trans)
  from this [of "lv_feed p"] show ?thesis by simp
qed

lemma live_drained:
  assumes "leaving_live jl (new_engine conds rec) p" "list_all applicable (parsed_messages jl (lv_texts p))" "lv_consumer p = Draining"
  shows "\<exists>s. live_threads jl moved p (p\<lparr>lv_live := s\<rparr>) \<and> try_pop moved QUEUE_CAPACITY (lp_queue s) = None
    \<and> lp_feed s = lp_feed (lv_live p)"
  using assms
proof (induction "waiting (lv_live p)" arbitrary: p)
  case 0
  have inv: "live_ok jl (new_engine conds rec) p" using 0(2) by (simp add: leaving_live_def feeding.leaving_def)
  then have "ring_inv QUEUE_CAPACITY (lp_queue (lv_live p))" by (simp add: live_ok_def live_inv_def)
  moreover have "q_items QUEUE_CAPACITY (lp_queue (lv_live p)) = []" using 0(1) by (simp add: waiting_def del: length_q_items)
  ultimately have "try_pop moved QUEUE_CAPACITY (lp_queue (lv_live p)) = None"
    by (cases rule: ring.pop_cases [where moved = moved]) auto
  then show ?case by (intro exI [of _ "lv_live p"]) simp
next
  case (Suc n)
  have inv: "live_inv jl (new_engine conds rec) (lv_texts p) (lv_live p)"
    using Suc.prems(1) by (simp add: leaving_live_def feeding.leaving_def live_ok_def)
  then have "ring_inv QUEUE_CAPACITY (lp_queue (lv_live p))" by (simp add: live_inv_def)
  then obtain m q where item: "q_items QUEUE_CAPACITY (lp_queue (lv_live p)) = m # q_items QUEUE_CAPACITY q"
    "try_pop moved QUEUE_CAPACITY (lp_queue (lv_live p)) = Some (m, q)"
    using Suc.hyps(2) by (cases rule: ring.pop_cases [where moved = moved]) (auto simp: waiting_def)
  have "applicable m" using accepted_applicable [OF inv Suc.prems(2), of m] item(1) by (simp add: accepted_def)
  moreover have "engine_after (new_engine conds rec) (lp_handled (lv_live p)) (fst (lp_world (lv_live p)))"
    using inv by (simp add: live_inv_def)
  ultimately obtain w where "handle m (lp_world (lv_live p)) = Inr w" using handle_defined by (metis prod.collapse)
  then obtain s where s: "live_step jl moved Turn (lv_live p) = Inr s" "lp_queue s = q" "lp_feed s = lp_feed (lv_live p)"
    using item(2) by auto
  let ?p = "p\<lparr>lv_live := s\<rparr>"
  have st: "live_pipe_step jl moved p ?p" by (rule live_take) (use Suc.prems(3) item(2) s(1) in auto)
  have "n = waiting (lv_live ?p)" using Suc.hyps(2) item(1) s(2) by (simp add: waiting_def del: length_q_items)
  from Suc.hyps(1) [OF this leaving_live_step [OF Suc.prems(1) st]] Suc.prems(2,3)
  obtain s' where "live_threads jl moved ?p (p\<lparr>lv_live := s'\<rparr>)" "try_pop moved QUEUE_CAPACITY (lp_queue s') = None"
    "lp_feed s' = lp_feed (lv_live p)" using s(3) by auto
  moreover have "live_threads jl moved p ?p" using st by (intro r_into_rtranclp) simp
  ultimately show ?case by (meson rtranclp_trans)
qed

text \<open>\<open>closed p p'\<close>: both threads have returned, without another text, and a consumer that had not
  returned before found the queue empty after the feed had.\<close>

definition closed :: "live_pipe \<Rightarrow> live_pipe \<Rightarrow> bool" where
  "closed p p' \<longleftrightarrow> lv_feed p' = Feed_Returned \<and> lv_consumer p' = Consumer_Exited \<and> lv_texts p' = lv_texts p
     \<and> lp_feed (lv_live p') = lp_feed (lv_live p) \<and> (lv_consumer p \<noteq> Consumer_Exited \<longrightarrow> lv_clean p')"

lemma live_threads_exit:
  assumes "leaving_live jl (new_engine conds rec) p" "list_all applicable (parsed_messages jl (lv_texts p))" "\<not> lv_running p"
  shows "\<exists>p'. live_threads jl moved p p' \<and> closed p p'"
proof -
  let ?p1 = "p\<lparr>lv_feed := Feed_Returned\<rparr>"
  have r1: "live_threads jl moved p ?p1" by (rule feed_returns [OF assms(3)])
  have keep: "leaving_live jl (new_engine conds rec) p'" if "live_threads jl moved p p'" for p'
    using that assms(1) by (induction rule: rtranclp_induct) (auto intro: leaving_live_step)
  have drained: "\<exists>p'. live_threads jl moved p p' \<and> closed p p'"
    if r: "live_threads jl moved p (?p1\<lparr>lv_consumer := Draining\<rparr>)"
  proof -
    let ?p2 = "?p1\<lparr>lv_consumer := Draining\<rparr>"
    obtain s where s: "live_threads jl moved ?p2 (?p2\<lparr>lv_live := s\<rparr>)" "try_pop moved QUEUE_CAPACITY (lp_queue s) = None"
      "lp_feed s = lp_feed (lv_live p)"
      using live_drained [OF keep [OF r], of moved] assms(2) by auto
    let ?p4 = "?p2\<lparr>lv_live := s, lv_consumer := Consumer_Exited, lv_clean := True\<rparr>"
    have "live_pipe_step jl moved (?p2\<lparr>lv_live := s\<rparr>) ?p4"
      using live_exit [of "?p2\<lparr>lv_live := s\<rparr>" moved jl] s(2) by simp
    then have "live_threads jl moved (?p2\<lparr>lv_live := s\<rparr>) ?p4" by (intro r_into_rtranclp) simp
    then have "live_threads jl moved p ?p4" using r s(1) by (meson rtranclp_trans)
    then show ?thesis using s(3) by (intro exI [of _ ?p4]) (simp add: closed_def)
  qed
  show ?thesis
  proof (cases "lv_consumer p")
    case Consuming
    have "live_pipe_step jl moved ?p1 (?p1\<lparr>lv_consumer := Draining\<rparr>)"
      using live_leave [of ?p1 jl moved] Consuming assms(3) by simp
    then have "live_threads jl moved ?p1 (?p1\<lparr>lv_consumer := Draining\<rparr>)" by (intro r_into_rtranclp) simp
    then show ?thesis using drained r1 by (meson rtranclp_trans)
  next
    case Draining
    then have "?p1\<lparr>lv_consumer := Draining\<rparr> = ?p1" by simp
    then show ?thesis using drained r1 by metis
  next
    case Consumer_Exited
    then show ?thesis using r1 by (intro exI [of _ ?p1]) (simp add: closed_def)
  qed
qed

lemma quiet_keeps:
  "(live_main.quiet jl moved)\<^sup>*\<^sup>* q q' \<Longrightarrow> closed p q \<Longrightarrow> closed p q' \<and> lv_live q' = lv_live q"
  by (induction rule: rtranclp_induct) (auto simp: live_main.quiet_def closed_def)

lemma live_can_end:
  assumes "main_steps (live_host jl moved) (main_start (live_pipe_start (new_engine conds rec) clk)) p"
    and "list_all applicable (parsed_messages jl (lv_texts (mr_state p)))" "mr_main p \<noteq> Main_Returned"
  shows "\<exists>p'. main_steps (live_host jl moved) p p' \<and> mr_main p' = Main_Returned \<and> closed (mr_state p) (mr_state p')"
proof -
  let ?h = "live_host jl moved" and ?p1 = "p\<lparr>mr_state := (mr_state p)\<lparr>lv_running := False\<rparr>, mr_signalled := True\<rparr>"
  have sig: "main_step ?h p ?p1" using main_step.on_signal [of p ?h] assms(3) by simp
  have "live_main.main_inv jl moved (new_engine conds rec) (main_start (live_pipe_start (new_engine conds rec) clk))"
    using leaving_live_start by (intro live_main.main_inv_start) (simp_all add: live_pipe_start_def)
  then have "live_main.main_inv jl moved (new_engine conds rec) p" by (rule live_main.main_inv_steps [OF assms(1)])
  then have inv: "live_main.main_inv jl moved (new_engine conds rec) ?p1" using sig by (rule live_main.main_inv_step)
  then have "leaving_live jl (new_engine conds rec) (mr_state ?p1)" unfolding live_main.main_inv_def by blast
  then obtain s where s: "live_threads jl moved (mr_state ?p1) s" "closed (mr_state ?p1) s"
    using live_threads_exit [of jl conds rec "mr_state ?p1" moved] assms(2) by auto
  then obtain p' where p': "main_steps ?h ?p1 p'" "mr_main p' = Main_Returned" "(live_main.quiet jl moved)\<^sup>*\<^sup>* s (mr_state p')"
    using live_main.can_return [OF inv, of s] assms(3) by (auto simp: closed_def)
  have "closed (mr_state ?p1) (mr_state p')" using quiet_keeps [OF p'(3) s(2)] by blast
  then have "closed (mr_state p) (mr_state p')" by (simp add: closed_def)
  then show ?thesis using sig p'(1,2) by (meson converse_rtranclp_into_rtranclp)
qed

text \<open>From every state of a live run whose texts so far can be applied, a signal makes \<open>main\<close> return: neither
  join waits for ever, wherever the threads are; and no message is left if the feed thread
  returns first, as it can.\<close>

theorem live_program_ends:
  assumes "main_steps (live_host jl moved) (main_start (live_pipe_start (new_engine conds rec) clk)) p"
    and "list_all applicable (parsed_messages jl (lv_texts (mr_state p)))" "mr_main p \<noteq> Main_Returned"
    and "lv_consumer (mr_state p) \<noteq> Consumer_Exited"
  shows "\<exists>p'. main_steps (live_host jl moved) p p' \<and> mr_main p' = Main_Returned
    \<and> lv_texts (mr_state p') = lv_texts (mr_state p) \<and> q_items QUEUE_CAPACITY (lp_queue (lv_live (mr_state p'))) = []"
proof -
  obtain p' where p': "main_steps (live_host jl moved) p p'" "mr_main p' = Main_Returned" "closed (mr_state p) (mr_state p')"
    using live_can_end [OF assms(1-3)] by blast
  have "main_steps (live_host jl moved) (main_start (live_pipe_start (new_engine conds rec) clk)) p'"
    using assms(1) p'(1) by (rule rtranclp_trans)
  note f = live_program_facts [OF this p'(2)]
  have "lv_clean (mr_state p')" using p'(3) assms(4) by (simp add: closed_def)
  then have "q_items QUEUE_CAPACITY (lp_queue (lv_live (mr_state p'))) = []"
    using live_account [OF f(1,2)] by (simp del: length_q_items)
  then show ?thesis using p' by (auto simp: closed_def)
qed

section \<open>Concrete runs\<close>

text \<open>A connection and one text; then a signal.\<close>

lemma sample_live_text:
  obtains p where "main_steps (live_host clean_json id) (main_start (live_pipe_start (new_engine [] rec) sample_clock)) p"
    "mr_main p = Loop_Head" "lv_consumer (mr_state p) = Consuming" "lv_texts (mr_state p) = [sample_doc]"
    "fh_queue_full (lp_feed (lv_live (mr_state p))) = 0"
proof -
  let ?p0 = "live_pipe_start (new_engine [] rec) sample_clock" and ?s0 = "live_start (new_engine [] rec) sample_clock"
  obtain s where s: "live_step clean_json id (Receive sample_doc) ?s0 = Inr s" using receive_defined by blast
  have full: "fh_queue_full (lp_feed s) = 0"
    using receive_room [OF live_inv_start [of clean_json "new_engine [] rec" sample_clock], of id sample_doc] s
    by (auto simp: waiting_def live_start_def q_new_items new_feed_def simp del: live_step.simps)
  let ?p1 = "?p0\<lparr>lv_feed := Feed_Connected\<rparr>" and ?p2 = "?p0\<lparr>lv_feed := Feed_Reading\<rparr>"
  let ?p3 = "?p0\<lparr>lv_live := s, lv_feed := Feed_Connected, lv_texts := [sample_doc]\<rparr>"
  have "live_threads clean_json id ?p0 ?p1"
    using feed_step.connect [of ?p0 clean_json id] by (intro feed_thread) (auto simp: live_pipe_start_def feed_goes_def)
  moreover have "live_threads clean_json id ?p1 ?p2"
    using feed_step.await [of ?p1 clean_json id] by (intro feed_thread) (auto simp: live_pipe_start_def feed_goes_def)
  moreover have "live_threads clean_json id ?p2 ?p3"
    using feed_step.got_text [of ?p2 clean_json id sample_doc s] s
    by (intro feed_thread) (auto simp: live_pipe_start_def simp del: live_step.simps)
  ultimately have "live_threads clean_json id ?p0 ?p3" by (meson rtranclp_trans)
  then have "main_steps (live_host clean_json id) (main_start ?p0) ((main_start ?p0)\<lparr>mr_state := ?p3\<rparr>)"
    by (rule live_main.threads_lift) (simp_all add: main_start_def)
  then show thesis by (rule that) (simp_all add: main_start_def full live_pipe_start_def)
qed

lemma sample_live_end:
  obtains p where "main_steps (live_host clean_json id) (main_start (live_pipe_start (new_engine [] rec) sample_clock)) p"
    "mr_main p = Main_Returned" "lv_texts (mr_state p) = [sample_doc]"
    "map untimed (lp_handled (lv_live (mr_state p))) = parsed_messages clean_json [sample_doc]"
proof -
  obtain p where p: "main_steps (live_host clean_json id) (main_start (live_pipe_start (new_engine [] rec) sample_clock)) p"
    "mr_main p = Loop_Head" "lv_consumer (mr_state p) = Consuming" "lv_texts (mr_state p) = [sample_doc]"
    "fh_queue_full (lp_feed (lv_live (mr_state p))) = 0" by (rule sample_live_text)
  have app: "list_all applicable (parsed_messages clean_json (lv_texts (mr_state p)))" unfolding p(4) by code_simp
  have "mr_main p \<noteq> Main_Returned" by (simp add: p(2))
  from live_can_end [OF p(1) app this] obtain p' where
    p': "main_steps (live_host clean_json id) p p'" "mr_main p' = Main_Returned" "closed (mr_state p) (mr_state p')" by blast
  have run: "main_steps (live_host clean_json id) (main_start (live_pipe_start (new_engine [] rec) sample_clock)) p'"
    using p(1) p'(1) by (rule rtranclp_trans)
  have c: "lv_texts (mr_state p') = [sample_doc]" "fh_queue_full (lp_feed (lv_live (mr_state p'))) = 0" "lv_clean (mr_state p')"
    using p'(3) p(3-5) by (simp_all add: closed_def)
  note f = live_program_facts [OF run p'(2)]
  have inv: "live_inv clean_json (new_engine [] rec) [sample_doc] (lv_live (mr_state p'))"
    using f(1) c(1) by (simp add: leaving_live_def feeding.leaving_def live_ok_def)
  have "q_items QUEUE_CAPACITY (lp_queue (lv_live (mr_state p'))) = []"
    using live_account [OF f(1,2)] c(3) by (simp del: length_q_items)
  then have "q_empty (lp_queue (lv_live (mr_state p')))"
    using inv q_empty_iff [of QUEUE_CAPACITY "lp_queue (lv_live (mr_state p'))"] by (simp add: live_inv_def ring_inv_def)
  then have "map untimed (lp_handled (lv_live (mr_state p'))) = parsed_messages clean_json [sample_doc]"
    by (intro all_handled [OF inv c(2)]) simp_all
  then show thesis by (intro that [OF run p'(2) c(1)])
qed

lemma sample_doc_parsed: "length (depths (parsed_messages clean_json [sample_doc])) = 1"
  "list_all (\<lambda>u. storable (du_symbol u)) (depths (parsed_messages clean_json [sample_doc]))"
  "list_all (\<lambda>u. du_symbol u = ''BTC'' \<and> entry_applicable (0, u)) (depths (parsed_messages clean_json [sample_doc]))"
  by code_simp+

lemma sample_recorder:
  obtains created lg dk where "\<forall>clk. recording_open ''a.bin'' created [] (lg, dk, clk)" "entry_size \<le> disk_space dk"
proof -
  obtain lg dk where o: "disk_space dk = disk_space sample_disk - file_header_size"
    "recording_open ''a.bin'' (wall_reading sample_clock (wall_count sample_clock)) [] (lg, dk, snd (wall_us sample_clock))"
    using logger_open_spec [of sample_disk "''a.bin''" sample_clock] by (auto simp: sample_disk_def file_header_size_def)
  then show thesis
    by (intro that [of "wall_reading sample_clock (wall_count sample_clock)" lg dk])
      (simp_all add: recording_open_def sample_disk_def file_header_size_def entry_size_def)
qed

definition untimed_update :: "depth_update \<Rightarrow> depth_update" where
  "untimed_update u = u\<lparr>du_received := 0, du_parsed := 0, du_enqueued := 0, du_dequeued := 0\<rparr>"

lemma depths_untimed_all: "depths (map untimed ms) = map untimed_update (depths ms)"
  by (induction ms) (simp_all add: depths_def untimed_transparent, simp add: untimed_def untimed_update_def)

lemma untimed_update_same:
  "du_symbol (untimed_update u) = du_symbol u" "entry_applicable (t, untimed_update u) = entry_applicable (t, u)"
  by (simp_all add: untimed_update_def entry_applicable_def applicable_def is_depth_def counted_bids_def counted_asks_def)

theorem live_program_witness:
  "\<exists>lg dk p d rd. main_steps (live_host clean_json id) (main_start (live_pipe_start (new_engine [] (Some (lg, dk))) sample_clock)) p
    \<and> mr_main p = Main_Returned \<and> map_option res_disk (mr_result p) = Some (Some d)
    \<and> reader_open ''a.bin'' d new_reader = (True, rd) \<and> fh_record_count (rd_header rd) = 1"
proof -
  obtain created lg dk where o: "\<forall>clk. recording_open ''a.bin'' created [] (lg, dk, clk)" "entry_size \<le> disk_space dk"
    by (rule sample_recorder)
  obtain p where p: "main_steps (live_host clean_json id) (main_start (live_pipe_start (new_engine [] (Some (lg, dk))) sample_clock)) p"
    "mr_main p = Main_Returned" "lv_texts (mr_state p) = [sample_doc]"
    "map untimed (lp_handled (lv_live (mr_state p))) = parsed_messages clean_json [sample_doc]" by (rule sample_live_end)
  have "length (depths (lp_handled (lv_live (mr_state p)))) = 1"
    using sample_doc_parsed(1) by (simp flip: p(4) add: depths_untimed_all)
  then show ?thesis using live_program [OF p(1,2) o(1) [rule_format]] p o(2) by fastforce
qed

theorem live_program_ends_witness:
  "\<exists>p. main_steps (live_host clean_json id) (main_start (live_pipe_start (new_engine [] None) sample_clock)) p
    \<and> mr_main p = Main_Returned \<and> lv_texts (mr_state p) = [sample_doc]"
proof -
  obtain p where p: "main_steps (live_host clean_json id) (main_start (live_pipe_start (new_engine [] None) sample_clock)) p"
    "mr_main p = Loop_Head" "lv_consumer (mr_state p) = Consuming" "lv_texts (mr_state p) = [sample_doc]"
    "fh_queue_full (lp_feed (lv_live (mr_state p))) = 0" by (rule sample_live_text)
  have "list_all applicable (parsed_messages clean_json (lv_texts (mr_state p)))" unfolding p(4) by code_simp
  then obtain p' where "main_steps (live_host clean_json id) p p'" "mr_main p' = Main_Returned" "lv_texts (mr_state p') = [sample_doc]"
    using live_program_ends [OF p(1)] p(2-4) by auto
  then show ?thesis using p(1) by (meson rtranclp_trans)
qed

text \<open>Both runs: the replay of the one recorded update ends by itself with the book of the live run.\<close>

theorem live_run_replayed_witness:
  "\<exists>lg dk p d r p'. main_steps (live_host clean_json id) (main_start (live_pipe_start (new_engine [] (Some (lg, dk))) sample_clock)) p
    \<and> mr_main p = Main_Returned \<and> map_option res_disk (mr_result p) = Some (Some d) \<and> replay_load ''a.bin'' d new_replay = (True, r)
    \<and> main_steps (replay_host id) (main_start (pipeline_start (sys_start r (new_engine [] None, sample_clock)))) p'
    \<and> mr_main p' = Main_Returned \<and> length (sy_handled (pl_sys (mr_state p'))) = 1
    \<and> get_order_book ''BTC'' (fst (sy_world (pl_sys (mr_state p')))) = get_order_book ''BTC'' (fst (lp_world (lv_live (mr_state p))))"
proof -
  obtain created lg dk where o: "\<forall>clk. recording_open ''a.bin'' created [] (lg, dk, clk)" "entry_size \<le> disk_space dk"
    by (rule sample_recorder)
  obtain p where p: "main_steps (live_host clean_json id) (main_start (live_pipe_start (new_engine [] (Some (lg, dk))) sample_clock)) p"
    "mr_main p = Main_Returned" "lv_texts (mr_state p) = [sample_doc]"
    "map untimed (lp_handled (lv_live (mr_state p))) = parsed_messages clean_json [sample_doc]" by (rule sample_live_end)
  let ?us = "depths (lp_handled (lv_live (mr_state p)))"
  have "length (lv_texts (mr_state p)) * entry_size \<le> disk_space dk" using o(2) by (simp add: p(3))
  moreover have "list_all (\<lambda>u. storable (du_symbol u)) (depths (parsed_messages clean_json (lv_texts (mr_state p))))"
    unfolding p(3) by (rule sample_doc_parsed(2))
  ultimately have asm: "length (lv_texts (mr_state p)) * entry_size \<le> disk_space dk"
    "list_all (\<lambda>u. storable (du_symbol u)) (depths (parsed_messages clean_json (lv_texts (mr_state p))))" .
  have len: "length ?us = 1"
    using sample_doc_parsed(1) by (simp flip: p(4) add: depths_untimed_all)
  have "list_all (\<lambda>u. du_symbol u = ''BTC'' \<and> entry_applicable (0, u)) ?us"
    using sample_doc_parsed(3) by (simp flip: p(4) add: depths_untimed_all list.pred_map comp_def untimed_update_same)
  then have us: "list_all (\<lambda>u. entry_applicable (0, u)) ?us" "''BTC'' \<in> du_symbol ` set ?us"
    using len by (auto simp: list_all_iff length_Suc_conv)
  obtain d es h where d: "map_option res_disk (mr_result p) = Some (Some d)"
    "map_of (disk_files d) ''a.bin'' = Some (recording h es)" "fh_magic h = FILE_MAGIC" "fh_version h = FILE_VERSION"
    "list_all wf_entry es" "map (stored \<circ> snd) es = map stored ?us"
    by (rule live_file [OF p(1,2) o(1) [rule_format] asm])
  obtain d' r where r: "map_option res_disk (mr_result p) = Some (Some d')" "replay_load ''a.bin'' d' new_replay = (True, r)"
    "\<And>p'. main_steps (replay_host id) (main_start (pipeline_start (sys_start r (new_engine [] None, sample_clock)))) p' \<Longrightarrow>
      mr_main p' = Main_Returned \<Longrightarrow> \<not> mr_signalled p' \<Longrightarrow>
      length (sy_handled (pl_sys (mr_state p'))) = length ?us
      \<and> get_order_book ''BTC'' (fst (sy_world (pl_sys (mr_state p')))) = get_order_book ''BTC'' (fst (lp_world (lv_live (mr_state p))))"
    using live_run_replayed [OF p(1,2) o(1) [rule_format] asm] us(2) by metis
  have "d' = d" using d(1) r(1) by simp
  then have "ahead (rp_reader r) es" using load_recording [OF d(2-4)] r(2) by simp
  from replay_can_end [OF this d(5) applicable_entries [OF us(1) d(6)] rtranclp.rtrancl_refl, of id "[]" sample_clock]
  obtain p' where p': "main_steps (replay_host id) (main_start (pipeline_start (sys_start r (new_engine [] None, sample_clock)))) p'"
    "mr_main p' = Main_Returned" "\<not> mr_signalled p'" by (auto simp: main_start_def)
  from r(3) [OF p'] show ?thesis using p(1,2) r(1,2) p'(1,2) len by metis
qed

end
