(* ===== verification/Program_Exit.thy ===== *)
theory Program_Exit
  imports Live_Program
begin

text \<open>
  How long the end of a run can take. The theories \<open>Replay_Program\<close> and \<open>Live_Program\<close> show that
  \<open>main\<close> can return; here it must: once the flag is down, the source, the processing thread and
  \<open>main\<close> together have a bounded number of steps left, whatever their order, and one of them
  can be taken as long as \<open>main\<close> has not returned.
\<close>

section \<open>Counting steps\<close>

text \<open>The runs with \<open>n\<close> steps of the program itself. The other steps, signals and commands of the
  dashboard, come from outside and are not bounded.\<close>

inductive counted :: "('a \<Rightarrow> 'a \<Rightarrow> bool) \<Rightarrow> ('a \<Rightarrow> 'a \<Rightarrow> bool) \<Rightarrow> 'a \<Rightarrow> nat \<Rightarrow> 'a \<Rightarrow> bool" for step outside s0 where
  counted_none: "counted step outside s0 0 s0"
| counted_own: "counted step outside s0 n s \<Longrightarrow> step s s' \<Longrightarrow> \<not> outside s s' \<Longrightarrow> counted step outside s0 (Suc n) s'"
| counted_outside: "counted step outside s0 n s \<Longrightarrow> step s s' \<Longrightarrow> outside s s' \<Longrightarrow> counted step outside s0 n s'"

lemma counted_steps: "counted step outside s0 n s \<Longrightarrow> step\<^sup>*\<^sup>* s0 s"
  by (induction rule: counted.induct) (auto intro: rtranclp.rtrancl_into_rtrancl)

lemma counted_first: "step s0 s \<Longrightarrow> \<not> outside s0 s \<Longrightarrow> counted step outside s0 1 s"
  using counted_own [OF counted_none, of step s0 s outside] by simp

lemma counted_bound:
  assumes "counted step outside s0 n s" "good s0"
    and "\<And>s s'. good s \<Longrightarrow> step s s' \<Longrightarrow> good s'"
    and "\<And>s s'. good s \<Longrightarrow> step s s' \<Longrightarrow> \<not> outside s s' \<Longrightarrow> work s' < work s"
    and "\<And>s s'. good s \<Longrightarrow> step s s' \<Longrightarrow> outside s s' \<Longrightarrow> work s' \<le> (work s :: nat)"
  shows "good s \<and> n + work s \<le> work s0"
  using assms(1)
proof (induction rule: counted.induct)
  case (counted_own n s s')
  then show ?case using assms(3) [of s s'] assms(4) [of s s'] by auto
next
  case (counted_outside n s s')
  then show ?case using assms(3) [of s s'] assms(5) [of s s'] by auto
qed (simp add: assms(2))

text \<open>The steps \<open>main\<close> has before it with the flag down, and the steps of a run that come from
  outside: a signal, and those of the threads that \<open>outside\<close> names.\<close>

definition main_rank :: "main_phase \<Rightarrow> nat" where
  "main_rank m = (case m of Testing \<Rightarrow> 7 | Testing_Queue \<Rightarrow> 6 | Lowering \<Rightarrow> 5 | Loop_Head \<Rightarrow> 4 | Asleep \<Rightarrow> 4
     | Stopping \<Rightarrow> 3 | Joining_Source \<Rightarrow> 2 | Joining_Processor \<Rightarrow> 1 | Main_Returned \<Rightarrow> 0)"

definition from_outside :: "('s, 'r) host \<Rightarrow> ('s \<Rightarrow> 's \<Rightarrow> bool) \<Rightarrow> ('s, 'r) main_run \<Rightarrow> ('s, 'r) main_run \<Rightarrow> bool" where
  "from_outside h outside p p' \<longleftrightarrow> mr_main p' = mr_main p
     \<and> (mr_state p' = ho_lower h (mr_state p) \<and> mr_signalled p' \<or> outside (mr_state p) (mr_state p'))"

abbreviation own_steps :: "('s, 'r) host \<Rightarrow> ('s \<Rightarrow> 's \<Rightarrow> bool) \<Rightarrow> ('s, 'r) main_run \<Rightarrow> nat \<Rightarrow> ('s, 'r) main_run \<Rightarrow> bool" where
  "own_steps h outside \<equiv> counted (main_step h) (from_outside h outside)"

definition own_step_left :: "('s, 'r) host \<Rightarrow> ('s \<Rightarrow> 's \<Rightarrow> bool) \<Rightarrow> ('s, 'r) main_run \<Rightarrow> bool" where
  "own_step_left h outside p \<longleftrightarrow> (\<exists>p'. main_step h p p' \<and> \<not> from_outside h outside p p')"

lemma main_rank_le: "main_rank m \<le> 7"
  by (simp add: main_rank_def split: main_phase.split)

section \<open>What the threads promise at the end\<close>

text \<open>
  With the flag down every step of the threads uses up \<open>work\<close>, but for those from \<open>outside\<close>,
  which leave it as it is, and a thread that has not returned is never stuck when the messages
  it has to handle can be handled (\<open>ready\<close>).
\<close>

locale terminating = hosted +
  fixes work :: "'a \<Rightarrow> nat"
    and outside :: "'a \<Rightarrow> 'a \<Rightarrow> bool"
    and ready :: "'a \<Rightarrow> bool"
  assumes uses_work: "inv s \<Longrightarrow> \<not> ho_running h s \<Longrightarrow> ho_threads h s s' \<Longrightarrow> \<not> outside s s' \<Longrightarrow> work s' < work s"
    and keeps_work: "outside s s' \<Longrightarrow> work s' = work s"
      "work (ho_lower h s) = work s" "work (ho_stop h s) = work s" "work (ho_stopped h s) = work s"
    and never_stuck: "inv s \<Longrightarrow> ready s \<Longrightarrow> \<not> ho_running h s \<Longrightarrow> \<not> (ho_source_done h s \<and> ho_processor_done h s) \<Longrightarrow>
      \<exists>s'. ho_threads h s s' \<and> \<not> outside s s'"
begin

definition main_work :: "('a, 'b) main_run \<Rightarrow> nat" where
  "main_work p = work (mr_state p) + main_rank (mr_main p)"

lemma main_uses_work:
  assumes "main_inv p" "\<not> ho_running h (mr_state p)" "main_step h p p'"
  shows "if from_outside h outside p p' then main_work p' = main_work p else main_work p' < main_work p"
proof -
  have inv: "inv (mr_state p)" using assms(1) by (simp add: main_inv_def)
  show ?thesis
  proof (cases "from_outside h outside p p'")
    case True
    then show ?thesis by (auto simp: from_outside_def main_work_def keeps_work)
  next
    case False
    from assms(3) have "main_work p' < main_work p"
    proof cases
      case (threads s)
      then show ?thesis using False uses_work [OF inv assms(2)] by (auto simp: from_outside_def main_work_def)
    qed (use False assms(2) in \<open>auto simp: from_outside_def main_work_def main_rank_def keeps_work\<close>)
    with False show ?thesis by simp
  qed
qed

lemma stays_down: "main_step h p p' \<Longrightarrow> \<not> ho_running h (mr_state p) \<Longrightarrow> \<not> ho_running h (mr_state p')"
  by (erule main_stepE) (auto simp: flag)

lemma bounded_end:
  assumes "own_steps h outside p n p'" "main_inv p" "\<not> ho_running h (mr_state p)"
  shows "main_inv p' \<and> \<not> ho_running h (mr_state p') \<and> n + main_work p' \<le> main_work p"
proof -
  have "(main_inv p' \<and> \<not> ho_running h (mr_state p')) \<and> n + main_work p' \<le> main_work p"
  proof (rule counted_bound [OF assms(1), where good = "\<lambda>p. main_inv p \<and> \<not> ho_running h (mr_state p)"])
    fix q q'
    assume q: "main_inv q \<and> \<not> ho_running h (mr_state q)" and st: "main_step h q q'"
    then show "main_inv q' \<and> \<not> ho_running h (mr_state q')" using main_inv_step [of q q'] stays_down [of q q'] by simp
    show "main_work q' < main_work q" if "\<not> from_outside h outside q q'"
      using main_uses_work [OF _ _ st] q that by simp
    show "main_work q' \<le> main_work q" if "from_outside h outside q q'"
      using main_uses_work [OF _ _ st] q that by simp
  qed (use assms(2,3) in simp)
  then show ?thesis by blast
qed

text \<open>A step that lowers the rank of \<open>main\<close> is its own.\<close>

lemma own_step: "main_step h p p' \<Longrightarrow> mr_main p' \<noteq> mr_main p \<Longrightarrow> own_step_left h outside p"
  by (auto simp: from_outside_def own_step_left_def)

lemma thread_own_step:
  assumes "inv (mr_state p)" "ready (mr_state p)" "\<not> ho_running h (mr_state p)" "mr_main p \<noteq> Main_Returned"
    and "\<not> (ho_source_done h (mr_state p) \<and> ho_processor_done h (mr_state p))"
  shows "own_step_left h outside p"
proof -
  obtain s where s: "ho_threads h (mr_state p) s" "\<not> outside (mr_state p) s"
    using never_stuck [OF assms(1-3,5)] by blast
  have "work s < work (mr_state p)" by (rule uses_work [OF assms(1,3) s])
  then have "\<not> from_outside h outside p (p\<lparr>mr_state := s\<rparr>)" using s(2) keeps_work(2) by (auto simp: from_outside_def)
  then show ?thesis using main_step.threads [OF assms(4) s(1)] by (auto simp: own_step_left_def)
qed

lemma goes_on:
  assumes "main_inv p" "ready (mr_state p)" "\<not> ho_running h (mr_state p)" "mr_main p \<noteq> Main_Returned"
  shows "own_step_left h outside p"
proof (cases "ho_source_done h (mr_state p) \<and> ho_processor_done h (mr_state p)")
  case False
  then show ?thesis using thread_own_step assms by (auto simp: main_inv_def)
next
  case True
  note own = own_step [of p]
  show ?thesis
  proof (cases "mr_main p")
    case Loop_Head then show ?thesis using own [OF main_step.leave] assms(3) by simp
  next
    case Asleep then show ?thesis using own [OF main_step.wake_leave] assms(3) by simp
  next
    case Testing then show ?thesis using own [OF main_step.test_finished] by simp
  next
    case Testing_Queue then show ?thesis using own [OF main_step.test_queue] by simp
  next
    case Lowering then show ?thesis using own [OF main_step.replay_complete] by simp
  next
    case Stopping then show ?thesis using own [OF main_step.stop_source] by simp
  next
    case Joining_Source then show ?thesis using own [OF main_step.join_source] True by simp
  next
    case Joining_Processor then show ?thesis using own [OF main_step.join_processor] True by simp
  next
    case Main_Returned then show ?thesis using assms(4) by simp
  qed
qed

end

text \<open>A consumer that is told to stop leaves its loop and later returns.\<close>

definition consumer_rank :: "consumer_phase \<Rightarrow> nat" where
  "consumer_rank c = (case c of Consuming \<Rightarrow> 2 | Draining \<Rightarrow> 1 | Consumer_Exited \<Rightarrow> 0)"

section \<open>The end of a replay\<close>

definition replay_rank :: "phase \<Rightarrow> nat" where
  "replay_rank ph = (case ph of Pushing m \<Rightarrow> 2 | Reading \<Rightarrow> 1 | Returned \<Rightarrow> 0)"

definition replay_work :: "pipeline \<Rightarrow> nat" where
  "replay_work p = q_count QUEUE_CAPACITY (sy_queue (pl_sys p)) + 2 * replay_rank (sy_phase (pl_sys p)) + consumer_rank (pl_consumer p)"

text \<open>The commands of the dashboard.\<close>

definition replay_commanded :: "pipeline \<Rightarrow> pipeline \<Rightarrow> bool" where
  "replay_commanded p p' \<longleftrightarrow> p' = p \<or> p' = map_replay pause p \<or> p' = map_replay resume p \<or> (\<exists>v. p' = map_replay (set_speed v) p)"

definition replay_ready :: "pipeline \<Rightarrow> bool" where
  "replay_ready p \<longleftrightarrow> list_all applicable (q_items QUEUE_CAPACITY (sy_queue (pl_sys p)))"

lemma replay_uses_work:
  assumes "ring_inv QUEUE_CAPACITY (sy_queue (pl_sys p))" "\<not> sy_running (pl_sys p)" "pipeline_step moved p p'" "\<not> replay_commanded p p'"
  shows "replay_work p' < replay_work p"
  using assms(3)
proof cases
  case (source s)
  from source(2) show ?thesis
  proof cases
    case (push m q)
    have "q_count QUEUE_CAPACITY q = Suc (q_count QUEUE_CAPACITY (sy_queue (pl_sys p)))"
      using assms(1) by (rule ring.push_cases [where x = m]) (use push(3) in \<open>auto simp flip: length_q_items\<close>)
    then show ?thesis using push source(1) by (simp add: replay_work_def replay_rank_def)
  next
    case (consume m q w)
    then show ?thesis using source(3) by simp
  qed (use assms(2,4) source(1) in \<open>auto simp: replay_work_def replay_rank_def replay_commanded_def map_replay_def\<close>)
next
  case (take_one m q w)
  have "q_count QUEUE_CAPACITY (sy_queue (pl_sys p)) = Suc (q_count QUEUE_CAPACITY q)"
    using assms(1) by (rule ring.pop_cases [where moved = moved]) (use take_one(3) in \<open>auto simp flip: length_q_items\<close>)
  then show ?thesis using take_one(1) by (simp add: replay_work_def)
qed (simp_all add: replay_work_def consumer_rank_def)

lemma commanded_keeps: "replay_commanded p p' \<Longrightarrow> sy_phase (pl_sys p') = sy_phase (pl_sys p) \<and> pl_consumer p' = pl_consumer p
    \<and> sy_queue (pl_sys p') = sy_queue (pl_sys p)"
  by (auto simp: replay_commanded_def)

lemma replay_source_goes:
  assumes "\<not> sy_running (pl_sys p)" "sy_phase (pl_sys p) \<noteq> Returned"
  shows "\<exists>p'. ho_threads (replay_host moved) p p' \<and> sy_phase (pl_sys p') \<noteq> sy_phase (pl_sys p)"
proof (cases "sy_phase (pl_sys p)")
  case Reading
  then show ?thesis using source_thread [OF sys_step.stopped [OF Reading assms(1)]] by fastforce
next
  case (Pushing m)
  obtain pushed q where q: "try_push QUEUE_CAPACITY m (sy_queue (pl_sys p)) = (pushed, q)" by fastforce
  show ?thesis
  proof (cases pushed)
    case True
    then show ?thesis using source_thread [OF sys_step.push [OF Pushing]] q Pushing by fastforce
  next
    case False
    then show ?thesis using source_thread [OF sys_step.give_up [OF Pushing]] q Pushing assms(1) by fastforce
  qed
qed (use assms(2) in simp)

lemma replay_consumer_goes:
  assumes "replay_inv es conds (pl_sys p)" "\<not> sy_running (pl_sys p)" "replay_ready p" "pl_consumer p \<noteq> Consumer_Exited"
  shows "\<exists>p'. ho_threads (replay_host moved) p p'
    \<and> (pl_consumer p' \<noteq> pl_consumer p \<or> q_count QUEUE_CAPACITY (sy_queue (pl_sys p')) \<noteq> q_count QUEUE_CAPACITY (sy_queue (pl_sys p)))"
proof (cases "pl_consumer p")
  case Consuming
  then show ?thesis using pipeline_step.leave_loop [of p moved] assms(2) by fastforce
next
  case Draining
  have "ring_inv QUEUE_CAPACITY (sy_queue (pl_sys p))" using assms(1) by (simp add: replay_inv_def)
  then show ?thesis
  proof (cases rule: ring.pop_cases [where moved = moved])
    case empty
    then show ?thesis using pipeline_step.exit [OF Draining empty(2)] Draining
      by (intro exI [of _ "p\<lparr>pl_consumer := Consumer_Exited, pl_clean := (sy_phase (pl_sys p) = Returned)\<rparr>"]) simp
  next
    case (item m q)
    then have "applicable m" using assms(3) by (simp add: replay_ready_def)
    moreover have "engine_after (new_engine conds None) (sy_handled (pl_sys p)) (fst (sy_world (pl_sys p)))"
      using assms(1) by (simp add: replay_inv_def)
    ultimately obtain w where w: "handle m (sy_world (pl_sys p)) = Inr w" using handle_defined by (metis prod.collapse)
    let ?p = "p\<lparr>pl_sys := (pl_sys p)\<lparr>sy_queue := q, sy_world := w, sy_handled := sy_handled (pl_sys p) @ [m]\<rparr>\<rparr>"
    have "q_count QUEUE_CAPACITY q \<noteq> q_count QUEUE_CAPACITY (sy_queue (pl_sys p))"
      using item(1) by (metis length_Cons length_q_items n_not_Suc_n)
    moreover have "pipeline_step moved p ?p"
      using pipeline_step.take_one [of p moved m q w] Draining item(2) w by blast
    ultimately show ?thesis by (intro exI [of _ ?p]) simp
  qed
qed (use assms(4) in simp)

interpretation replay_exit: terminating "replay_host moved" "replay_ok es conds" replay_settled
    replay_work replay_commanded replay_ready
  for moved es conds
proof unfold_locales
  fix p p' :: pipeline
  show "replay_work p' < replay_work p"
    if "replay_ok es conds p" "\<not> ho_running (replay_host moved) p" "ho_threads (replay_host moved) p p'" "\<not> replay_commanded p p'"
    using replay_uses_work [of p moved p'] that by (auto simp: replay_ok_def leaving_pipe_def)
  show "replay_work p' = replay_work p" if "replay_commanded p p'"
    using commanded_keeps [OF that] by (simp add: replay_work_def)
  assume p: "replay_ok es conds p" "replay_ready p" "\<not> ho_running (replay_host moved) p"
    "\<not> (ho_source_done (replay_host moved) p \<and> ho_processor_done (replay_host moved) p)"
  show "\<exists>p'. ho_threads (replay_host moved) p p' \<and> \<not> replay_commanded p p'"
  proof (cases "sy_phase (pl_sys p) = Returned")
    case True
    then obtain p' where "ho_threads (replay_host moved) p p'" "pl_consumer p' \<noteq> pl_consumer p
        \<or> q_count QUEUE_CAPACITY (sy_queue (pl_sys p')) \<noteq> q_count QUEUE_CAPACITY (sy_queue (pl_sys p))"
      using replay_consumer_goes [of es conds p moved] p by (auto simp: replay_ok_def)
    then show ?thesis using commanded_keeps by (intro exI [of _ p']) auto
  next
    case False
    then obtain p' where "ho_threads (replay_host moved) p p'" "sy_phase (pl_sys p') \<noteq> sy_phase (pl_sys p)"
      using replay_source_goes [of p moved] p(3) by auto
    then show ?thesis using commanded_keeps by (intro exI [of _ p']) auto
  qed
qed (simp_all add: replay_work_def)

lemma replay_work_le:
  assumes "replay_ok es conds p"
  shows "replay_work p \<le> 8197"
proof -
  have "ring_inv QUEUE_CAPACITY (sy_queue (pl_sys p))" using assms by (simp add: replay_ok_def leaving_pipe_def)
  then have "q_count QUEUE_CAPACITY (sy_queue (pl_sys p)) \<le> 8191"
    using ring.items_room [of QUEUE_CAPACITY "sy_queue (pl_sys p)"] by (simp add: QUEUE_CAPACITY_def)
  then show ?thesis
    by (simp add: replay_work_def replay_rank_def consumer_rank_def split: phase.split consumer_phase.split)
qed


section \<open>The end of a live run\<close>

definition feed_rank :: "feed_phase \<Rightarrow> nat" where
  "feed_rank ph = (case ph of Feed_Reading \<Rightarrow> 3 | Feed_Connected \<Rightarrow> 2 | Feed_Idle \<Rightarrow> 1 | Feed_Returned \<Rightarrow> 0)"

definition live_work :: "live_pipe \<Rightarrow> nat" where
  "live_work p = waiting (lv_live p) + 2 * feed_rank (lv_feed p) + consumer_rank (lv_consumer p)"

definition live_ready :: "live_pipe \<Rightarrow> bool" where
  "live_ready p \<longleftrightarrow> list_all applicable (q_items QUEUE_CAPACITY (lp_queue (lv_live p)))"

lemma live_uses_work:
  assumes "live_ok jl e0 p" "\<not> lv_running p" "live_pipe_step jl moved p p'" "lv_stopped p' = lv_stopped p" "p' \<noteq> p"
  shows "live_work p' < live_work p"
  using assms(3)
proof cases
  case live_source
  then show ?thesis
  proof cases
    case (got_text json s)
    have "waiting s \<le> Suc (waiting (lv_live p))"
      using assms(1) got_text(3) by (auto simp: live_ok_def intro: receive_waiting)
    then show ?thesis using got_text(1,2) by (simp add: live_work_def feed_rank_def)
  qed (use assms(2,4,5) in \<open>auto simp: live_work_def feed_rank_def feed_goes_def\<close>)
next
  case (live_take s)
  have "ring_inv QUEUE_CAPACITY (lp_queue (lv_live p))" using assms(1) by (simp add: live_ok_def live_inv_def)
  then have "waiting (lv_live p) = Suc (waiting s)"
  proof (cases rule: ring.pop_cases [where moved = moved])
    case (item m q)
    then have "lp_queue s = q" using live_take(4) by (auto simp: bind_res_def split: sum.splits)
    then show ?thesis using item(1) by (simp add: waiting_def del: length_q_items)
  qed (use live_take(3) in simp)
  then show ?thesis using live_take(1) by (simp add: live_work_def)
qed (simp_all add: live_work_def consumer_rank_def)

lemma live_feed_goes:
  assumes "\<not> lv_running p" "lv_feed p \<noteq> Feed_Returned"
  shows "\<exists>p'. ho_threads (live_host jl moved) p p' \<and> lv_feed p' \<noteq> lv_feed p"
proof -
  have goes: "\<not> feed_goes p" using assms(1) by (simp add: feed_goes_def)
  show ?thesis
  proof (cases "lv_feed p")
    case Feed_Idle
    then show ?thesis using live_source [OF feed_step.feed_exit [OF _ goes]] by fastforce
  next
    case Feed_Connected
    then show ?thesis using live_source [OF feed_step.hang_up [OF _ goes]] by fastforce
  next
    case Feed_Reading
    then show ?thesis using live_source [OF feed_step.broken] by fastforce
  qed (use assms(2) in simp)
qed

lemma live_consumer_goes:
  assumes "live_ok jl (new_engine conds rec) p" "\<not> lv_running p" "live_ready p" "lv_consumer p \<noteq> Consumer_Exited"
  shows "\<exists>p'. ho_threads (live_host jl moved) p p'
    \<and> (lv_consumer p' \<noteq> lv_consumer p \<or> waiting (lv_live p') \<noteq> waiting (lv_live p))"
proof (cases "lv_consumer p")
  case Consuming
  then show ?thesis using live_leave [of p jl moved] assms(2) by fastforce
next
  case Draining
  have inv: "live_inv jl (new_engine conds rec) (lv_texts p) (lv_live p)" using assms(1) by (simp add: live_ok_def)
  then have "ring_inv QUEUE_CAPACITY (lp_queue (lv_live p))" by (simp add: live_inv_def)
  then show ?thesis
  proof (cases rule: ring.pop_cases [where moved = moved])
    case empty
    then show ?thesis using live_exit [OF Draining empty(2)] Draining
      by (intro exI [of _ "p\<lparr>lv_consumer := Consumer_Exited, lv_clean := (lv_feed p = Feed_Returned)\<rparr>"]) simp
  next
    case (item m q)
    then have "applicable m" using assms(3) by (simp add: live_ready_def)
    moreover have "engine_after (new_engine conds rec) (lp_handled (lv_live p)) (fst (lp_world (lv_live p)))"
      using inv by (simp add: live_inv_def)
    ultimately obtain w where "handle m (lp_world (lv_live p)) = Inr w" using handle_defined by (metis prod.collapse)
    then obtain s where s: "live_step jl moved Turn (lv_live p) = Inr s" "lp_queue s = q" using item(2) by auto
    have "waiting s \<noteq> waiting (lv_live p)" using item(1) s(2) by (simp add: waiting_def del: length_q_items)
    moreover have "live_pipe_step jl moved p (p\<lparr>lv_live := s\<rparr>)"
      by (rule live_take) (use Draining item(2) s(1) in auto)
    ultimately show ?thesis by (intro exI [of _ "p\<lparr>lv_live := s\<rparr>"]) simp
  qed
qed (use assms(4) in simp)

interpretation live_exit: terminating "live_host jl moved" "leaving_live jl (new_engine conds rec)" "\<lambda>p. False"
    live_work "\<lambda>p p'. p' = p" live_ready
  for jl moved conds rec
proof unfold_locales
  fix p p' :: live_pipe
  have ok: "live_ok jl (new_engine conds rec) p" if "leaving_live jl (new_engine conds rec) p"
    using that by (simp add: leaving_live_def feeding.leaving_def)
  show "live_work p' < live_work p"
    if "leaving_live jl (new_engine conds rec) p" "\<not> ho_running (live_host jl moved) p" "ho_threads (live_host jl moved) p p'" "p' \<noteq> p"
    using live_uses_work [OF ok [OF that(1)], of moved p'] that by simp
  assume p: "leaving_live jl (new_engine conds rec) p" "live_ready p" "\<not> ho_running (live_host jl moved) p"
    "\<not> (ho_source_done (live_host jl moved) p \<and> ho_processor_done (live_host jl moved) p)"
  show "\<exists>p'. ho_threads (live_host jl moved) p p' \<and> p' \<noteq> p"
  proof (cases "lv_feed p = Feed_Returned")
    case True
    then show ?thesis using live_consumer_goes [OF ok [OF p(1)] _ p(2), of moved] p(3,4) by fastforce
  next
    case False
    then show ?thesis using live_feed_goes [of p jl moved] p(3) by fastforce
  qed
qed (simp_all add: live_work_def)

lemma live_work_le:
  assumes "leaving_live jl e0 p"
  shows "live_work p \<le> 8199"
proof -
  have "ring_inv QUEUE_CAPACITY (lp_queue (lv_live p))"
    using assms by (simp add: leaving_live_def feeding.leaving_def live_ok_def live_inv_def)
  then have "waiting (lv_live p) \<le> 8191"
    using ring.items_room [of QUEUE_CAPACITY "lp_queue (lv_live p)"] by (simp add: waiting_def QUEUE_CAPACITY_def)
  then show ?thesis
    by (simp add: live_work_def feed_rank_def consumer_rank_def split: feed_phase.split consumer_phase.split)
qed


section \<open>A replay that is left alone\<close>

text \<open>The pauses of a recording whose times are below \<open>2 ^ 63\<close> microseconds can be converted.\<close>

lemma divisor_values:
  "d_val (double_of_int 1) = 1" "d_val (double_of_int 2) = 2" "d_val (double_of_int 5) = 5"
  using double_of_int_exact(1) [of 1] double_of_int_exact(1) [of 2] double_of_int_exact(1) [of 5] by simp_all

lemma divisor_ok:
  assumes "0 < speed_divisor s"
  shows "1 \<le> d_val (speed_divisor s)" "d_finite (speed_divisor s)" "\<not> d_sign (speed_divisor s)"
  using assms divisor_values double_of_int_exact(2,3) [of 1] double_of_int_exact(2,3) [of 2] double_of_int_exact(2,3) [of 5]
  by (auto simp: speed_divisor_def split: playback_speed.splits)

lemma delay_defined:
  assumes "uint rec_us < 2 ^ 63"
  shows "\<exists>d. replay_delay sp prev_us rec_us = Inr d"
proof (cases "0 < speed_divisor sp \<and> 0 < prev_us \<and> prev_us < rec_us")
  case True
  let ?n = "uint (rec_us - prev_us)" and ?b = "speed_divisor sp"
  note b = divisor_ok [OF True [THEN conjunct1]]
  have "?n = uint rec_us - uint prev_us" using True by (simp add: uint_sub_if' word_less_def)
  then have n: "0 \<le> ?n" "?n \<le> 2 ^ 63" using assms uint_nonnegative [of prev_us] uint_nonnegative [of "rec_us - prev_us"] by linarith+
  note a = double_of_int_le [OF n]
  let ?d = "double_of_int ?n / ?b"
  have mb: "d_mag ?b \<noteq> 0" using b(1) by (metis d_val_eq_0_iff not_one_le_zero)
  have sign: "\<not> d_sign ?d" by (rule div_sign [OF a(3) b(3) a(2) b(2) mb])
  have pos: "0 \<le> d_val (double_of_int ?n)" using a(3) by (simp add: d_val_def mag_val_nonneg)
  have "d_val (double_of_int ?n) / d_val ?b \<le> d_val (double_of_int ?n)"
    using divide_left_mono [OF b(1) pos] b(1) by simp
  then have "d_key ?d \<le> d_key (double_of_int ?n)"
    using key_div [OF a(2) b(2) mb] srnd_mono srnd_d_val [OF a(2)] by metis
  then have le: "d_val ?d \<le> 2 ^ 63" "d_key ?d < inf_mag"
    using d_key_mono_val [of ?d "double_of_int ?n"] a(1,2) by (simp_all add: d_finite_key)
  then have "d_finite ?d" using sign by (simp add: d_finite_def d_key_def)
  moreover have "d_trunc ?d = \<lfloor>d_val ?d\<rfloor>" by (rule trunc_floor [OF sign])
  moreover have "0 \<le> d_val ?d" using sign by (simp add: d_val_def mag_val_nonneg)
  moreover have "\<lfloor>d_val ?d\<rfloor> < 2 ^ 64" using le(1) by (simp add: floor_less_iff)
  ultimately have "double_to_uint 64 ?d = Inr (d_trunc ?d)" by (simp add: double_to_uint_def)
  then show ?thesis using True by (simp add: replay_delay_def)
qed (auto simp: replay_delay_def)

definition timely :: "entry \<Rightarrow> bool" where
  "timely e \<longleftrightarrow> uint (fst e) < 2 ^ 63"

lemma reading_goes:
  assumes "ahead (rp_reader r) (drop k es)" "list_all wf_entry es" "list_all timely es"
  shows "\<exists>r' x clk'. replay_next r clk = Inr (r', x, clk')"
proof (cases "k < length es")
  case True
  obtain rd where rd: "read_next (rp_reader r) = (Some (read_back (es ! k)), rd)"
    using ahead_next [OF assms(1,2) True] by blast
  have "timely (es ! k)" using assms(3) True by (simp add: list_all_length)
  then obtain d where "replay_delay (rp_speed r) (rp_prev_wall r) (fst (es ! k)) = Inr d"
    using delay_defined unfolding timely_def by blast
  then show ?thesis
    by (auto simp: replay_next_def rd read_back_def new_record_header_def from_to_record split: prod.split)
next
  case False
  then have "fst (read_next (rp_reader r)) = None" using assms(1) by (intro ahead_end) simp
  then show ?thesis by (auto simp: replay_next_def split: prod.split)
qed

text \<open>What a replay has left to do: three steps for each record to come, to read, push and handle it,
  two for the one in hand, one for each that waits, and one at the end of the file.\<close>

definition sys_work :: "nat \<Rightarrow> sys \<Rightarrow> nat" where
  "sys_work recs s = q_count QUEUE_CAPACITY (sy_queue s)
     + (if sy_phase s = Returned then 0 else 1 + 3 * (recs - length (underway s)) + 2 * length (in_hand (sy_phase s)))"

definition sys_commanded :: "sys \<Rightarrow> sys \<Rightarrow> bool" where
  "sys_commanded s s' \<longleftrightarrow> s' = s\<lparr>sy_replay := pause (sy_replay s)\<rparr> \<or> s' = s\<lparr>sy_replay := resume (sy_replay s)\<rparr>
     \<or> (\<exists>v. s' = s\<lparr>sy_replay := set_speed v (sy_replay s)\<rparr>) \<or> s' = s\<lparr>sy_running := False\<rparr>"

lemma sys_commanded_keeps: "sys_commanded s s' \<Longrightarrow> sy_queue s' = sy_queue s \<and> sy_phase s' = sy_phase s \<and> sy_handled s' = sy_handled s"
  by (auto simp: sys_commanded_def)

lemma sys_commanded_work: "sys_commanded s s' \<Longrightarrow> sys_work recs s' = sys_work recs s"
  using sys_commanded_keeps [of s s'] by (simp add: sys_work_def underway_def)

lemma underway_count: "length (underway s) = length (sy_handled s) + q_count QUEUE_CAPACITY (sy_queue s) + length (in_hand (sy_phase s))"
  by (simp add: underway_def)

lemma underway_le: "replay_inv es conds s \<Longrightarrow> length (underway s) \<le> length es"
  by (auto simp: replay_inv_def dest: list_all2_lengthD)

lemma sys_uses_work:
  assumes "replay_inv es conds s" "list_all wf_entry es" "sys_step moved s s'" "\<not> sys_commanded s s'"
  shows "sys_work (length es) s' < sys_work (length es) s"
proof -
  have ri: "ring_inv QUEUE_CAPACITY (sy_queue s)" using assms(1) by (simp add: replay_inv_def)
  have le: "length (underway s') \<le> length es" by (rule underway_le [OF replay_inv_step [OF assms(1,3,2)]])
  from assms(3) show ?thesis
  proof cases
    case (read r m sleep clk)
    then show ?thesis using le by (simp add: sys_work_def underway_count in_hand_def)
  next
    case (push m q)
    have "q_count QUEUE_CAPACITY q = Suc (q_count QUEUE_CAPACITY (sy_queue s))"
      using ri by (rule ring.push_cases [where x = m]) (use push(3) in \<open>auto simp flip: length_q_items\<close>)
    then show ?thesis using push(1,2) by (simp add: sys_work_def underway_count in_hand_def)
  next
    case (consume m q w)
    have "q_count QUEUE_CAPACITY (sy_queue s) = Suc (q_count QUEUE_CAPACITY q)"
      using ri by (rule ring.pop_cases [where moved = moved]) (use consume(2) in \<open>auto simp flip: length_q_items\<close>)
    then show ?thesis using consume(1) by (simp add: sys_work_def underway_count)
  qed (use assms(4) in \<open>auto simp: sys_work_def sys_commanded_def in_hand_def\<close>)
qed

definition sys_ok :: "entry list \<Rightarrow> condition list \<Rightarrow> sys \<Rightarrow> bool" where
  "sys_ok es conds s \<longleftrightarrow> list_all wf_entry es \<and> replay_inv es conds s
     \<and> (sy_running s \<and> sy_phase s = Returned \<longrightarrow> rp_finished (sy_replay s))"

lemma never_raised: "sys_step moved s s' \<Longrightarrow> sy_running s' \<Longrightarrow> sy_running s"
  by (erule sys_step.cases) auto

lemma sys_ok_step: "sys_ok es conds s \<Longrightarrow> sys_step moved s s' \<Longrightarrow> sys_ok es conds s'"
  unfolding sys_ok_def using replay_inv_step [of es conds s moved s'] returned_early [of moved s s'] never_raised by blast

lemma sys_consumes:
  assumes "replay_inv es conds s" "list_all entry_applicable es" "q_items QUEUE_CAPACITY (sy_queue s) \<noteq> []"
  shows "\<exists>s'. sys_step moved s s' \<and> \<not> sys_commanded s s'"
proof -
  have "ring_inv QUEUE_CAPACITY (sy_queue s)" using assms(1) by (simp add: replay_inv_def)
  then obtain m q where q: "q_items QUEUE_CAPACITY (sy_queue s) = m # q_items QUEUE_CAPACITY q"
    "try_pop moved QUEUE_CAPACITY (sy_queue s) = Some (m, q)"
    using assms(3) by (cases rule: ring.pop_cases [where moved = moved]) auto
  have "applicable m" using queued_applicable [OF assms(1,2)] q(1) by simp
  moreover have "engine_after (new_engine conds None) (sy_handled s) (fst (sy_world s))"
    using assms(1) by (simp add: replay_inv_def)
  ultimately obtain w where w: "handle m (sy_world s) = Inr w" using handle_defined by (metis prod.collapse)
  show ?thesis using sys_step.consume [OF q(2) w] by (fastforce dest: sys_commanded_keeps)
qed

text \<open>A replay that runs, is not paused and is not done has a step to take.\<close>

lemma sys_goes:
  assumes "sys_ok es conds s" "list_all entry_applicable es" "list_all timely es"
    and "sy_running s" "\<not> rp_paused (sy_replay s)" "\<not> replay_done s"
  shows "\<exists>s'. sys_step moved s s' \<and> \<not> sys_commanded s s'"
proof -
  have inv: "replay_inv es conds s" and wf: "list_all wf_entry es" using assms(1) by (simp_all add: sys_ok_def)
  note consumes = sys_consumes [OF inv assms(2), of moved]
  have ri: "ring_inv QUEUE_CAPACITY (sy_queue s)" using inv by (simp add: replay_inv_def)
  show ?thesis
  proof (cases "sy_phase s")
    case Reading
    then obtain k where "ahead (rp_reader (sy_replay s)) (drop k es)" using inv unfolding replay_inv_def by fastforce
    then obtain r x clk where n: "replay_next (sy_replay s) (snd (sy_world s)) = Inr (r, x, clk)"
      using reading_goes [OF _ wf assms(3)] by blast
    show ?thesis
    proof (cases x)
      case None
      then show ?thesis using sys_step.eof [OF Reading assms(4,5)] n Reading by (fastforce dest: sys_commanded_keeps)
    next
      case (Some y)
      then show ?thesis using sys_step.read [OF Reading assms(4,5)] n Reading
        by (cases y) (fastforce dest: sys_commanded_keeps)
    qed
  next
    case (Pushing m)
    from ri show ?thesis
    proof (cases rule: ring.push_cases [where x = m])
      case full
      then show ?thesis using consumes by (auto simp: QUEUE_CAPACITY_def simp flip: length_greater_0_conv)
    next
      case (room q)
      then show ?thesis using sys_step.push [OF Pushing] Pushing by (fastforce dest: sys_commanded_keeps)
    qed
  next
    case Returned
    then have "\<not> q_empty (sy_queue s)" using assms(1,4,6) by (simp add: sys_ok_def replay_done_def)
    then show ?thesis using consumes q_empty_iff [of QUEUE_CAPACITY "sy_queue s"] ri by (auto simp: ring_inv_def)
  qed
qed

text \<open>C6: A replay of readable records takes at most three steps for each record and one more, whatever the
  order of the two threads, and stops before only where it is paused or told to: in every
  other state that is not the one in which \<open>main\<close> ends it, one of the threads can go on.\<close>

theorem replay_steps_bounded:
  assumes "map_of (disk_files dk) path = Some (recording h es)" "fh_magic h = FILE_MAGIC" "fh_version h = FILE_VERSION"
    and "list_all wf_entry es" "list_all entry_applicable es" "list_all timely es" "replay_load path dk new_replay = (True, r)"
    and "counted (sys_step moved) sys_commanded (sys_start r (new_engine conds None, clk)) n s"
  shows "n \<le> 3 * length es + 1
    \<and> (sy_running s \<and> \<not> rp_paused (sy_replay s) \<and> \<not> replay_done s \<longrightarrow> (\<exists>s'. sys_step moved s s' \<and> \<not> sys_commanded s s'))"
proof -
  let ?s0 = "sys_start r (new_engine conds None, clk)"
  have ok: "sys_ok es conds ?s0"
    using replay_inv_start [OF load_recording [OF assms(1-3,7)], of conds clk] assms(4) by (simp add: sys_ok_def) (simp add: sys_start_def)
  have "sys_ok es conds s \<and> n + sys_work (length es) s \<le> sys_work (length es) ?s0"
  proof (rule counted_bound [OF assms(8), where good = "sys_ok es conds" and work = "sys_work (length es)"])
    show "sys_work (length es) s' < sys_work (length es) s"
      if "sys_ok es conds s" "sys_step moved s s'" "\<not> sys_commanded s s'" for s s'
      using that sys_uses_work by (auto simp: sys_ok_def)
  qed (auto simp: ok sys_commanded_work intro: sys_ok_step)
  moreover have "sys_work (length es) ?s0 = 3 * length es + 1"
    by (simp add: sys_work_def underway_count in_hand_def) (simp add: sys_start_def q_count_def spsc_new_def)
  ultimately show ?thesis using sys_goes [OF _ assms(5,6)] by auto
qed

section \<open>Concrete ends\<close>

text \<open>A signal at the start, after which \<open>main\<close> leaves its loop.\<close>

lemma signal_then_leave:
  fixes h :: "('s, 'r) host" and s0 :: 's
  assumes "\<not> ho_running h (ho_lower h s0)"
  defines "p1 \<equiv> (main_start s0)\<lparr>mr_state := ho_lower h s0, mr_signalled := True\<rparr>"
  shows "main_steps h (main_start s0) p1" "own_steps h outside p1 1 (p1\<lparr>mr_main := Stopping\<rparr>)"
proof -
  show "main_steps h (main_start s0) p1"
    unfolding p1_def using main_step.on_signal [of "main_start s0" h]
    by (intro r_into_rtranclp [of "main_step h"]) (simp add: main_start_def)
  have "main_step h p1 (p1\<lparr>mr_main := Stopping\<rparr>)"
    by (rule main_step.leave) (simp_all add: p1_def main_start_def assms(1))
  moreover have "\<not> from_outside h outside p1 (p1\<lparr>mr_main := Stopping\<rparr>)"
    by (simp add: from_outside_def p1_def main_start_def)
  ultimately show "own_steps h outside p1 1 (p1\<lparr>mr_main := Stopping\<rparr>)"
    by (rule counted_first)
qed



text \<open>The first step of the replay of two records.\<close>

theorem replay_steps_bounded_witness:
  "\<exists>r s. replay_load ''a.bin'' recorded_disk new_replay = (True, r)
    \<and> counted (sys_step id) sys_commanded (sys_start r (new_engine [] None, sample_clock)) 1 s \<and> 1 \<le> 3 * length sample_entries + 1"
proof -
  obtain r where r: "replay_load ''a.bin'' recorded_disk new_replay = (True, r)" by (rule recorded_load)
  let ?s0 = "sys_start r (new_engine [] None, sample_clock)"
  have timely: "list_all timely sample_entries" by (simp add: sample_entries_def timely_def)
  note steps = replay_steps_bounded [OF recorded_file header_valid sample_entries_ok timely r]
  have "\<not> rp_paused r" using r by (auto simp: replay_load_def new_replay_def split: prod.splits bool.splits)
  moreover have "\<not> rp_finished (sy_replay ?s0)" by (simp add: sys_start_def replay_start_def)
  ultimately obtain s where "sys_step id ?s0 s" "\<not> sys_commanded ?s0 s"
    using steps [OF counted_none, of "[]" sample_clock id] by (auto simp: sys_start_def replay_start_def replay_done_def)
  then have one: "counted (sys_step id) sys_commanded ?s0 1 s" by (rule counted_first [of "sys_step id"])
  show ?thesis using r one steps [OF one] by blast
qed

end
