(* ===== verification/Unit_Tests.thy ===== *)
theory Unit_Tests
  imports Signal_Detector Spsc_Queue
begin

text \<open>
  The cases of the repository's unit tests of the engine and of the queue (\<open>src/test/test_order_book.cpp\<close>,
  \<open>test_aggregator.cpp\<close>, \<open>test_trade_aggregator.cpp\<close>, \<open>test_signal_detector.cpp\<close>,
  \<open>test_spsc_queue.cpp\<close>), computed by the model. What a test compares within a tolerance is stated
  here as the double nearest to the expected decimal. The tests that start threads are
  covered by the theorems about interleavings.
\<close>

section \<open>Order book\<close>

abbreviation price :: "int \<Rightarrow> double" where "price n \<equiv> double_of_int n"

abbreviation tenths :: "int \<Rightarrow> double" where "tenths n \<equiv> double_lit n 10"

definition filled :: "price_level list \<Rightarrow> price_level list" where
  "filled ls = ls @ replicate (MAX_LEVELS - length ls) \<lparr>lv_price = 0, lv_qty = 0\<rparr>"

definition levels :: "(double \<times> double) list \<Rightarrow> price_level list" where
  "levels ps = map (\<lambda>(p, q). \<lparr>lv_price = p, lv_qty = q\<rparr>) ps"

definition test_update :: "u64 \<Rightarrow> u64 \<Rightarrow> (double \<times> double) list \<Rightarrow> (double \<times> double) list \<Rightarrow> depth_update" where
  "test_update first_id last_id bids asks = new_update\<lparr>du_symbol := ''BTCUSDT'',
     du_first_update_id := first_id, du_last_update_id := last_id,
     du_bid_count := of_nat (length bids), du_ask_count := of_nat (length asks),
     du_bids := filled (levels bids), du_asks := filled (levels asks)\<rparr>"

definition test_book :: "depth_update list \<Rightarrow> order_book" where
  "test_book us = (case book_run us (new_book ''BTCUSDT'') of Inr b \<Rightarrow> b | Inl _ \<Rightarrow> new_book [])"

lemma empty_book:
  "best_bid_price (test_book []) = 0" "best_ask_price (test_book []) = 0" "spread (test_book []) = 0"
  "mid_price (test_book []) = 0" "bid_levels (test_book []) = 0" "ask_levels (test_book []) = 0"
  by code_simp+

lemma applied_update:
  "(let b = test_book [test_update 1 5 [(price 100, tenths 15), (price 99, price 2)] [(price 101, tenths 8), (price 102, tenths 12)]]
    in bid_levels b = 2 \<and> ask_levels b = 2 \<and> best_bid_price b = price 100 \<and> best_ask_price b = price 101
      \<and> best_bid_qty b = tenths 15 \<and> best_ask_qty b = tenths 8 \<and> spread b = 1 \<and> mid_price b = tenths 1005
      \<and> ob_last_update_id b = 5 \<and> ob_update_count b = 1)"
  by code_simp

lemma removed_level:
  "(let b = test_book [test_update 1 1 [(price 100, price 1), (price 99, price 2)] [], test_update 2 2 [(price 100, 0)] []]
    in bid_levels b = 1 \<and> best_bid_price b = price 99)"
  by code_simp

lemma replaced_quantity:
  "(let b = test_book [test_update 1 1 [(price 100, price 1)] [], test_update 2 2 [(price 100, price 5)] []]
    in best_bid_qty b = price 5 \<and> bid_levels b = 1)"
  by code_simp

lemma sorted_sides:
  "map fst (ob_bids (test_book [test_update 1 1 [(price 98, 1), (price 100, 1), (price 99, 1)] []])) = [price 100, price 99, price 98]"
  "map fst (ob_asks (test_book [test_update 1 1 [] [(price 103, 1), (price 101, 1), (price 102, 1)]])) = [price 101, price 102, price 103]"
  by code_simp+

lemma total_quantities:
  "(let b = test_book [test_update 1 1 [(price 100, price 1), (price 99, price 2), (price 98, price 3)]
        [(price 101, tenths 5), (price 102, tenths 15)]]
    in total_bid_qty b = price 6 \<and> total_ask_qty b = price 2)"
  by code_simp

definition two_level_book :: order_book where
  "two_level_book = test_book [test_update 1 1 [(price 100, price 2), (price 99, price 3)] [(price 101, price 1), (price 102, price 4)]]"

lemma weighted_averages:
  "bid_vwap 2 two_level_book = tenths 994" "ask_vwap 1 two_level_book = price 101" "ask_vwap 2 two_level_book = tenths 1018"
  "spread two_level_book = 1" "mid_price two_level_book = tenths 1005"
  by code_simp+

lemma cleared_book:
  "(let b = clear_book (test_book [test_update 1 5 [(price 100, 1)] [(price 101, 1)]])
    in bid_levels b = 0 \<and> ask_levels b = 0 \<and> ob_last_update_id b = 0 \<and> ob_update_count b = 0)"
  by code_simp

lemma accumulated_updates:
  "(let b = test_book [test_update 1 1 [(price 100, price 1)] [(price 101, price 1)],
        test_update 2 2 [(price 99, price 2)] [(price 102, price 2)], test_update 3 3 [(price 98, price 3)] [(price 103, price 3)]]
    in bid_levels b = 3 \<and> ask_levels b = 3 \<and> ob_update_count b = 3 \<and> best_bid_price b = price 100 \<and> best_ask_price b = price 101)"
  by code_simp

section \<open>Aggregator\<close>

text \<open>One level on each side, as most cases use.\<close>

definition thin_book :: "double \<times> double \<Rightarrow> double \<times> double \<Rightarrow> order_book" where
  "thin_book bid ask = test_book [test_update 1 1 [bid] [ask]]"

lemma basic_computation:
  "(let s = ag_snapshot (agg_update two_level_book (new_aggregator 2 10))
    in as_spread s = 1 \<and> as_mid_price s = tenths 1005 \<and> as_bid_vwap s = tenths 994 \<and> as_ask_vwap s = tenths 1018
      \<and> as_sample_count s = 1)"
  by (simp add: agg_update_snapshot weighted_averages Let_def) (simp add: new_aggregator_def empty_agg_snapshot_def weighted_averages)

lemma imbalance_values:
  "book_imbalance (thin_book (price 100, price 5) (price 101, price 5)) = 0"
  "book_imbalance (thin_book (price 100, price 8) (price 101, price 2)) = tenths 6"
  by code_simp+

definition mid_books :: "int list \<Rightarrow> order_book list" where
  "mid_books ns = map (\<lambda>n. thin_book (price n, 1) (price (n + 1), 1)) ns"

lemma moving_mids: "map mid_price (mid_books [100, 101, 102, 103]) = [tenths 1005, tenths 1015, tenths 1025, tenths 1035]"
  by code_simp

lemma average_of:
  "0 < mid_price b \<Longrightarrow> as_mid_price_sma (ag_snapshot (agg_run (bs @ [b]) (new_aggregator v w))) = mean (last_n w (positive_mids (bs @ [b])))"
  using agg_run_windows(1) [of "bs @ [b]" v w] by (simp add: agg_update_snapshot)

lemma moving_average:
  "as_mid_price_sma (ag_snapshot (agg_run (mid_books [100, 101, 102]) (new_aggregator 1 3))) = tenths 1015"
  "as_mid_price_sma (ag_snapshot (agg_run (mid_books [100, 101, 102, 103]) (new_aggregator 1 3))) = tenths 1025"
proof -
  define f where "f n = thin_book (price n, 1) (price (n + 1), 1)" for n
  have b: "mid_books [100, 101, 102] = [f 100, f 101] @ [f 102]" "mid_books [100, 101, 102, 103] = [f 100, f 101, f 102] @ [f 103]"
    by (simp_all add: mid_books_def f_def)
  have m: "mid_price (f 100) = tenths 1005" "mid_price (f 101) = tenths 1015" "mid_price (f 102) = tenths 1025" "mid_price (f 103) = tenths 1035"
    using moving_mids by (simp_all add: mid_books_def f_def)
  have p: "0 < tenths 1005" "0 < tenths 1015" "0 < tenths 1025" "0 < tenths 1035" by code_simp+
  have "mean (last_n 3 [tenths 1005, tenths 1015, tenths 1025]) = tenths 1015"
    "mean (last_n 3 [tenths 1005, tenths 1015, tenths 1025, tenths 1035]) = tenths 1025" by code_simp+
  then show "as_mid_price_sma (ag_snapshot (agg_run (mid_books [100, 101, 102]) (new_aggregator 1 3))) = tenths 1015"
    "as_mid_price_sma (ag_snapshot (agg_run (mid_books [100, 101, 102, 103]) (new_aggregator 1 3))) = tenths 1025"
    using m p unfolding b by (simp_all only: average_of m p) (simp_all add: positive_mids_def m p)
qed

lemma reset_aggregator:
  "as_sample_count (ag_snapshot (agg_reset a)) = 0" "as_mid_price (ag_snapshot (agg_reset a)) = 0"
  by (simp_all add: agg_reset_def empty_agg_snapshot_def)

lemma empty_aggregation:
  "(let s = ag_snapshot (agg_update (test_book []) (new_aggregator 10 100))
    in as_spread s = 0 \<and> as_mid_price s = 0 \<and> as_imbalance s = 0)"
  by code_simp

section \<open>Trade aggregator\<close>

definition test_trade :: "int \<Rightarrow> bool \<Rightarrow> u64 \<Rightarrow> trade" where
  "test_trade qty maker time = new_trade\<lparr>tr_symbol := ''BTCUSDT'', tr_price := price 50000,
     tr_quantity := price qty, tr_is_buyer_maker := maker, tr_event_time_ms := time\<rparr>"

definition after_trades :: "u64 \<Rightarrow> nat \<Rightarrow> trade list \<Rightarrow> ta_snapshot option" where
  "after_trades window windows ts =
     (case ta_run ts (new_trade_aggregator window windows) of Inr a \<Rightarrow> Some (ta_snap a) | Inl _ \<Rightarrow> None)"

lemma basic_trade_imbalance:
  "(case after_trades 1000 20 [test_trade 1 False 1000, test_trade 1 False 1001, test_trade 1 False 1002, test_trade 1 True 1003] of
      Some s \<Rightarrow> ts_buy_volume s = price 3 \<and> ts_sell_volume s = price 1 \<and> ts_total_volume s = price 4
        \<and> ts_trade_imbalance s = tenths 5 \<and> ts_trade_count s = 4 | None \<Rightarrow> False)"
  by code_simp

lemma sell_heavy:
  "(case after_trades 1000 20 [test_trade 1 True 1000, test_trade 4 True 1001] of
      Some s \<Rightarrow> ts_buy_volume s = 0 \<and> ts_sell_volume s = price 5 \<and> ts_trade_imbalance s = price (- 1) | None \<Rightarrow> False)"
  by code_simp

lemma window_expiration:
  "(case after_trades 500 20 [test_trade 2 False 1000, test_trade 1 True 1600] of
      Some s \<Rightarrow> ts_trade_count s = 1 \<and> ts_sell_volume s = 1 \<and> ts_buy_volume s = 0 | None \<Rightarrow> False)"
  by code_simp

lemma volume_average:
  "(case after_trades 100 3 [test_trade 5 False 50, test_trade 3 False 150] of
      Some s \<Rightarrow> ts_window_count s = 1 \<and> ts_volume_sma s = price 5 | None \<Rightarrow> False)"
  "(case after_trades 100 3 [test_trade 5 False 50, test_trade 3 False 150, test_trade 7 False 250] of
      Some s \<Rightarrow> ts_window_count s = 2 \<and> ts_volume_sma s = price 4 | None \<Rightarrow> False)"
  by code_simp+

lemma reset_trades:
  "(case ta_run [test_trade 1 False 1000] (new_trade_aggregator 1000 20) of
      Inr a \<Rightarrow> ts_trade_count (ta_snap (ta_reset a)) = 0 \<and> ts_total_volume (ta_snap (ta_reset a)) = 0
        \<and> ts_trade_imbalance (ta_snap (ta_reset a)) = 0 | Inl _ \<Rightarrow> False)"
  by code_simp

section \<open>Signal detector\<close>

text \<open>Each evaluation reads the clock when a condition triggers; between two readings a test takes well
  under a second.\<close>

definition test_clock :: clock where
  "test_clock = \<lparr>wall_reading = (\<lambda>n. 1672531200000000 + of_nat n), wall_count = 0, steady_reading = int, steady_count = 0\<rparr>"

definition test_condition :: "signal_type \<Rightarrow> double \<Rightarrow> condition" where
  "test_condition t threshold = \<lparr>cond_type = t, cond_threshold = threshold, cond_cooldown_us = default_cooldown\<rparr>"

text \<open>The detector looks at the aggregator's snapshot only. That of a book with one level on each side, after
  one update:\<close>

definition thin_snapshot :: "int \<Rightarrow> int \<Rightarrow> double \<Rightarrow> double \<Rightarrow> agg_snapshot" where
  "thin_snapshot bid ask mid imb = \<lparr>as_spread = price (ask - bid), as_mid_price = mid, as_bid_vwap = price bid, as_ask_vwap = price ask,
     as_mid_price_sma = mid, as_spread_sma = price (ask - bid), as_imbalance = imb, as_imbalance_delta = imb, as_sample_count = 1\<rparr>"

lemma thin_snapshots:
  "ag_snapshot (agg_update (thin_book (price 100, 1) (price 110, 1)) (new_aggregator 10 100)) = thin_snapshot 100 110 (price 105) 0"
  "ag_snapshot (agg_update (thin_book (price 100, price 9) (price 110, 1)) (new_aggregator 10 100)) = thin_snapshot 100 110 (price 105) (tenths 8)"
  "ag_snapshot (agg_update (thin_book (price 100, 1) (price 101, price 9)) (new_aggregator 10 100)) = thin_snapshot 100 101 (tenths 1005) (tenths (- 8))"
  by code_simp+

definition fired :: "condition list \<Rightarrow> (string \<times> agg_snapshot) list \<Rightarrow> detector \<times> signal list" where
  "fired cs inputs = fst (det_run log_signal (map (\<lambda>(name, s). (name, new_book name, s, None)) inputs) ((detector_with cs, []), test_clock))"

lemma wide_spread:
  "map (\<lambda>s. (sig_type s, sig_value s, sig_symbol s)) (snd (fired [test_condition SPREAD_WIDE (price 5)]
      [(''BTCUSDT'', thin_snapshot 100 110 (price 105) 0)])) = [(SPREAD_WIDE, price 10, ''BTCUSDT'')]"
  by code_simp

lemma narrow_spread:
  "map sig_type (snd (fired [test_condition SPREAD_NARROW (price 2)] [(''BTCUSDT'', thin_snapshot 100 101 (tenths 1005) 0)])) = [SPREAD_NARROW]"
  by code_simp

lemma no_signal:
  "snd (fired [test_condition SPREAD_WIDE (price 100)] [(''BTCUSDT'', thin_snapshot 100 101 (tenths 1005) 0)]) = []"
  by code_simp

lemma imbalance_signals:
  "map (\<lambda>s. (sig_type s, sig_value s)) (snd (fired [test_condition IMBALANCE_BID (tenths 5)]
      [(''BTCUSDT'', thin_snapshot 100 110 (price 105) (tenths 8))])) = [(IMBALANCE_BID, tenths 8)]"
  "map sig_type (snd (fired [test_condition IMBALANCE_ASK (tenths 5)]
      [(''BTCUSDT'', thin_snapshot 100 101 (tenths 1005) (tenths (- 8)))])) = [IMBALANCE_ASK]"
  by code_simp+

lemma deviation_signal:
  "map sig_type (snd (fired [test_condition PRICE_DEVIATION (double_lit 1 100)]
      [(''BTCUSDT'', (thin_snapshot 150 151 (tenths 1505) 0)\<lparr>as_mid_price_sma := mean [tenths 1005, tenths 1005, tenths 1505]\<rparr>)]))
    = [PRICE_DEVIATION]"
  by code_simp

lemma two_signals:
  "map sig_type (rev (snd (fired [test_condition SPREAD_WIDE (price 5), test_condition IMBALANCE_BID (tenths 5)]
      [(''BTCUSDT'', thin_snapshot 100 110 (price 105) (tenths 8))]))) = [SPREAD_WIDE, IMBALANCE_BID]"
  by code_simp

lemma empty_aggregator_skipped:
  "snd (fired [test_condition SPREAD_WIDE (double_lit 1 100)] [(''BTCUSDT'', empty_agg_snapshot)]) = []"
  by code_simp

definition wide_input :: "string \<Rightarrow> string \<times> agg_snapshot" where
  "wide_input name = (name, thin_snapshot 100 110 (price 105) 0)"

lemma cooldown_suppresses:
  "map_prod det_suppressed (map sig_symbol) (fired [test_condition SPREAD_WIDE (price 5)] [wide_input ''BTCUSDT'', wide_input ''BTCUSDT''])
    = (1, [''BTCUSDT''])"
  by code_simp

lemma cooldown_per_symbol:
  "map sig_symbol (rev (snd (fired [test_condition SPREAD_WIDE (price 5)] [wide_input ''BTCUSDT'', wide_input ''ETHUSDT''])))
    = [''BTCUSDT'', ''ETHUSDT'']"
  by code_simp

lemma zero_cooldown:
  "map_prod det_signals_fired length (fired [(test_condition SPREAD_WIDE (price 5))\<lparr>cond_cooldown_us := 0\<rparr>]
      [wide_input ''BTCUSDT'', wide_input ''BTCUSDT'', wide_input ''BTCUSDT'']) = (3, 3)"
  by code_simp

lemma type_names:
  "signal_type_name SPREAD_WIDE = ''SPREAD_WIDE''" "signal_type_name IMBALANCE_ASK = ''IMBALANCE_ASK''"
  "signal_type_name PRICE_DEVIATION = ''PRICE_DEVIATION''"
  by code_simp+

section \<open>Queue\<close>

lemma push_pop_basic:
  "fst (run_ops (try_push 16) (try_pop id 16) [Pop, Push 42, Pop, Pop] (spsc_new 16 (0 :: int)))
    = [Popped None, Pushed True, Popped (Some 42), Popped None]"
  by code_simp

lemma full_queue:
  "fst (run_ops (try_push 4) (try_pop id 4) [Push 1, Push 2, Push 3, Push 4, Pop, Push 4] (spsc_new 4 (0 :: int)))
    = [Pushed True, Pushed True, Pushed True, Pushed False, Popped (Some 1), Pushed True]"
  "size_approx 4 (snd (run_ops (try_push 4) (try_pop id 4) [Push 1, Push 2, Push 3, Push 4] (spsc_new 4 (0 :: int)))) = 3"
  by code_simp+

lemma wrap_around:
  "fst (run_ops (try_push 4) (try_pop id 4)
      (concat (map (\<lambda>r. [Push (10 * r + 1), Push (10 * r + 2), Push (10 * r + 3), Pop, Pop, Pop]) [0, 1, 2, 3])) (spsc_new 4 (0 :: int)))
    = concat (map (\<lambda>r. [Pushed True, Pushed True, Pushed True, Popped (Some (10 * r + 1)), Popped (Some (10 * r + 2)), Popped (Some (10 * r + 3))])
        [0, 1, 2, 3])"
  by code_simp

lemma usable_capacity: "q_capacity 64 = 63"
  by code_simp

end
