(* ===== verification/Engine_Wf.thy ===== *)
theory Engine_Wf
  imports Processing_Thread
begin

text \<open>
  The type of an engine: what holds of every object the processing thread can reach, stated of the
  state alone and not of its history. The members of a symbol are consistent with each other, the
  windows within their sizes, the published snapshot that of the state. A message either keeps
  it or is one of the two undefined kinds.
\<close>

section \<open>One symbol\<close>

definition aggregator_wf :: "order_book \<Rightarrow> aggregator \<Rightarrow> bool" where
  "aggregator_wf b a \<longleftrightarrow> ag_vwap_levels a = 5 \<and> ag_sma_window a = 20
    \<and> length (ag_mid_prices a) \<le> 20 \<and> list_all (\<lambda>x. 0 < x) (ag_mid_prices a)
    \<and> length (ag_spreads a) \<le> 20 \<and> list_all (\<lambda>x. 0 \<le> x) (ag_spreads a)
    \<and> (let s = ag_snapshot a in as_spread s = spread b \<and> as_mid_price s = mid_price b
        \<and> as_bid_vwap s = bid_vwap 5 b \<and> as_ask_vwap s = ask_vwap 5 b \<and> as_imbalance s = book_imbalance b
        \<and> as_mid_price_sma s = (if ag_mid_prices a = [] then 0 else mean (ag_mid_prices a))
        \<and> as_spread_sma s = (if ag_spreads a = [] then 0 else mean (ag_spreads a))
        \<and> as_sample_count s = ob_update_count b)"

definition trade_aggregator_wf :: "trade_aggregator \<Rightarrow> bool" where
  "trade_aggregator_wf a \<longleftrightarrow> ta_window_ms a = 1000 \<and> ta_sma_windows a = 20 \<and> length (ta_completed a) \<le> 20
    \<and> (let s = ta_snap a; side = \<lambda>buy. accumulate (map te_quantity (filter (\<lambda>t. te_is_buy t = buy) (ta_trades a)))
       in ts_buy_volume s = side True \<and> ts_sell_volume s = side False
        \<and> ts_total_volume s = side True + side False
        \<and> ts_trade_imbalance s = volume_imbalance (side True) (side False)
        \<and> ts_trade_count s = of_nat (length (ta_trades a))
        \<and> ts_volume_sma s = (if ta_completed a = [] then 0 else mean (ta_completed a)))"

definition symbol_wf :: "string \<Rightarrow> symbol_state \<Rightarrow> bool" where
  "symbol_wf name st \<longleftrightarrow> ob_symbol (st_book st) = name \<and> book_inv (st_book st)
    \<and> aggregator_wf (st_book st) (st_aggregator st) \<and> trade_aggregator_wf (st_trade_aggregator st)"

lemma list_all_push_window: "list_all P xs \<Longrightarrow> P x \<Longrightarrow> list_all P (push_window n x xs)"
  using set_push_window [of n x xs] by (auto simp: list_all_iff)

lemma set_put: "set (put k v m) \<subseteq> insert (k, v) (set m)"
  by (induction k v m rule: put.induct) auto

lemma zero_sum [simp]: "(0::double) + 0 = 0" "\<not> (0::double) < 0"
  by code_simp+

lemma aggregator_wf_new: "aggregator_wf (new_book name) default_aggregator"
proof -
  have "spread (new_book name) = 0" "mid_price (new_book name) = 0" "bid_vwap 5 (new_book name) = 0"
    "ask_vwap 5 (new_book name) = 0" "book_imbalance (new_book name) = 0" "ob_update_count (new_book name) = 0"
    by (simp_all add: Let_def side_vwap_def total_qty_def spread_def mid_price_def bid_vwap_def ask_vwap_def book_imbalance_def total_bid_qty_def
        total_ask_qty_def new_book_def)
  then show ?thesis
    by (simp add: aggregator_wf_def default_aggregator_def new_aggregator_def empty_agg_snapshot_def)
qed

lemma aggregator_wf_update:
  assumes "aggregator_wf b0 a" "ob_update_count b = ob_update_count b0 + 1"
  shows "aggregator_wf b (agg_update b a)"
  using assms by (auto simp: aggregator_wf_def Let_def agg_update_fields length_push_window push_window_nonempty
      intro: list_all_push_window)

lemma trade_aggregator_wf_new: "trade_aggregator_wf default_trade_aggregator"
  by (simp add: trade_aggregator_wf_def default_trade_aggregator_def empty_ta_snapshot_def accumulate_def
      volume_imbalance_def)

lemma trade_aggregator_wf_recompute:
  assumes "ta_window_ms a = 1000" "ta_sma_windows a = 20" "length (ta_completed a) \<le> 20"
    and "ta_completed a = [] \<longrightarrow> ts_volume_sma (ta_snap a) = 0"
  shows "trade_aggregator_wf (recompute a)"
  using assms by (auto simp: trade_aggregator_wf_def recompute_fields recompute_sums Let_def)

lemma trade_aggregator_wf_update:
  assumes "trade_aggregator_wf a" "ta_update t a = Inr a'" shows "trade_aggregator_wf a'"
proof -
  obtain r where r: "roll_window (tr_event_time_ms t) (init_window (tr_event_time_ms t) a) = Inr r"
    and a': "a' = recompute (push_trade t (expire_old (tr_event_time_ms t) r))"
    using assms(2) by (auto simp: ta_update_def res_simps)
  have "ta_window_ms r = 1000 \<and> ta_sma_windows r = 20 \<and> length (ta_completed r) \<le> 20
    \<and> (ta_completed r = [] \<longrightarrow> ts_volume_sma (ta_snap r) = 0)"
    using r assms(1)
    by (auto simp: trade_aggregator_wf_def roll_window_def init_window_def Let_def length_push_window
        push_window_nonempty split: if_splits)
  then show ?thesis unfolding a'
    by (intro trade_aggregator_wf_recompute) (simp_all add: push_trade_def expire_old_def)
qed

lemma symbol_wf_new: "symbol_wf name (new_symbol_state name)"
  using aggregator_wf_new trade_aggregator_wf_new book_inv_new
  by (simp add: symbol_wf_def new_symbol_state_def) (simp add: new_book_def)

lemma symbol_wf_step:
  assumes "symbol_wf name st" "state_step m st = Inr st'" shows "symbol_wf name st'"
proof (cases "msg_type m")
  case TRADE
  then show ?thesis using assms
    by (auto simp: state_step_def trade_state_def symbol_wf_def res_simps intro: trade_aggregator_wf_update)
next
  case DEPTH_UPDATE
  then obtain b where b: "apply_update (msg_depth m) (st_book st) = Inr b"
    and st': "st' = st\<lparr>st_book := b, st_aggregator := agg_update b (st_aggregator st)\<rparr>"
    using assms(2) by (auto simp: state_step_def depth_state_def res_simps)
  show ?thesis using assms(1) update_fields [OF b] update_inv [OF _ b] unfolding st'
    by (auto simp: symbol_wf_def intro: aggregator_wf_update)
qed

section \<open>The engine\<close>

definition engine_wf :: "condition list \<Rightarrow> engine \<Rightarrow> bool" where
  "engine_wf cs e \<longleftrightarrow> distinct (map fst (en_states e)) \<and> (\<forall>(name, st)\<in>set (en_states e). symbol_wf name st)
    \<and> engine_inv cs e \<and> length (sk_recent_signals (en_sink e)) \<le> MAX_RECENT_SIGNALS
    \<and> en_snapshot e = snapshot_of e"

lemma engine_wf_new: "engine_wf cs (new_engine cs rec)"
  using engine_inv_new [of cs rec]
  by (simp add: engine_wf_def) (simp add: new_engine_def snapshot_of_def empty_engine_snapshot_def)

lemma engine_wf_state: "engine_wf cs e \<Longrightarrow> symbol_wf name (state_of name e)"
  by (auto simp: engine_wf_def state_of_def symbol_wf_new dest: map_of_SomeD split: option.split)

lemma engine_inv_recent: "engine_inv cs e \<Longrightarrow> length (sk_recent_signals (en_sink e)) \<le> MAX_RECENT_SIGNALS"
  by (auto simp: engine_inv_def sink_inv_def)

lemma engine_wf_turn:
  assumes "engine_wf cs (fst w)" "state_step m (state_of (name_of m) (fst w)) = Inr st"
  shows "engine_wf cs (fst (turn m st w))"
proof -
  have "symbol_wf (name_of m) st" using symbol_wf_step [OF engine_wf_state [OF assms(1)] assms(2)] .
  moreover have "engine_inv cs (fst (turn m st w))" using assms(1) by (intro engine_inv_turn) (simp add: engine_wf_def)
  ultimately show ?thesis
    using assms(1) set_put [of "name_of m" st "en_states (fst w)"]
    by (auto simp: engine_wf_def turn_fields(1) distinct_put engine_inv_recent intro: turn_fields(4))
qed

lemma engine_wf_windows: "engine_wf cs e \<Longrightarrow> windows_set (e, clk)"
  using engine_wf_state by (auto simp: windows_set_def symbol_wf_def trade_aggregator_wf_def)

text \<open>C10: The engine is type sound. In a well-formed engine, whatever the message and the clocks, either
  the message is not applicable, and the outcome is undefined, or it is, and the engine is well-formed
  again, with a state for exactly one symbol more at most.\<close>

theorem engine_type_sound:
  assumes "engine_wf cs e"
  shows "case handle m (e, clk) of
      Inl f \<Rightarrow> \<not> applicable m
    | Inr (e', clk') \<Rightarrow> applicable m \<and> engine_wf cs e'
        \<and> fst ` set (en_states e') = insert (name_of m) (fst ` set (en_states e))"
proof (cases "state_step m (state_of (name_of m) e)")
  case (Inl f)
  then show ?thesis
    using state_step_ok [OF engine_wf_windows [OF assms, of clk], of m "name_of m"] by (simp add: handle_eq)
next
  case (Inr st)
  obtain e' clk' where t: "turn m st (e, clk) = (e', clk')" by fastforce
  have "applicable m"
    using Inr state_step_ok [OF engine_wf_windows [OF assms, of clk], of m "name_of m"] by simp
  moreover have "engine_wf cs e'" using engine_wf_turn [of cs "(e, clk)" m st] assms Inr t by simp
  moreover have "en_states e' = put (name_of m) st (en_states e)" using turn_fields(1) [of m st "(e, clk)"] t by simp
  ultimately show ?thesis using Inr t by (simp add: handle_eq keys_put)
qed

theorem engine_type_sound_witness:
  "\<exists>e' clk'. handle (depth_message sample_update) (new_engine sample_conditions None, sample_clock) = Inr (e', clk')
    \<and> engine_wf sample_conditions e' \<and> fst ` set (en_states e') = {''BTC''}"
proof -
  have "applicable (depth_message sample_update)" "name_of (depth_message sample_update) = ''BTC''" by code_simp+
  moreover have "fst ` set (en_states (new_engine sample_conditions None)) = {}" by (simp add: new_engine_def)
  ultimately show ?thesis
    using engine_type_sound [OF engine_wf_new [of sample_conditions None], of "depth_message sample_update" sample_clock]
    by (auto split: sum.splits)
qed

end
