(* ===== verification/Json_Tree.thy ===== *)
theory Json_Tree
  imports Ieee_Double
begin

text \<open>
  The values of the JSON library nlohmann, as trees: what \<open>src/main.cpp\<close> publishes and
  \<open>bench/bench_json_parse.cpp\<close> reads. Its text form is not modelled.
\<close>

datatype json =
    J_Null | J_Bool bool | J_Int int | J_Double double | J_String string
  | J_Array "json list" | J_Object "(string \<times> json) list"

text \<open>The non-const \<open>operator[]\<close> of an object with a key: a missing field is created as null. On other
  values but null it throws.\<close>

definition json_field :: "string \<Rightarrow> json \<Rightarrow> json option" where
  "json_field k j = (case j of
      J_Object m \<Rightarrow> Some (case map_of m k of None \<Rightarrow> J_Null | Some v \<Rightarrow> v)
    | J_Null \<Rightarrow> Some J_Null
    | _ \<Rightarrow> None)"

definition json_contains :: "json \<Rightarrow> string \<Rightarrow> bool" where
  "json_contains j k = (case j of J_Object m \<Rightarrow> map_of m k \<noteq> None | _ \<Rightarrow> False)"

text \<open>The non-const \<open>operator[]\<close> with an index fills up with nulls; on other values but arrays and null it
  throws.\<close>

definition json_index :: "nat \<Rightarrow> json \<Rightarrow> json option" where
  "json_index i j = (case j of
      J_Array xs \<Rightarrow> Some (if i < length xs then xs ! i else J_Null)
    | J_Null \<Rightarrow> Some J_Null
    | _ \<Rightarrow> None)"

text \<open>\<open>get<std::string>\<close> throws on what is no string.\<close>

definition json_text :: "json \<Rightarrow> string option" where
  "json_text j = (case j of J_String s \<Rightarrow> Some s | _ \<Rightarrow> None)"

text \<open>What a range-based loop visits: the elements of an array, the values of an object, nothing of a
  null, and any other value itself.\<close>

definition json_elements :: "json \<Rightarrow> json list" where
  "json_elements j = (case j of J_Array xs \<Rightarrow> xs | J_Object m \<Rightarrow> map snd m | J_Null \<Rightarrow> [] | _ \<Rightarrow> [j])"

end
