(* ===== verification/Metrics_Server.thy ===== *)
theory Metrics_Server
  imports Mde_Prelude
begin

text \<open>
  \<open>src/output/metrics_server.h\<close> and \<open>metrics_server.cpp\<close>: the HTTP server of the statistics. A
  request is what \<open>http::read\<close> made of a connection, \<open>None\<close> when it threw; the provider of the
  statistics may throw too. Sockets and the event loop are the environment: it completes
  the pending \<open>async_accept\<close>, with an error or with a connection.
\<close>

section \<open>One connection\<close>

datatype http_method = Get | Other_Method string

record http_request =
  rq_method :: http_method
  rq_target :: string
  rq_version :: nat

record http_response =
  rs_version :: nat
  rs_status :: nat
  rs_headers :: "(string \<times> string) list"
  rs_body :: string

definition json_header :: "string \<times> string" where
  "json_header = (''Content-Type'', ''application/json'')"

definition quoted_word :: "string \<Rightarrow> string" where
  "quoted_word s = CHR 0x22 # s @ [CHR 0x22]"

definition health_body :: string where
  "health_body = ''{'' @ quoted_word ''status'' @ '':'' @ quoted_word ''ok'' @ ''}''"

definition not_found_body :: string where
  "not_found_body = ''{'' @ quoted_word ''error'' @ '':'' @ quoted_word ''not found'' @ ''}''"

text \<open>\<open>None\<close>: an exception ended the handler before the response was written.\<close>

definition handle_connection :: "string option \<Rightarrow> http_request option \<Rightarrow> http_response option" where
  "handle_connection stats request = (case request of
      None \<Rightarrow> None
    | Some req \<Rightarrow>
       (let res = \<lparr>rs_version = rq_version req, rs_status = 200,
              rs_headers = [(''Server'', ''mde/0.1.0''), (''Access-Control-Allow-Origin'', ''*''), json_header], rs_body = []\<rparr>
        in if rq_method req = Get \<and> rq_target req = ''/stats''
           then (case stats of None \<Rightarrow> None | Some body \<Rightarrow> Some (res\<lparr>rs_body := body\<rparr>))
           else if rq_method req = Get \<and> rq_target req = ''/health''
           then Some (res\<lparr>rs_body := health_body\<rparr>)
           else Some (res\<lparr>rs_status := 404, rs_body := not_found_body\<rparr>)))"

section \<open>The server\<close>

text \<open>\<open>ms_armed\<close>: an \<open>async_accept\<close> is pending. \<open>ms_replies\<close> collects the responses.\<close>

record metrics_server =
  ms_running :: bool
  ms_armed :: bool
  ms_replies :: "http_response list"

definition new_metrics_server :: metrics_server where
  "new_metrics_server = \<lparr>ms_running = False, ms_armed = False, ms_replies = []\<rparr>"

definition do_accept :: "metrics_server \<Rightarrow> metrics_server" where
  "do_accept s = (if ms_running s then s\<lparr>ms_armed := True\<rparr> else s)"

text \<open>\<open>bound\<close>: the acceptor could be opened on the port; otherwise the thread ends.\<close>

definition metrics_start :: "bool \<Rightarrow> metrics_server \<Rightarrow> metrics_server" where
  "metrics_start bound s = (let s = s\<lparr>ms_running := True\<rparr> in if bound then do_accept s else s)"

definition metrics_stop :: "metrics_server \<Rightarrow> metrics_server" where
  "metrics_stop s = (if ms_running s then s\<lparr>ms_running := False, ms_armed := False\<rparr> else s)"

datatype accept_result = Accept_Error | Accepted "string option" "http_request option"

definition on_accept :: "accept_result \<Rightarrow> metrics_server \<Rightarrow> metrics_server" where
  "on_accept r s =
     (let s = s\<lparr>ms_armed := False\<rparr>;
          s = (case r of Accept_Error \<Rightarrow> s
               | Accepted stats request \<Rightarrow> (case handle_connection stats request of
                   None \<Rightarrow> s | Some res \<Rightarrow> s\<lparr>ms_replies := ms_replies s @ [res]\<rparr>))
      in if ms_running s then do_accept s else s)"

section \<open>What it answers\<close>

text \<open>The replies a sequence of completed accepts should get.\<close>

definition reply_to :: "accept_result \<Rightarrow> http_response option" where
  "reply_to r = (case r of Accept_Error \<Rightarrow> None | Accepted stats request \<Rightarrow> handle_connection stats request)"

lemma on_accept_running:
  "ms_running s \<Longrightarrow> ms_running (on_accept r s) \<and> ms_armed (on_accept r s)
    \<and> ms_replies (on_accept r s) = ms_replies s @ (case reply_to r of None \<Rightarrow> [] | Some res \<Rightarrow> [res])"
  by (simp add: on_accept_def reply_to_def do_accept_def Let_def split: accept_result.split option.split)

lemma accepts_running:
  "ms_running s \<Longrightarrow> ms_armed s \<Longrightarrow> ms_running (fold on_accept rs s) \<and> ms_armed (fold on_accept rs s)
    \<and> ms_replies (fold on_accept rs s) = ms_replies s @ List.map_filter reply_to rs"
proof (induction rs arbitrary: s)
  case (Cons r rs)
  then show ?case using Cons.IH [of "on_accept r s"] on_accept_running [of s r]
    by (simp add: List.map_filter_def split: option.split)
qed (simp add: List.map_filter_def)

lemma reply_status:
  "handle_connection stats request = Some res \<longleftrightarrow> (\<exists>req. request = Some req \<and> rs_version res = rq_version req
     \<and> rs_headers res = [(''Server'', ''mde/0.1.0''), (''Access-Control-Allow-Origin'', ''*''), json_header]
     \<and> (if rq_method req = Get \<and> rq_target req = ''/stats'' then rs_status res = 200 \<and> stats = Some (rs_body res)
        else if rq_method req = Get \<and> rq_target req = ''/health'' then rs_status res = 200 \<and> rs_body res = health_body
        else rs_status res = 404 \<and> rs_body res = not_found_body))"
  by (cases request; cases res) (auto simp: handle_connection_def Let_def split: option.splits)

text \<open>A started server whose port could be opened answers every connection, in order, and is ready
  for the next one whatever went wrong with the ones before: a failed accept, a request that
  could not be read, or a provider that threw cost at most their own reply.\<close>

theorem metrics_serves:
  shows "let s = fold on_accept rs (metrics_start True new_metrics_server)
    in ms_armed s \<and> ms_running s \<and> ms_replies s = List.map_filter reply_to rs"
  using accepts_running [of "metrics_start True new_metrics_server" rs]
  by (simp add: metrics_start_def new_metrics_server_def do_accept_def Let_def)

end
