(* ===== verification/Ws_Server.thy ===== *)
theory Ws_Server
  imports Mde_Prelude
begin

text \<open>
  \<open>src/output/ws_server.h\<close> and \<open>ws_server.cpp\<close>: the WebSocket server of the dashboard. Four
  kinds of threads share the list of clients under a mutex: the acceptor, the broadcaster,
  one detached reader per client, and the caller of \<open>stop\<close>. A step of the relation is a
  critical section or an access outside one.
\<close>

section \<open>State\<close>

text \<open>
  A client is a number; \<open>wv_alive\<close> is the flag its \<open>Client\<close> object shares between the list and
  its reader. The lists of messages sent, of commands passed to the controller and of
  running readers are what the environment sees.
\<close>

datatype acceptor = Waiting | Accepting nat | Acceptor_Exited

datatype broadcaster = Sleeping | Sending string | Cleaning | Broadcaster_Exited

datatype reader_state = At_Head | In_Read | Got string

datatype stop_phase = Serving | Flagged | Cleared | Joined

record ws_server =
  wv_running :: bool
  wv_clients :: "nat list"
  wv_alive :: "nat \<Rightarrow> bool"
  wv_next :: nat
  wv_readers :: "(nat \<times> reader_state) list"
  wv_acceptor :: acceptor
  wv_broadcaster :: broadcaster
  wv_stop :: stop_phase
  wv_sent :: "(nat \<times> string) list"
  wv_commands :: "string list"

definition ws_started :: ws_server where
  "ws_started = \<lparr>wv_running = True, wv_clients = [], wv_alive = (\<lambda>i. False), wv_next = 0, wv_readers = [],
     wv_acceptor = Waiting, wv_broadcaster = Sleeping, wv_stop = Serving, wv_sent = [], wv_commands = []\<rparr>"

section \<open>Operations\<close>

definition client_count :: "ws_server \<Rightarrow> nat" where
  "client_count s = length (wv_clients s)"

text \<open>The loop over the clients: a write that throws marks the client as dead.\<close>

fun broadcast_loop :: "(nat \<Rightarrow> bool) \<Rightarrow> string \<Rightarrow> nat list \<Rightarrow> ws_server \<Rightarrow> ws_server" where
  "broadcast_loop throws msg [] s = s"
| "broadcast_loop throws msg (i # is) s =
     broadcast_loop throws msg is
       (if \<not> wv_alive s i then s
        else if throws i then s\<lparr>wv_alive := (wv_alive s)(i := False)\<rparr>
        else s\<lparr>wv_sent := wv_sent s @ [(i, msg)]\<rparr>)"

definition broadcast :: "(nat \<Rightarrow> bool) \<Rightarrow> string \<Rightarrow> ws_server \<Rightarrow> ws_server" where
  "broadcast throws msg s = broadcast_loop throws msg (wv_clients s) s"

definition remove_dead_clients :: "ws_server \<Rightarrow> ws_server" where
  "remove_dead_clients s = s\<lparr>wv_clients := filter (wv_alive s) (wv_clients s)\<rparr>"

definition close_clients :: "ws_server \<Rightarrow> ws_server" where
  "close_clients s = s\<lparr>wv_alive := fold (\<lambda>i f. f(i := False)) (wv_clients s) (wv_alive s), wv_clients := []\<rparr>"

definition add_client :: "bool \<Rightarrow> nat \<Rightarrow> ws_server \<Rightarrow> ws_server" where
  "add_client has_controller i s = s\<lparr>wv_clients := wv_clients s @ [i],
     wv_readers := (if has_controller then wv_readers s @ [(i, At_Head)] else wv_readers s)\<rparr>"

definition set_reader :: "nat \<Rightarrow> reader_state \<Rightarrow> ws_server \<Rightarrow> ws_server" where
  "set_reader i r s = s\<lparr>wv_readers := map (\<lambda>p. if fst p = i then (i, r) else p) (wv_readers s)\<rparr>"

definition end_reader :: "nat \<Rightarrow> ws_server \<Rightarrow> ws_server" where
  "end_reader i s = s\<lparr>wv_alive := (wv_alive s)(i := False), wv_readers := filter (\<lambda>p. fst p \<noteq> i) (wv_readers s)\<rparr>"

text \<open>
  The steps. \<open>hc\<close>: a controller was given. Of \<open>stop\<close>: it clears the flag and stops the accept
  loop, closes and clears the clients, and joins the acceptor and the broadcaster; it does
  nothing for the readers.
\<close>

inductive ws_step :: "bool \<Rightarrow> ws_server \<Rightarrow> ws_server \<Rightarrow> bool" for hc where
  accept_begin: "wv_acceptor s = Waiting \<Longrightarrow> wv_stop s = Serving \<Longrightarrow>
    ws_step hc s (s\<lparr>wv_acceptor := Accepting (wv_next s), wv_next := Suc (wv_next s),
                  wv_alive := (wv_alive s)(wv_next s := True)\<rparr>)"
| accept_fail: "wv_acceptor s = Accepting i \<Longrightarrow> ws_step hc s (s\<lparr>wv_acceptor := Waiting\<rparr>)"
| accept_end: "wv_acceptor s = Accepting i \<Longrightarrow> ws_step hc s ((add_client hc i s)\<lparr>wv_acceptor := Waiting\<rparr>)"
| acceptor_exit: "wv_acceptor s = Waiting \<Longrightarrow> wv_stop s \<noteq> Serving \<Longrightarrow> ws_step hc s (s\<lparr>wv_acceptor := Acceptor_Exited\<rparr>)"
| wake: "wv_broadcaster s = Sleeping \<Longrightarrow> wv_running s \<Longrightarrow> msg \<noteq> [] \<Longrightarrow>
    ws_step hc s (s\<lparr>wv_broadcaster := Sending msg\<rparr>)"
| wake_empty: "wv_broadcaster s = Sleeping \<Longrightarrow> wv_running s \<Longrightarrow> ws_step hc s (s\<lparr>wv_broadcaster := Cleaning\<rparr>)"
| broadcaster_exit: "wv_broadcaster s = Sleeping \<Longrightarrow> \<not> wv_running s \<Longrightarrow>
    ws_step hc s (s\<lparr>wv_broadcaster := Broadcaster_Exited\<rparr>)"
| send: "wv_broadcaster s = Sending msg \<Longrightarrow> ws_step hc s ((broadcast throws msg s)\<lparr>wv_broadcaster := Cleaning\<rparr>)"
| clean: "wv_broadcaster s = Cleaning \<Longrightarrow> ws_step hc s ((remove_dead_clients s)\<lparr>wv_broadcaster := Sleeping\<rparr>)"
| reader_head: "(i, At_Head) \<in> set (wv_readers s) \<Longrightarrow> wv_alive s i \<Longrightarrow> wv_running s \<Longrightarrow>
    ws_step hc s (set_reader i In_Read s)"
| reader_leave: "(i, At_Head) \<in> set (wv_readers s) \<Longrightarrow> \<not> (wv_alive s i \<and> wv_running s) \<Longrightarrow> ws_step hc s (end_reader i s)"
| reader_throw: "(i, In_Read) \<in> set (wv_readers s) \<Longrightarrow> ws_step hc s (end_reader i s)"
| reader_read: "(i, In_Read) \<in> set (wv_readers s) \<Longrightarrow> ws_step hc s (set_reader i (Got cmd) s)"
| reader_control: "(i, Got cmd) \<in> set (wv_readers s) \<Longrightarrow>
    ws_step hc s ((set_reader i At_Head s)\<lparr>wv_commands := wv_commands s @ [cmd]\<rparr>)"
| stop_flag: "wv_stop s = Serving \<Longrightarrow> ws_step hc s (s\<lparr>wv_running := False, wv_stop := Flagged\<rparr>)"
| stop_clear: "wv_stop s = Flagged \<Longrightarrow> ws_step hc s ((close_clients s)\<lparr>wv_stop := Cleared\<rparr>)"
| stop_join: "wv_stop s = Cleared \<Longrightarrow> wv_acceptor s = Acceptor_Exited \<Longrightarrow> wv_broadcaster s = Broadcaster_Exited \<Longrightarrow>
    ws_step hc s (s\<lparr>wv_stop := Joined\<rparr>)"

inductive ws_reachable :: "bool \<Rightarrow> ws_server \<Rightarrow> bool" for hc where
  ws_init: "ws_reachable hc ws_started"
| ws_next: "ws_reachable hc s \<Longrightarrow> ws_step hc s s' \<Longrightarrow> ws_reachable hc s'"

inductive_cases ws_stepE: "ws_step hc s s'"

section \<open>Broadcasting\<close>

lemma broadcast_loop_fields [simp]:
  "wv_clients (broadcast_loop throws msg is s) = wv_clients s" "wv_stop (broadcast_loop throws msg is s) = wv_stop s"
  "wv_next (broadcast_loop throws msg is s) = wv_next s" "wv_acceptor (broadcast_loop throws msg is s) = wv_acceptor s"
  "wv_readers (broadcast_loop throws msg is s) = wv_readers s" "wv_running (broadcast_loop throws msg is s) = wv_running s"
  by (induction throws msg "is" s rule: broadcast_loop.induct) simp_all

lemma broadcast_loop_effect:
  "distinct is \<Longrightarrow>
     wv_sent (broadcast_loop throws msg is s) = wv_sent s @ map (\<lambda>i. (i, msg)) (filter (\<lambda>i. wv_alive s i \<and> \<not> throws i) is)
   \<and> wv_alive (broadcast_loop throws msg is s) = (\<lambda>i. wv_alive s i \<and> \<not> (i \<in> set is \<and> throws i))"
proof (induction throws msg "is" s rule: broadcast_loop.induct)
  case (2 throws msg i "is" s)
  have *: "filter (\<lambda>j. (if j = i then False else wv_alive s j) \<and> \<not> throws j) is = filter (\<lambda>j. wv_alive s j \<and> \<not> throws j) is"
    using 2(2) by (intro filter_cong) auto
  show ?case using 2 * by (auto simp: fun_eq_iff fun_upd_def)
qed auto

lemma close_alive: "fold (\<lambda>i f. f(i := False)) is f j = (if j \<in> set is then False else f j)"
  by (induction "is" arbitrary: f) auto

section \<open>The list of clients\<close>

definition in_progress :: "acceptor \<Rightarrow> nat list" where
  "in_progress a = (case a of Accepting i \<Rightarrow> [i] | _ \<Rightarrow> [])"

text \<open>
  Clients are different from each other and from the one being accepted, and none has a
  number to come. Once \<open>stop\<close> has cleared the list, only the client whose handshake was in
  progress can still enter it.
\<close>

definition ws_inv :: "ws_server \<Rightarrow> bool" where
  "ws_inv s \<longleftrightarrow> distinct (wv_clients s @ in_progress (wv_acceptor s))
     \<and> (\<forall>i \<in> set (wv_clients s @ in_progress (wv_acceptor s)). i < wv_next s)
     \<and> (wv_running s = (wv_stop s = Serving))
     \<and> (wv_stop s \<in> {Cleared, Joined} \<longrightarrow> length (wv_clients s @ in_progress (wv_acceptor s)) \<le> 1)
     \<and> (wv_stop s = Joined \<longrightarrow> wv_acceptor s = Acceptor_Exited \<and> wv_broadcaster s = Broadcaster_Exited)"

lemma ws_inv_started: "ws_inv ws_started"
  by (simp add: ws_inv_def ws_started_def in_progress_def)

lemma ws_inv_step:
  assumes "ws_inv s" "ws_step hc s s'" shows "ws_inv s'"
  using assms(2)
proof cases
  case accept_begin
  then show ?thesis using assms(1) by (auto simp: ws_inv_def in_progress_def)
next
  case accept_end
  then show ?thesis using assms(1) by (auto simp: ws_inv_def in_progress_def add_client_def)
next
  case clean
  then show ?thesis using assms(1)
    by (auto simp: ws_inv_def in_progress_def remove_dead_clients_def intro: le_trans [OF length_filter_le]
        split: acceptor.splits)
next
  case stop_clear
  then show ?thesis using assms(1) by (auto simp: ws_inv_def in_progress_def close_clients_def split: acceptor.splits)
qed (use assms(1) in \<open>auto simp: ws_inv_def in_progress_def broadcast_def set_reader_def end_reader_def split: acceptor.splits\<close>)

lemma ws_inv_reachable: "ws_reachable hc s \<Longrightarrow> ws_inv s"
  by (induction rule: ws_reachable.induct) (auto intro: ws_inv_started ws_inv_step)

text \<open>A broadcast in any reachable state sends the message once to every client of the list that is
  alive and whose write succeeds, in the order of the list, and marks exactly those whose
  write threw; cleaning up afterwards keeps exactly the clients that are alive.\<close>

theorem broadcast_reaches:
  fixes throws :: "nat \<Rightarrow> bool" and msg :: string
  assumes "ws_reachable hc s"
  defines "s1 \<equiv> broadcast throws msg s"
  shows "wv_sent s1 = wv_sent s @ map (\<lambda>i. (i, msg)) (filter (\<lambda>i. wv_alive s i \<and> \<not> throws i) (wv_clients s))
    \<and> wv_clients (remove_dead_clients s1) = filter (\<lambda>i. wv_alive s i \<and> \<not> throws i) (wv_clients s)"
proof -
  have "distinct (wv_clients s)" using ws_inv_reachable [OF assms(1)] by (simp add: ws_inv_def)
  note e = broadcast_loop_effect [OF this, of throws msg s]
  have "filter (\<lambda>i. wv_alive s i \<and> \<not> (i \<in> set (wv_clients s) \<and> throws i)) (wv_clients s)
      = filter (\<lambda>i. wv_alive s i \<and> \<not> throws i) (wv_clients s)"
    by (rule filter_cong) auto
  then show ?thesis using e by (simp add: s1_def broadcast_def remove_dead_clients_def)
qed

text \<open>C38: when \<open>stop\<close> has returned, no thread of the server but its readers runs, nothing is sent any
  more, and the list holds at most one client: one whose handshake ended after the list was
  cleared.\<close>

theorem ws_stopped:
  assumes "ws_reachable hc s" "wv_stop s = Joined"
  shows "client_count s \<le> 1 \<and> wv_acceptor s = Acceptor_Exited \<and> wv_broadcaster s = Broadcaster_Exited
    \<and> (\<forall>s'. ws_step hc s s' \<longrightarrow> wv_sent s' = wv_sent s \<and> wv_clients s' = wv_clients s \<and> wv_stop s' = Joined)"
proof -
  have inv: "ws_inv s" using ws_inv_reachable [OF assms(1)] .
  then have t: "wv_acceptor s = Acceptor_Exited" "wv_broadcaster s = Broadcaster_Exited" using assms(2) by (auto simp: ws_inv_def)
  have "wv_sent s' = wv_sent s \<and> wv_clients s' = wv_clients s \<and> wv_stop s' = Joined" if "ws_step hc s s'" for s'
    using that assms(2) t by cases (auto simp: set_reader_def end_reader_def)
  then show ?thesis using inv t assms(2) by (auto simp: ws_inv_def client_count_def)
qed

section \<open>What stop misses\<close>

text \<open>
  A reader that has a command in hand when the server stops: nothing joins it, so it calls
  the controller, a member of the server, after \<open>stop\<close> has returned and the destructor may
  have run.
\<close>

definition left_behind :: ws_server where
  "left_behind = ws_started\<lparr>wv_running := False, wv_next := 1, wv_readers := [(0, Got ''pause'')],
     wv_acceptor := Acceptor_Exited, wv_broadcaster := Broadcaster_Exited, wv_stop := Joined\<rparr>"

lemma left_behind_reachable: "ws_reachable True left_behind"
proof -
  let ?s1 = "ws_started\<lparr>wv_acceptor := Accepting 0, wv_next := 1, wv_alive := (\<lambda>i. False)(0 := True)\<rparr>"
  let ?s2 = "?s1\<lparr>wv_clients := [0], wv_readers := [(0, At_Head)], wv_acceptor := Waiting\<rparr>"
  let ?s3 = "?s2\<lparr>wv_readers := [(0, In_Read)]\<rparr>"
  let ?s4 = "?s3\<lparr>wv_readers := [(0, Got ''pause'')]\<rparr>"
  let ?s5 = "?s4\<lparr>wv_running := False, wv_stop := Flagged\<rparr>"
  let ?s6 = "?s5\<lparr>wv_alive := (\<lambda>i. False), wv_clients := [], wv_stop := Cleared\<rparr>"
  let ?s7 = "?s6\<lparr>wv_acceptor := Acceptor_Exited\<rparr>"
  let ?s8 = "?s7\<lparr>wv_broadcaster := Broadcaster_Exited\<rparr>"
  have "ws_step True ws_started ?s1" using ws_step.accept_begin [of ws_started] by (simp add: ws_started_def)
  moreover have "ws_step True ?s1 ?s2" using ws_step.accept_end [of ?s1 0 True] by (simp add: ws_started_def add_client_def)
  moreover have "ws_step True ?s2 ?s3" using ws_step.reader_head [of 0 ?s2] by (simp add: ws_started_def set_reader_def)
  moreover have "ws_step True ?s3 ?s4" using ws_step.reader_read [of 0 ?s3] by (simp add: ws_started_def set_reader_def)
  moreover have "ws_step True ?s4 ?s5" using ws_step.stop_flag [of ?s4] by (simp add: ws_started_def)
  moreover have "ws_step True ?s5 ?s6" using ws_step.stop_clear [of ?s5]
    by (simp add: ws_started_def close_clients_def fun_upd_idem)
  moreover have "ws_step True ?s6 ?s7" using ws_step.acceptor_exit [of ?s6] by (simp add: ws_started_def)
  moreover have "ws_step True ?s7 ?s8" using ws_step.broadcaster_exit [of ?s7] by (simp add: ws_started_def)
  moreover have "ws_step True ?s8 left_behind" using ws_step.stop_join [of ?s8] by (simp add: ws_started_def left_behind_def)
  ultimately show ?thesis by (meson ws_reachable.intros)
qed

theorem ws_stopped_witness:
  "ws_reachable True left_behind \<and> wv_stop left_behind = Joined \<and> client_count left_behind \<le> 1"
proof -
  have j: "wv_stop left_behind = Joined" by (simp add: left_behind_def)
  from ws_stopped [OF left_behind_reachable j] show ?thesis using left_behind_reachable j by blast
qed

text \<open>A reader can outlive the server: some run ends with \<open>stop\<close> returned and a reader that still
  passes a command to the controller.\<close>

theorem reader_outlives_stop:
  "\<exists>s s'. ws_reachable True s \<and> wv_stop s = Joined \<and> ws_step True s s'
     \<and> length (wv_commands s') = Suc (length (wv_commands s))"
proof -
  have "ws_step True left_behind ((set_reader 0 At_Head left_behind)\<lparr>wv_commands := wv_commands left_behind @ [''pause'']\<rparr>)"
    by (rule ws_step.reader_control) (simp add: left_behind_def)
  moreover have "wv_stop left_behind = Joined" by (simp add: left_behind_def)
  ultimately show ?thesis using left_behind_reachable by (intro exI conjI) (assumption+, simp)
qed

lemma two_clients_reachable:
  obtains s where "ws_reachable False s" "wv_clients s = [0, 1]" "wv_alive s 0" "wv_alive s 1" "wv_sent s = []"
proof -
  let ?s1 = "ws_started\<lparr>wv_acceptor := Accepting 0, wv_next := 1, wv_alive := (\<lambda>i. False)(0 := True)\<rparr>"
  let ?s2 = "?s1\<lparr>wv_clients := [0], wv_acceptor := Waiting\<rparr>"
  let ?s3 = "?s2\<lparr>wv_acceptor := Accepting 1, wv_next := 2, wv_alive := (\<lambda>i. False)(0 := True, 1 := True)\<rparr>"
  let ?s4 = "?s3\<lparr>wv_clients := [0, 1], wv_acceptor := Waiting\<rparr>"
  have "ws_step False ws_started ?s1" using ws_step.accept_begin [of ws_started] by (simp add: ws_started_def)
  moreover have "ws_step False ?s1 ?s2" using ws_step.accept_end [of ?s1 0 False] by (simp add: ws_started_def add_client_def)
  moreover have "ws_step False ?s2 ?s3" using ws_step.accept_begin [of ?s2] by (simp add: ws_started_def numeral_2_eq_2)
  moreover have "ws_step False ?s3 ?s4" using ws_step.accept_end [of ?s3 1 False] by (simp add: ws_started_def add_client_def)
  ultimately have "ws_reachable False ?s4" by (meson ws_reachable.intros)
  then show thesis by (rule that) (simp_all add: ws_started_def)
qed

theorem broadcast_reaches_witness:
  "\<exists>s. ws_reachable False s \<and> wv_sent (broadcast (\<lambda>i. i = 0) ''x'' s) = [(1, ''x'')]
    \<and> wv_clients (remove_dead_clients (broadcast (\<lambda>i. i = 0) ''x'' s)) = [1]"
proof -
  obtain s where s: "ws_reachable False s" "wv_clients s = [0, 1]" "wv_alive s 0" "wv_alive s 1" "wv_sent s = []"
    by (rule two_clients_reachable)
  from broadcast_reaches [OF s(1), of "\<lambda>i. i = 0" "''x''"] show ?thesis using s by auto
qed

end
