(* ===== verification/Main_Program.thy ===== *)
theory Main_Program
  imports Json_Tree Shutdown Ws_Client Metrics_Server Ws_Server
begin

text \<open>
  \<open>src/main.cpp\<close>: the command line, the signal conditions of the program, the statistics it
  publishes, the replay commands of the dashboard, the log sinks, and the order in which
  \<open>main\<close> starts and stops its components.
\<close>

section \<open>The command line\<close>

record cli_args =
  cl_config_path :: string
  cl_replay_path :: string
  cl_speed :: playback_speed

definition default_args :: cli_args where
  "default_args = \<lparr>cl_config_path = ''config/dev.yaml'', cl_replay_path = [], cl_speed = REALTIME\<rparr>"

definition set_cli_speed :: "string \<Rightarrow> cli_args \<Rightarrow> cli_args" where
  "set_cli_speed v a =
     (if v = ''1x'' \<or> v = ''1'' then a\<lparr>cl_speed := REALTIME\<rparr>
      else if v = ''2x'' \<or> v = ''2'' then a\<lparr>cl_speed := FAST_2X\<rparr>
      else if v = ''5x'' \<or> v = ''5'' then a\<lparr>cl_speed := FAST_5X\<rparr>
      else if v = ''max'' \<or> v = ''0'' then a\<lparr>cl_speed := MAX_SPEED\<rparr>
      else a)"

text \<open>An option without its value is taken for the path of the configuration.\<close>

fun parse_loop :: "string list \<Rightarrow> cli_args \<Rightarrow> cli_args" where
  "parse_loop [] a = a"
| "parse_loop [x] a = a\<lparr>cl_config_path := x\<rparr>"
| "parse_loop (x # y # xs) a =
     (if x = ''--replay'' then parse_loop xs (a\<lparr>cl_replay_path := y\<rparr>)
      else if x = ''--speed'' then parse_loop xs (set_cli_speed y a)
      else parse_loop (y # xs) (a\<lparr>cl_config_path := x\<rparr>))"

definition parse_args :: "string list \<Rightarrow> cli_args" where
  "parse_args argv = parse_loop (tl argv) default_args"

definition speed_word :: "playback_speed \<Rightarrow> string" where
  "speed_word s = (case s of REALTIME \<Rightarrow> ''1x'' | FAST_2X \<Rightarrow> ''2x'' | FAST_5X \<Rightarrow> ''5x'' | MAX_SPEED \<Rightarrow> ''max'')"

text \<open>Every setting can be given on the command line, and is read back as given, whatever the two
  paths look like.\<close>

theorem cli_roundtrip:
  "parse_args [prog, ''--replay'', cl_replay_path a, ''--speed'', speed_word (cl_speed a), cl_config_path a] = a"
proof -
  have "set_cli_speed (speed_word s) b = b\<lparr>cl_speed := s\<rparr>" for s b
    by (cases s) (simp_all add: set_cli_speed_def speed_word_def)
  then show ?thesis by (simp add: parse_args_def)
qed

section \<open>Logging\<close>

text \<open>The size limit of the log file is computed in 32 bits.\<close>

datatype log_sink = Console | Rotating_File string u32 u32

datatype log_level = Trace | Debug | Info | Warn | Err | Critical

definition rotating_size :: "u32 \<Rightarrow> u32" where
  "rotating_size mb = mb * 1024 * 1024"

definition log_sinks :: "logging_config \<Rightarrow> log_sink list" where
  "log_sinks c = (if lc_console c then [Console] else [])
     @ (if fl_enabled (lc_file c)
        then [Rotating_File (fl_path (lc_file c)) (rotating_size (fl_max_size_mb (lc_file c))) (fl_max_files (lc_file c))] else [])"

definition log_level_of :: "string \<Rightarrow> log_level option" where
  "log_level_of s = (if s = ''trace'' then Some Trace else if s = ''debug'' then Some Debug
     else if s = ''info'' then Some Info else if s = ''warn'' then Some Warn
     else if s = ''error'' then Some Err else if s = ''critical'' then Some Critical else None)"

text \<open>The byte limit of the log file is the configured number of mebibytes exactly when that is
  below 4096; from there on it wraps, to 0 for 4096.\<close>

theorem rotating_size_wraps:
  "(uint (rotating_size mb) = uint mb * 2 ^ 20 \<longleftrightarrow> uint mb < 4096) \<and> rotating_size 4096 = 0"
proof -
  have mb: "0 \<le> uint mb" "uint mb < 2 ^ 32" using uint_lt2p [of mb] by simp_all
  have "rotating_size mb = mb * (1024 * 1024)" unfolding rotating_size_def by (rule mult.assoc)
  then have "uint (rotating_size mb) = uint mb * 2 ^ 20 mod 2 ^ 32" by (simp add: uint_word_ariths)
  moreover have "uint mb * 2 ^ 20 mod 2 ^ 32 = uint mb * 2 ^ 20 \<longleftrightarrow> uint mb < 4096"
    using mb by (auto simp: mod_pos_pos_trivial)
  moreover have "rotating_size 4096 = 0" by (simp add: rotating_size_def)
  ultimately show ?thesis by simp
qed

section \<open>Signal conditions\<close>

definition default_condition :: "signal_type \<Rightarrow> double \<Rightarrow> condition" where
  "default_condition t threshold = \<lparr>cond_type = t, cond_threshold = threshold, cond_cooldown_us = default_cooldown\<rparr>"

definition main_conditions :: "condition list" where
  "main_conditions =
    [default_condition SPREAD_WIDE (double_of_int 50),
     default_condition IMBALANCE_BID (double_lit 7 10),
     default_condition IMBALANCE_ASK (double_lit 7 10),
     default_condition PRICE_DEVIATION (double_lit 1 1000),
     \<lparr>cond_type = TRADE_IMBALANCE_BUY, cond_threshold = double_lit 8 10, cond_cooldown_us = 3000000\<rparr>,
     \<lparr>cond_type = TRADE_IMBALANCE_SELL, cond_threshold = double_lit 8 10, cond_cooldown_us = 3000000\<rparr>,
     default_condition VOLUME_SPIKE (double_of_int 3),
     default_condition BOOK_PRESSURE_BID (double_lit 15 100),
     default_condition BOOK_PRESSURE_ASK (double_lit 15 100)]"

text \<open>No two of them share a type, so that each has its own cooldowns.\<close>

lemma main_conditions_distinct: "distinct (map cond_type main_conditions)"
  by (simp add: main_conditions_def default_condition_def)

section \<open>Replay commands\<close>

text \<open>
  \<open>value msg key fallback\<close> stands for the JSON library: the string of a key of the message, or
  the fallback without the key; \<open>None\<close> when it throws.
\<close>

definition replay_control :: "(string \<Rightarrow> string \<Rightarrow> string \<Rightarrow> string option) \<Rightarrow> string \<Rightarrow> replay \<Rightarrow> replay" where
  "replay_control value msg r = (case value msg ''cmd'' [] of
      None \<Rightarrow> r
    | Some cmd \<Rightarrow>
        if cmd = ''pause'' then pause r
        else if cmd = ''resume'' then resume r
        else if cmd = ''speed'' then (case value msg ''value'' ''1x'' of
            None \<Rightarrow> r
          | Some v \<Rightarrow> if v = ''1x'' then set_speed REALTIME r
              else if v = ''2x'' then set_speed FAST_2X r
              else if v = ''5x'' then set_speed FAST_5X r
              else if v = ''max'' then set_speed MAX_SPEED r
              else r)
        else r)"

lemma replay_control_cases:
  "replay_control value msg r = r \<or> replay_control value msg r = pause r \<or> replay_control value msg r = resume r
    \<or> (\<exists>v. replay_control value msg r = set_speed v r)"
  by (auto simp: replay_control_def split: option.split)

text \<open>Whatever a dashboard sends, the replay goes on as one of the runs that pause, resume and change
  their speed: no command can lose, repeat or reorder a record.\<close>

theorem control_harmless:
  assumes "sys_reachable moved s0 s"
  shows "sys_reachable moved s0 (s\<lparr>sy_replay := replay_control value msg (sy_replay s)\<rparr>)"
proof -
  let ?r = "sy_replay s"
  consider "replay_control value msg ?r = ?r" | "replay_control value msg ?r = pause ?r"
    | "replay_control value msg ?r = resume ?r" | v where "replay_control value msg ?r = set_speed v ?r"
    using replay_control_cases by blast
  then show ?thesis
  proof cases
    case 1
    then show ?thesis using assms by simp
  next
    case 2
    then show ?thesis using sys_reachable.step [OF assms sys_step.pausing] by simp
  next
    case 3
    then show ?thesis using sys_reachable.step [OF assms sys_step.resuming] by simp
  next
    case (4 v)
    then show ?thesis using sys_reachable.step [OF assms sys_step.speeding] by simp
  qed
qed

section \<open>Statistics\<close>

definition level_json :: "double \<times> double \<Rightarrow> json" where
  "level_json l = J_Object [(''price'', J_Double (fst l)), (''qty'', J_Double (snd l))]"

text \<open>The loop over a side, with its counter.\<close>

fun top_levels :: "int \<Rightarrow> side \<Rightarrow> json list" where
  "top_levels count [] = []"
| "top_levels count (l # ls) = (if 20 < count + 1 then [] else level_json l # top_levels (count + 1) ls)"

definition signal_json :: "signal \<Rightarrow> json" where
  "signal_json s = J_Object [(''type'', J_String (signal_type_name (sig_type s))), (''symbol'', J_String (sig_symbol s)),
     (''value'', J_Double (sig_value s)), (''threshold'', J_Double (sig_threshold s)),
     (''timestamp_us'', J_Int (uint (sig_timestamp_us s)))]"

definition symbol_json :: "symbol_snapshot \<Rightarrow> json" where
  "symbol_json sn = J_Object [(''symbol'', J_String (sn_symbol sn)), (''best_bid'', J_Double (sn_best_bid sn)),
     (''best_ask'', J_Double (sn_best_ask sn)), (''spread'', J_Double (sn_spread sn)),
     (''mid_price'', J_Double (sn_mid_price sn)), (''update_count'', J_Int (uint (sn_update_count sn))),
     (''aggregation'', J_Object [(''bid_vwap'', J_Double (as_bid_vwap (sn_aggregation sn))),
        (''ask_vwap'', J_Double (as_ask_vwap (sn_aggregation sn))),
        (''mid_price_sma'', J_Double (as_mid_price_sma (sn_aggregation sn))),
        (''spread_sma'', J_Double (as_spread_sma (sn_aggregation sn))),
        (''bid_ask_imbalance'', J_Double (as_imbalance (sn_aggregation sn)))]),
     (''bids'', J_Array (top_levels 0 (sn_bids sn))), (''asks'', J_Array (top_levels 0 (sn_asks sn)))]"

definition replay_json :: "replay \<Rightarrow> json" where
  "replay_json r = J_Object [(''replayed'', J_Int (uint (rp_replayed r))), (''total'', J_Int (uint (rp_total r))),
     (''finished'', J_Bool (rp_finished r)), (''paused'', J_Bool (rp_paused r)),
     (''speed'', J_String (speed_word (rp_speed r)))]"

definition feed_json :: "feed \<Rightarrow> json" where
  "feed_json f = J_Object [(''received'', J_Int (uint (fh_msg_count f))), (''parse_errors'', J_Int (uint (fh_parse_errors f))),
     (''queue_full'', J_Int (uint (fh_queue_full f)))]"

definition optional :: "string \<Rightarrow> ('a \<Rightarrow> json) \<Rightarrow> 'a option \<Rightarrow> (string \<times> json) list" where
  "optional key f x = (case x of None \<Rightarrow> [] | Some x \<Rightarrow> [(key, f x)])"

definition build_stats_json ::
    "engine_snapshot \<Rightarrow> feed option \<Rightarrow> replay option \<Rightarrow> queue_message spsc \<Rightarrow> logger option \<Rightarrow> int \<Rightarrow> json" where
  "build_stats_json snap feed replay q recorder uptime_s = J_Object (
     [(''uptime_s'', J_Int uptime_s),
      (''mode'', J_String (if replay = None then ''live'' else ''replay'')),
      (''processed'', J_Int (uint (es_processed_count snap))),
      (''trades_processed'', J_Int (uint (es_trades_processed snap))),
      (''signals_fired'', J_Int (uint (es_signals_fired snap))),
      (''queue_depth'', J_Int (uint (size_approx QUEUE_CAPACITY q))),
      (''latency'', J_Object [(''parse_us'', J_Int (es_last_parse_us snap)), (''queue_us'', J_Int (es_last_queue_us snap)),
         (''total_us'', J_Int (es_last_total_us snap))])]
     @ optional ''feed'' feed_json feed
     @ optional ''replay'' replay_json replay
     @ optional ''recording'' (\<lambda>lg. J_Object [(''records'', J_Int (uint (lg_record_count lg)))]) recorder
     @ [(''recent_signals'', J_Array (map signal_json (es_recent_signals snap))),
        (''symbols'', J_Array (map symbol_json (es_symbols snap)))])"

fun json_at :: "string list \<Rightarrow> json \<Rightarrow> json option" where
  "json_at [] j = Some j"
| "json_at (k # ks) (J_Object m) = (case map_of m k of None \<Rightarrow> None | Some j \<Rightarrow> json_at ks j)"
| "json_at (k # ks) j = None"

lemma top_levels_take: "0 \<le> count \<Longrightarrow> top_levels count ls = map level_json (take (nat (20 - count)) ls)"
proof (induction ls arbitrary: count)
  case (Cons l ls)
  show ?case
  proof (cases "20 < count + 1")
    case True
    then show ?thesis by simp
  next
    case False
    then have "nat (20 - count) = Suc (nat (20 - (count + 1)))" using Cons.prems by simp
    then show ?thesis using False Cons by simp
  qed
qed simp

lemma optional_lookup:
  "map_of (optional key f x) k = (if k = key then map_option f x else None)"
  by (simp add: optional_def split: option.split)

lemma stats_fields:
  "json_at [''processed''] (build_stats_json snap fd rp q rc up) = Some (J_Int (uint (es_processed_count snap)))"
  "json_at [''trades_processed''] (build_stats_json snap fd rp q rc up) = Some (J_Int (uint (es_trades_processed snap)))"
  "json_at [''queue_depth''] (build_stats_json snap fd rp q rc up) = Some (J_Int (uint (size_approx QUEUE_CAPACITY q)))"
  "json_at [''symbols''] (build_stats_json snap fd rp q rc up) = Some (J_Array (map symbol_json (es_symbols snap)))"
  "json_at [''feed'', ''received''] (build_stats_json snap fd rp q rc up) = map_option (\<lambda>f. J_Int (uint (fh_msg_count f))) fd"
  "json_at [''replay'', ''replayed''] (build_stats_json snap fd rp q rc up) = map_option (\<lambda>r. J_Int (uint (rp_replayed r))) rp"
  by (simp_all add: build_stats_json_def optional_lookup feed_json_def replay_json_def map_add_def split: option.split)

text \<open>C39: the statistics published after a run count its messages and trades, give the number of
  messages waiting, and show for every symbol the best 20 levels of each side of its book,
  best first.\<close>

theorem stats_report:
  fixes fd :: "feed option" and rp :: "replay option" and rc :: "logger option" and up :: int
  assumes "process_all ms (new_engine cs rec, clk) = Inr (e, clk')" "ms \<noteq> []" "length ms < 2 ^ 64"
    and "ring_inv QUEUE_CAPACITY q"
  defines "j \<equiv> build_stats_json (take_snapshot e) fd rp q rc up"
  shows "json_at [''processed''] j = Some (J_Int (int (length ms)))
    \<and> json_at [''trades_processed''] j = Some (J_Int (int (length (trades ms))))
    \<and> json_at [''queue_depth''] j = Some (J_Int (int (length (q_items QUEUE_CAPACITY q))))
    \<and> json_at [''symbols''] j = Some (J_Array (map symbol_json (map symbol_snapshot_of (en_states e))))
    \<and> (\<forall>(name, st) \<in> set (en_states e). json_at [''bids''] (symbol_json (symbol_snapshot_of (name, st)))
        = Some (J_Array (map level_json (take 20 (ob_bids (st_book st)))))
      \<and> json_at [''asks''] (symbol_json (symbol_snapshot_of (name, st)))
        = Some (J_Array (map level_json (take 20 (ob_asks (st_book st))))))"
proof -
  have snap: "take_snapshot e = snapshot_of e"
    using snapshot_run [OF assms(1)] assms(2) by (simp add: take_snapshot_def)
  have n: "uint (of_nat (length ms) :: u64) = int (length ms)"
    using of_nat_small [OF assms(3)] by (simp only: uint_nat)
  have "length (trades ms) \<le> length ms" by (simp add: trades_def)
  then have "length (trades ms) < 2 ^ 64" using assms(3) by linarith
  then have t: "uint (of_nat (length (trades ms)) :: u64) = int (length (trades ms))"
    using of_nat_small by (simp only: uint_nat)
  have c: "en_processed e = of_nat (length ms)" "en_trades_processed e = of_nat (length (trades ms))"
    using counters_run [OF assms(1)] by simp_all
  have d: "uint (size_approx QUEUE_CAPACITY q) = int (length (q_items QUEUE_CAPACITY q))"
    using size_approx_count [of QUEUE_CAPACITY q] assms(4) by (simp add: ring_inv_def uint_nat)
  have l: "json_at [''bids''] (symbol_json (symbol_snapshot_of (name, st))) = Some (J_Array (map level_json (take 20 (ob_bids (st_book st)))))"
    "json_at [''asks''] (symbol_json (symbol_snapshot_of (name, st))) = Some (J_Array (map level_json (take 20 (ob_asks (st_book st)))))"
    for name st
    by (simp_all add: symbol_json_def symbol_snapshot_of_def top_levels_take)
  show ?thesis
    unfolding j_def snap stats_fields by (simp add: snapshot_of_def c n t d l)
qed

section \<open>The main function\<close>

text \<open>What \<open>main\<close> does to its components, in order; \<open>Poll\<close> is its status loop.\<close>

datatype action =
    Open_Recorder bool | Load_Replay bool | Set_Speed playback_speed | Start_Replay | Start_Feed | Start_Processor
  | Start_Metrics | Start_Ws | Poll | Stop_Ws | Stop_Metrics | Stop_Replay | Stop_Feed | Stop_Processor | Close_Recorder

text \<open>The recorder, in live mode only; what a failure to open it leaves is a run without one.\<close>

definition records :: "cli_args \<Rightarrow> app_config \<Rightarrow> bool" where
  "records cli config \<longleftrightarrow> cl_replay_path cli = [] \<and> rec_enabled (ac_recording config)"

definition recorder_actions :: "cli_args \<Rightarrow> app_config \<Rightarrow> bool \<Rightarrow> action list" where
  "recorder_actions cli config recorder_opens = (if records cli config then [Open_Recorder recorder_opens] else [])"

text \<open>The source; \<open>False\<close> when a recording does not load, which ends the program.\<close>

definition source_actions :: "cli_args \<Rightarrow> bool \<Rightarrow> bool \<times> action list" where
  "source_actions cli replay_loads =
     (if cl_replay_path cli \<noteq> []
      then if \<not> replay_loads then (False, [Load_Replay False])
           else (True, [Load_Replay True, Set_Speed (cl_speed cli), Start_Replay])
      else (True, [Start_Feed]))"

definition shutdown_actions :: "cli_args \<Rightarrow> bool \<Rightarrow> action list" where
  "shutdown_actions cli recorder_open =
     [Stop_Ws, Stop_Metrics] @ (if cl_replay_path cli \<noteq> [] then [Stop_Replay] else [Stop_Feed])
     @ [Stop_Processor] @ (if recorder_open then [Close_Recorder] else [])"

text \<open>
  The environment decides whether the configuration loads, the recorder opens and the
  replay loads. The result is the exit code and the actions taken.
\<close>

definition main_program :: "cli_args \<Rightarrow> app_config loaded \<Rightarrow> bool \<Rightarrow> bool \<Rightarrow> int \<times> action list" where
  "main_program cli loaded recorder_opens replay_loads = (case loaded of
      Inl e \<Rightarrow> (1, [])
    | Inr config \<Rightarrow>
       (case source_actions cli replay_loads of (ok_source, source) \<Rightarrow>
        if \<not> ok_source then (1, recorder_actions cli config recorder_opens @ source)
        else (0, recorder_actions cli config recorder_opens @ source
          @ [Start_Processor, Start_Metrics, Start_Ws, Poll]
          @ shutdown_actions cli (records cli config \<and> recorder_opens))))"

text \<open>A run of actions: who is running, whether a recording is open; \<open>None\<close> when an action comes at
  the wrong moment.\<close>

record program_state =
  ps_source :: bool
  ps_processor :: bool
  ps_metrics :: bool
  ps_ws :: bool
  ps_recording :: bool

definition program_init :: program_state where
  "program_init = \<lparr>ps_source = False, ps_processor = False, ps_metrics = False, ps_ws = False, ps_recording = False\<rparr>"

text \<open>
  What the components rely on: the recorder is opened before the processing thread starts
  and closed after it was joined; the servers, which read the others through references,
  run only while the others do; the source is stopped before its consumer.
\<close>

definition act :: "action \<Rightarrow> program_state \<Rightarrow> program_state option" where
  "act a s = (case a of
      Open_Recorder opened \<Rightarrow> if ps_processor s then None else Some (s\<lparr>ps_recording := opened\<rparr>)
    | Load_Replay loads \<Rightarrow> if ps_source s then None else Some s
    | Set_Speed v \<Rightarrow> Some s
    | Start_Replay \<Rightarrow> if ps_source s then None else Some (s\<lparr>ps_source := True\<rparr>)
    | Start_Feed \<Rightarrow> if ps_source s then None else Some (s\<lparr>ps_source := True\<rparr>)
    | Start_Processor \<Rightarrow> if ps_processor s then None else Some (s\<lparr>ps_processor := True\<rparr>)
    | Start_Metrics \<Rightarrow> if ps_source s \<and> ps_processor s then Some (s\<lparr>ps_metrics := True\<rparr>) else None
    | Start_Ws \<Rightarrow> if ps_source s \<and> ps_processor s then Some (s\<lparr>ps_ws := True\<rparr>) else None
    | Poll \<Rightarrow> if ps_source s \<and> ps_processor s \<and> ps_ws s then Some s else None
    | Stop_Ws \<Rightarrow> if ps_ws s then Some (s\<lparr>ps_ws := False\<rparr>) else None
    | Stop_Metrics \<Rightarrow> if ps_metrics s then Some (s\<lparr>ps_metrics := False\<rparr>) else None
    | Stop_Replay \<Rightarrow> if ps_source s \<and> \<not> ps_ws s \<and> \<not> ps_metrics s then Some (s\<lparr>ps_source := False\<rparr>) else None
    | Stop_Feed \<Rightarrow> if ps_source s \<and> \<not> ps_ws s \<and> \<not> ps_metrics s then Some (s\<lparr>ps_source := False\<rparr>) else None
    | Stop_Processor \<Rightarrow> if ps_processor s \<and> \<not> ps_source s then Some (s\<lparr>ps_processor := False\<rparr>) else None
    | Close_Recorder \<Rightarrow> if ps_recording s \<and> \<not> ps_processor s then Some (s\<lparr>ps_recording := False\<rparr>) else None)"

fun act_all :: "action list \<Rightarrow> program_state \<Rightarrow> program_state option" where
  "act_all [] s = Some s"
| "act_all (a # as) s = (case act a s of None \<Rightarrow> None | Some s \<Rightarrow> act_all as s)"

text \<open>Whatever the arguments, the configuration and the outcome of opening files, \<open>main\<close> takes every
  action at a moment its components allow, and leaves nothing running and no recording
  open; it exits with 0 exactly when the configuration loaded and, in replay mode, the
  recording did; and it never records a replay.\<close>

theorem main_lifecycle:
  "act_all (snd (main_program cli loaded recorder_opens replay_loads)) program_init = Some program_init
   \<and> (fst (main_program cli loaded recorder_opens replay_loads) = 0
      \<longleftrightarrow> \<not> isl loaded \<and> (cl_replay_path cli = [] \<or> replay_loads))
   \<and> \<not> (Start_Replay \<in> set (snd (main_program cli loaded recorder_opens replay_loads))
        \<and> Open_Recorder True \<in> set (snd (main_program cli loaded recorder_opens replay_loads)))"
  by (cases loaded; cases "cl_replay_path cli = []"; cases recorder_opens; cases replay_loads)
    (auto simp: main_program_def recorder_actions_def records_def source_actions_def shutdown_actions_def
      act_def program_init_def split: if_splits)

section \<open>Concrete runs\<close>

lemma sample_main_engine:
  obtains e clk where "process_all sample_messages (new_engine main_conditions None, sample_clock) = Inr (e, clk)"
proof -
  have "list_all applicable sample_messages" by code_simp
  then have "ok (process_all sample_messages (new_engine main_conditions None, sample_clock))"
    by (simp add: engine_defined)
  then show thesis using that by (metis okE prod.collapse)
qed

theorem stats_report_witness:
  "\<exists>e clk. process_all sample_messages (new_engine main_conditions None, sample_clock) = Inr (e, clk)
    \<and> json_at [''processed''] (build_stats_json (take_snapshot e) None None (spsc_new QUEUE_CAPACITY new_message) None 7) = Some (J_Int 4)"
proof -
  obtain e clk where run: "process_all sample_messages (new_engine main_conditions None, sample_clock) = Inr (e, clk)"
    by (rule sample_main_engine)
  have v: "valid_capacity QUEUE_CAPACITY" by (simp add: valid_capacity_def QUEUE_CAPACITY_def)
  have n: "sample_messages \<noteq> []" "length sample_messages = 4" by (simp_all add: sample_messages_def)
  then have "length sample_messages < 2 ^ 64" by simp
  from stats_report [OF run n(1) this ring_new [OF v, of new_message], of None None None 7] show ?thesis
    using run n(2) by simp
qed

theorem control_harmless_witness:
  "\<exists>r. replay_load ''a.bin'' recorded_disk new_replay = (True, r)
    \<and> sys_reachable id (sys_start r (new_engine [] None, sample_clock))
        ((sys_start r (new_engine [] None, sample_clock))\<lparr>sy_replay := pause (replay_start r)\<rparr>)"
proof -
  obtain r where r: "replay_load ''a.bin'' recorded_disk new_replay = (True, r)" by (rule recorded_load)
  let ?s = "sys_start r (new_engine [] None, sample_clock)"
  have p: "replay_control (\<lambda>msg k d. Some ''pause'') ''x'' (sy_replay ?s) = pause (replay_start r)"
    by (simp add: replay_control_def sys_start_def)
  from control_harmless [OF sys_reachable.start [of id ?s], of "\<lambda>msg k d. Some ''pause''" "''x''"] show ?thesis
    unfolding p using r by blast
qed

end
