(* ===== verification/Thread_Objects.thy ===== *)
theory Thread_Objects
  imports Main_Program
begin

text \<open>
  The threads as objects: \<open>src/core/thread_utils.h\<close>, and the \<open>start\<close>, \<open>stop\<close> and destructors of the
  five classes that own a \<open>std::thread\<close>. Assigning to a thread object that is joinable, or
  destroying one, ends the program in \<open>std::terminate\<close>; the lemmas say that \<open>main\<close> never does
  either and joins every thread it starts exactly once. That the joins return is the subject
  of \<open>Replay_Program\<close> and \<open>Live_Program\<close>.
\<close>

section \<open>Names and processors of threads\<close>

datatype platform = Linux | Apple | Other_Platform

datatype thread_log = Pinned int | Pin_Failed int int | Affinity_Unsupported int

text \<open>\<open>cpu_set_t\<close> has 1024 bits; \<open>CPU_SET\<close> ignores a number outside, and a negative \<open>int\<close> is one.\<close>

type_synonym cpu_set = "int set"

definition cpu_set_add :: "int \<Rightarrow> cpu_set \<Rightarrow> cpu_set" where
  "cpu_set_add cpu s = (if 0 \<le> cpu \<and> cpu < 1024 then insert cpu s else s)"

text \<open>The system call is an argument: it maps the set to its return code.\<close>

definition set_thread_affinity :: "platform \<Rightarrow> (cpu_set \<Rightarrow> int) \<Rightarrow> int \<Rightarrow> bool \<times> thread_log" where
  "set_thread_affinity pf setaffinity cpu_id =
     (if pf = Linux
      then let cpuset = cpu_set_add cpu_id {}; rc = setaffinity cpuset
           in if rc = 0 then (True, Pinned cpu_id) else (False, Pin_Failed cpu_id rc)
      else (False, Affinity_Unsupported cpu_id))"

text \<open>The name of the calling thread afterwards. Linux refuses one of more than 15 characters, Apple one
  of more than 63, and the code does not look at the result.\<close>

definition set_thread_name :: "platform \<Rightarrow> string \<Rightarrow> string \<Rightarrow> string" where
  "set_thread_name pf name old = (case pf of
      Linux \<Rightarrow> if length name \<le> 15 then name else old
    | Apple \<Rightarrow> if length name \<le> 63 then name else old
    | Other_Platform \<Rightarrow> old)"

text \<open>A call that reports success has pinned the thread to the one processor asked for.\<close>

lemma affinity_sound:
  "fst (set_thread_affinity pf call cpu) \<longleftrightarrow> pf = Linux \<and> call (if 0 \<le> cpu \<and> cpu < 1024 then {cpu} else {}) = 0"
  by (simp add: set_thread_affinity_def cpu_set_add_def Let_def)

section \<open>Thread objects\<close>

text \<open>What happened to threads so far, in order.\<close>

datatype thread_event = Spawned string | Joined string

text \<open>A \<open>std::thread\<close> as its \<open>joinable()\<close>.\<close>

type_synonym handle = bool

type_synonym trace = "thread_event list"

definition assign_thread :: "string \<Rightarrow> handle \<times> trace \<Rightarrow> (handle \<times> trace) option" where
  "assign_thread name h = (if fst h then None else Some (True, snd h @ [Spawned name]))"

definition join_if_joinable :: "string \<Rightarrow> handle \<times> trace \<Rightarrow> handle \<times> trace" where
  "join_if_joinable name h = (if fst h then (False, snd h @ [Joined name]) else h)"

definition destroy_thread :: "handle \<times> trace \<Rightarrow> trace option" where
  "destroy_thread h = (if fst h then None else Some (snd h))"

lemma thread_simps [simp]:
  "assign_thread n (False, t) = Some (True, t @ [Spawned n])" "assign_thread n (True, t) = None"
  "join_if_joinable n h = (False, snd h @ (if fst h then [Joined n] else []))"
  "destroy_thread (False, t) = Some t" "destroy_thread (True, t) = None"
  by (cases h; simp add: assign_thread_def join_if_joinable_def destroy_thread_def)+

text \<open>
  What the owner of threads promises: in an object that satisfies its invariant and runs
  nothing, \<open>start\<close> spawns the threads of the class; \<open>stop\<close> joins whatever runs and can be
  called at any time; the destructor after a \<open>stop\<close> finds nothing to join.
\<close>

locale thread_owner =
  fixes start :: "'o \<times> trace \<Rightarrow> ('o \<times> trace) option"
    and stop :: "'o \<times> trace \<Rightarrow> 'o \<times> trace"
    and destroy :: "'o \<times> trace \<Rightarrow> trace option"
    and inv :: "'o \<Rightarrow> bool"
    and live :: "'o \<Rightarrow> bool"
    and names :: "string list"
  assumes start_idle: "inv x \<Longrightarrow> \<not> live x \<Longrightarrow> \<exists>x'. start (x, t) = Some (x', t @ map Spawned names) \<and> inv x' \<and> live x'"
    and start_live: "inv x \<Longrightarrow> live x \<Longrightarrow> start (x, t) = None"
    and stop_live: "inv x \<Longrightarrow> live x \<Longrightarrow> \<exists>x'. stop (x, t) = (x', t @ map Joined names) \<and> inv x' \<and> \<not> live x'"
    and stop_idle: "inv x \<Longrightarrow> \<not> live x \<Longrightarrow> \<exists>x'. stop (x, t) = (x', t) \<and> inv x' \<and> \<not> live x'"
    and destroys: "inv x \<Longrightarrow> destroy (x, t) = Some (snd (stop (x, t)))"
begin

text \<open>Calls in any order: \<open>True\<close> starts, \<open>False\<close> stops. They end the program exactly when a start finds
  the object running.\<close>

fun calls :: "bool list \<Rightarrow> 'o \<times> trace \<Rightarrow> ('o \<times> trace) option" where
  "calls [] st = Some st"
| "calls (c # cs) st = (if c then (case start st of None \<Rightarrow> None | Some st \<Rightarrow> calls cs st) else calls cs (stop st))"

fun no_restart :: "bool \<Rightarrow> bool list \<Rightarrow> bool" where
  "no_restart l [] = True"
| "no_restart l (c # cs) = (if c then \<not> l \<and> no_restart True cs else no_restart False cs)"

lemma calls_safe:
  "inv x \<Longrightarrow> no_restart (live x) cs \<longleftrightarrow> calls cs (x, t) \<noteq> None"
proof (induction cs arbitrary: x t)
  case (Cons c cs)
  show ?case
  proof (cases c)
    case True
    show ?thesis
    proof (cases "live x")
      case l: True
      then show ?thesis using start_live [OF Cons.prems l, of t] True by simp
    next
      case l: False
      obtain x' where "start (x, t) = Some (x', t @ map Spawned names)" "inv x'" "live x'"
        using start_idle [OF Cons.prems l] by blast
      then show ?thesis using Cons.IH [of x'] True l by simp
    qed
  next
    case False
    obtain x' t' where "stop (x, t) = (x', t')" "inv x'" "\<not> live x'"
      using stop_live [OF Cons.prems, of t] stop_idle [OF Cons.prems, of t] by (cases "live x") blast+
    then show ?thesis using Cons.IH [of x' t'] False by simp
  qed
qed simp

lemma stop_twice:
  assumes "inv x" shows "snd (stop (stop (x, t))) = snd (stop (x, t))"
proof -
  obtain x' t' where "stop (x, t) = (x', t')" "inv x'" "\<not> live x'"
    using stop_live [OF assms, of t] stop_idle [OF assms, of t] by (cases "live x") blast+
  then show ?thesis using stop_idle [of x' t'] by auto
qed

text \<open>Every thread that calls spawn is joined once: a run of the object adds the two lists alternately.\<close>

lemma start_stop_destroy:
  assumes "inv x" "\<not> live x"
  shows "\<exists>x1 x2. start (x, t) = Some (x1, t @ map Spawned names)
    \<and> stop (x1, t') = (x2, t' @ map Joined names) \<and> destroy (x2, t'') = Some t''"
proof -
  obtain x1 where x1: "start (x, t) = Some (x1, t @ map Spawned names)" "inv x1" "live x1" using start_idle [OF assms] by blast
  obtain x2 where x2: "stop (x1, t') = (x2, t' @ map Joined names)" "inv x2" "\<not> live x2" using stop_live [OF x1(2,3)] by blast
  have "destroy (x2, t'') = Some t''" using destroys [OF x2(2), of t''] stop_idle [OF x2(2,3), of t''] by auto
  then show ?thesis using x1(1) x2(1) by blast
qed

end

section \<open>The five classes\<close>

text \<open>\<open>ProcessingThread\<close>: nothing but its thread.\<close>

definition processing_start :: "handle \<times> trace \<Rightarrow> (handle \<times> trace) option" where
  "processing_start = assign_thread ''mde_process''"

definition processing_stop :: "handle \<times> trace \<Rightarrow> handle \<times> trace" where
  "processing_stop = join_if_joinable ''mde_process''"

definition processing_destroy :: "handle \<times> trace \<Rightarrow> trace option" where
  "processing_destroy h = destroy_thread (processing_stop h)"

interpretation processing: thread_owner processing_start processing_stop processing_destroy "\<lambda>h. True" "\<lambda>h. h" "[''mde_process'']"
  by unfold_locales
    (auto simp: processing_start_def processing_stop_def processing_destroy_def intro: exI [of _ True] exI [of _ False])

text \<open>\<open>FeedHandler\<close>: the client that \<open>start\<close> makes, as its \<open>stopped_\<close>, and the thread.\<close>

record feed_object =
  fo_client :: "bool option"
  fo_thread :: handle

definition new_feed_object :: feed_object where
  "new_feed_object = \<lparr>fo_client = None, fo_thread = False\<rparr>"

definition feed_start :: "feed_object \<times> trace \<Rightarrow> (feed_object \<times> trace) option" where
  "feed_start x = map_option (\<lambda>(th, t). ((fst x)\<lparr>fo_client := Some False, fo_thread := th\<rparr>, t))
     (assign_thread ''mde_feed'' (fo_thread (fst x), snd x))"

definition feed_stop :: "feed_object \<times> trace \<Rightarrow> feed_object \<times> trace" where
  "feed_stop x = (case join_if_joinable ''mde_feed'' (fo_thread (fst x), snd x) of
      (th, t) \<Rightarrow> ((fst x)\<lparr>fo_client := map_option (\<lambda>stopped. True) (fo_client (fst x)), fo_thread := th\<rparr>, t))"

definition feed_destroy :: "feed_object \<times> trace \<Rightarrow> trace option" where
  "feed_destroy x = (case feed_stop x of (f, t) \<Rightarrow> destroy_thread (fo_thread f, t))"

interpretation feed_owner: thread_owner feed_start feed_stop feed_destroy "\<lambda>f. True" fo_thread "[''mde_feed'']"
  by unfold_locales (auto simp: feed_start_def feed_stop_def feed_destroy_def assign_thread_def split: prod.split)

text \<open>\<open>ReplayEngine\<close>: its fields, and the thread. \<open>stop\<close> resumes, joins, and closes the reader.\<close>

record replay_object =
  ro_replay :: replay
  ro_thread :: handle

definition replay_object_start :: "replay_object \<times> trace \<Rightarrow> (replay_object \<times> trace) option" where
  "replay_object_start x = map_option (\<lambda>(th, t). (\<lparr>ro_replay = replay_start (ro_replay (fst x)), ro_thread = th\<rparr>, t))
     (assign_thread ''replay'' (ro_thread (fst x), snd x))"

definition replay_object_stop :: "replay_object \<times> trace \<Rightarrow> replay_object \<times> trace" where
  "replay_object_stop x = (case join_if_joinable ''replay'' (ro_thread (fst x), snd x) of
      (th, t) \<Rightarrow> (\<lparr>ro_replay = replay_stop (ro_replay (fst x)), ro_thread = th\<rparr>, t))"

definition replay_object_destroy :: "replay_object \<times> trace \<Rightarrow> trace option" where
  "replay_object_destroy x = (case replay_object_stop x of (r, t) \<Rightarrow> destroy_thread (ro_thread r, t))"

interpretation replay_owner: thread_owner replay_object_start replay_object_stop replay_object_destroy
  "\<lambda>r. True" ro_thread "[''replay'']"
  by unfold_locales
    (auto simp: replay_object_start_def replay_object_stop_def replay_object_destroy_def assign_thread_def split: prod.split)

text \<open>\<open>MetricsServer\<close>: its flag, the stopped state of its \<open>io_context\<close>, which nothing clears, and the thread.\<close>

record metrics_object =
  mo_running :: bool
  mo_io_stopped :: bool
  mo_thread :: handle

definition new_metrics_object :: metrics_object where
  "new_metrics_object = \<lparr>mo_running = False, mo_io_stopped = False, mo_thread = False\<rparr>"

definition metrics_object_start :: "metrics_object \<times> trace \<Rightarrow> (metrics_object \<times> trace) option" where
  "metrics_object_start x = map_option (\<lambda>(th, t). ((fst x)\<lparr>mo_running := True, mo_thread := th\<rparr>, t))
     (assign_thread ''metrics'' (mo_thread (fst x), snd x))"

definition metrics_object_stop :: "metrics_object \<times> trace \<Rightarrow> metrics_object \<times> trace" where
  "metrics_object_stop x =
     (if \<not> mo_running (fst x) then x
      else case join_if_joinable ''metrics'' (mo_thread (fst x), snd x) of
        (th, t) \<Rightarrow> (\<lparr>mo_running = False, mo_io_stopped = True, mo_thread = th\<rparr>, t))"

definition metrics_object_destroy :: "metrics_object \<times> trace \<Rightarrow> trace option" where
  "metrics_object_destroy x = (case metrics_object_stop x of (m, t) \<Rightarrow> destroy_thread (mo_thread m, t))"

interpretation metrics_owner: thread_owner metrics_object_start metrics_object_stop metrics_object_destroy
  "\<lambda>m. mo_running m = mo_thread m" mo_thread "[''metrics'']"
  by unfold_locales
    (auto simp: metrics_object_start_def metrics_object_stop_def metrics_object_destroy_def assign_thread_def split: prod.split)

text \<open>Whether its thread serves requests after \<open>start\<close>: \<open>ioc_.run()\<close> of a stopped context returns at once.\<close>

definition serves :: "metrics_object \<Rightarrow> bool" where
  "serves m \<longleftrightarrow> mo_running m \<and> mo_thread m \<and> \<not> mo_io_stopped m"

lemma restarted_server_is_dead:
  assumes "metrics_object_start (new_metrics_object, t) = Some (m1, t1)" "metrics_object_start (metrics_object_stop (m1, t1)) = Some (m2, t2)"
  shows "serves m1" "mo_running m2 \<and> \<not> serves m2"
  using assms
  by (auto simp: serves_def metrics_object_start_def metrics_object_stop_def new_metrics_object_def assign_thread_def)

text \<open>\<open>WsServer\<close>: the same with two threads.\<close>

record ws_object =
  wo_running :: bool
  wo_io_stopped :: bool
  wo_accept :: handle
  wo_broadcast :: handle

definition new_ws_object :: ws_object where
  "new_ws_object = \<lparr>wo_running = False, wo_io_stopped = False, wo_accept = False, wo_broadcast = False\<rparr>"

definition ws_object_start :: "ws_object \<times> trace \<Rightarrow> (ws_object \<times> trace) option" where
  "ws_object_start x = (case assign_thread ''accept'' (wo_accept (fst x), snd x) of
      None \<Rightarrow> None
    | Some (a, t) \<Rightarrow> map_option (\<lambda>(b, t). ((fst x)\<lparr>wo_running := True, wo_accept := a, wo_broadcast := b\<rparr>, t))
        (assign_thread ''broadcast'' (wo_broadcast (fst x), t)))"

definition ws_object_stop :: "ws_object \<times> trace \<Rightarrow> ws_object \<times> trace" where
  "ws_object_stop x =
     (if \<not> wo_running (fst x) then x
      else case join_if_joinable ''accept'' (wo_accept (fst x), snd x) of (a, t) \<Rightarrow>
           case join_if_joinable ''broadcast'' (wo_broadcast (fst x), t) of (b, t) \<Rightarrow>
           (\<lparr>wo_running = False, wo_io_stopped = True, wo_accept = a, wo_broadcast = b\<rparr>, t))"

definition ws_object_destroy :: "ws_object \<times> trace \<Rightarrow> trace option" where
  "ws_object_destroy x = (case ws_object_stop x of (w, t) \<Rightarrow>
     (case destroy_thread (wo_broadcast w, t) of None \<Rightarrow> None | Some t \<Rightarrow> destroy_thread (wo_accept w, t)))"

interpretation ws_owner: thread_owner ws_object_start ws_object_stop ws_object_destroy
  "\<lambda>w. wo_running w = wo_accept w \<and> wo_running w = wo_broadcast w" wo_running "[''accept'', ''broadcast'']"
  by unfold_locales
    (auto simp: ws_object_start_def ws_object_stop_def ws_object_destroy_def assign_thread_def split: prod.split)

section \<open>The objects of main\<close>

text \<open>\<open>None\<close>: not constructed. The processing thread's object is constructed before anything starts.\<close>

record main_objects =
  mn_processor :: handle
  mn_feed :: "feed_object option"
  mn_replay :: "replay_object option"
  mn_metrics :: "metrics_object option"
  mn_ws :: "ws_object option"

definition no_objects :: main_objects where
  "no_objects = \<lparr>mn_processor = False, mn_feed = None, mn_replay = None, mn_metrics = None, mn_ws = None\<rparr>"

definition on_object :: "('o \<Rightarrow> 'm) \<Rightarrow> ('o \<times> trace) option \<Rightarrow> ('m \<times> trace) option" where
  "on_object upd r = map_option (\<lambda>(x, t). (upd x, t)) r"

text \<open>A call through a pointer that is null is no step of the program either.\<close>

definition stop_object :: "('o \<Rightarrow> 'm) \<Rightarrow> ('o \<times> trace \<Rightarrow> 'o \<times> trace) \<Rightarrow> 'o option \<Rightarrow> trace \<Rightarrow> ('m \<times> trace) option" where
  "stop_object upd stop x t = (case x of None \<Rightarrow> None | Some x \<Rightarrow> on_object upd (Some (stop (x, t))))"

definition run_action :: "replay \<Rightarrow> action \<Rightarrow> main_objects \<times> trace \<Rightarrow> (main_objects \<times> trace) option" where
  "run_action loaded a st = (case st of (m, t) \<Rightarrow> (case a of
      Load_Replay loads \<Rightarrow> Some (m\<lparr>mn_replay := Some \<lparr>ro_replay = loaded, ro_thread = False\<rparr>\<rparr>, t)
    | Set_Speed v \<Rightarrow> (case mn_replay m of None \<Rightarrow> None
        | Some r \<Rightarrow> Some (m\<lparr>mn_replay := Some (r\<lparr>ro_replay := set_speed v (ro_replay r)\<rparr>)\<rparr>, t))
    | Start_Replay \<Rightarrow> (case mn_replay m of None \<Rightarrow> None
        | Some r \<Rightarrow> on_object (\<lambda>r. m\<lparr>mn_replay := Some r\<rparr>) (replay_object_start (r, t)))
    | Start_Feed \<Rightarrow> on_object (\<lambda>f. m\<lparr>mn_feed := Some f\<rparr>) (feed_start (new_feed_object, t))
    | Start_Processor \<Rightarrow> on_object (\<lambda>h. m\<lparr>mn_processor := h\<rparr>) (processing_start (mn_processor m, t))
    | Start_Metrics \<Rightarrow> on_object (\<lambda>x. m\<lparr>mn_metrics := Some x\<rparr>) (metrics_object_start (new_metrics_object, t))
    | Start_Ws \<Rightarrow> on_object (\<lambda>x. m\<lparr>mn_ws := Some x\<rparr>) (ws_object_start (new_ws_object, t))
    | Stop_Ws \<Rightarrow> stop_object (\<lambda>x. m\<lparr>mn_ws := Some x\<rparr>) ws_object_stop (mn_ws m) t
    | Stop_Metrics \<Rightarrow> stop_object (\<lambda>x. m\<lparr>mn_metrics := Some x\<rparr>) metrics_object_stop (mn_metrics m) t
    | Stop_Replay \<Rightarrow> stop_object (\<lambda>x. m\<lparr>mn_replay := Some x\<rparr>) replay_object_stop (mn_replay m) t
    | Stop_Feed \<Rightarrow> stop_object (\<lambda>x. m\<lparr>mn_feed := Some x\<rparr>) feed_stop (mn_feed m) t
    | Stop_Processor \<Rightarrow> on_object (\<lambda>h. m\<lparr>mn_processor := h\<rparr>) (Some (processing_stop (mn_processor m, t)))
    | _ \<Rightarrow> Some (m, t)))"

fun run_actions :: "replay \<Rightarrow> action list \<Rightarrow> main_objects \<times> trace \<Rightarrow> (main_objects \<times> trace) option" where
  "run_actions loaded [] st = Some st"
| "run_actions loaded (a # as) st = (case run_action loaded a st of None \<Rightarrow> None | Some st \<Rightarrow> run_actions loaded as st)"

definition destroy_option :: "('o \<times> trace \<Rightarrow> trace option) \<Rightarrow> 'o option \<Rightarrow> trace option \<Rightarrow> trace option" where
  "destroy_option destroy x t = (case t of None \<Rightarrow> None | Some t \<Rightarrow> (case x of None \<Rightarrow> Some t | Some x \<Rightarrow> destroy (x, t)))"

text \<open>The end of the scope of \<open>main\<close>: the destructors, in reverse order of construction.\<close>

definition destroy_objects :: "main_objects \<times> trace \<Rightarrow> trace option" where
  "destroy_objects st = (case st of (m, t) \<Rightarrow>
     destroy_option processing_destroy (Some (mn_processor m))
       (destroy_option feed_destroy (mn_feed m)
         (destroy_option replay_object_destroy (mn_replay m)
           (destroy_option metrics_object_destroy (mn_metrics m)
             (destroy_option ws_object_destroy (mn_ws m) (Some t))))))"

lemmas owner_defs = processing_start_def processing_stop_def processing_destroy_def feed_start_def feed_stop_def
  feed_destroy_def new_feed_object_def replay_object_start_def replay_object_stop_def replay_object_destroy_def
  metrics_object_start_def metrics_object_stop_def metrics_object_destroy_def new_metrics_object_def
  ws_object_start_def ws_object_stop_def ws_object_destroy_def new_ws_object_def

text \<open>The threads of a run: those of the source and of the servers around that of the engine.\<close>

definition thread_order :: "string \<Rightarrow> trace" where
  "thread_order source = map Spawned [source, ''mde_process'', ''metrics'', ''accept'', ''broadcast'']
     @ map Joined [''accept'', ''broadcast'', ''metrics'', source, ''mde_process'']"

text \<open>C24: Whatever the command line, the configuration and the files: no call of \<open>main\<close> and no destructor at its
  end meets a joinable thread object it must not meet. A run that ends with 0 spawns five
  threads and has joined them all, the servers first and the engine last; one that ends with
  1 spawns none.\<close>

theorem main_threads:
  "\<exists>st. run_actions loaded (snd (main_program cli config recorder_opens replay_loads)) (no_objects, []) = Some st
    \<and> destroy_objects st = Some (snd st)
    \<and> snd st = (if fst (main_program cli config recorder_opens replay_loads) \<noteq> 0 then []
         else thread_order (if cl_replay_path cli = [] then ''mde_feed'' else ''replay''))"
  by (cases config; cases "cl_replay_path cli = []"; cases recorder_opens; cases replay_loads)
    (auto simp: main_program_def recorder_actions_def source_actions_def shutdown_actions_def no_objects_def
      run_action_def on_object_def stop_object_def destroy_objects_def destroy_option_def owner_defs thread_order_def)

text \<open>The names given to threads fit the limit of Linux.\<close>

lemma names_fit: "set_thread_name Linux ''mde_process'' old = ''mde_process''" "set_thread_name Linux ''mde_feed'' old = ''mde_feed''"
  by (simp_all add: set_thread_name_def)

end
