(* ===== verification/Status_Lines.thy ===== *)
theory Status_Lines
  imports Live_Program Ws_Server
begin

text \<open>
  The lines of the log that carry numbers: the status that \<open>main\<close> writes every five seconds, in both
  modes, and the sampled debug lines of the processing thread. The lemmas say how the counters of
  a status relate and exactly which messages get a debug line. The numbers are those that
  are formatted; the text around them is left out.
\<close>

section \<open>The status of main\<close>

definition latencies :: "engine \<Rightarrow> int \<times> int \<times> int" where
  "latencies e = (en_last_parse_us e, en_last_queue_us e, en_last_total_us e)"

record live_status =
  ls_recv :: u64
  ls_processed :: u64
  ls_trades :: u64
  ls_signals :: u64
  ls_parse_err :: u64
  ls_queue_full :: u64
  ls_queue_depth :: u64
  ls_ws_clients :: nat
  ls_rec :: "u32 option"
  ls_latency :: "int \<times> int \<times> int"

definition live_status_of :: "feed \<Rightarrow> engine \<Rightarrow> queue_message spsc \<Rightarrow> ws_server \<Rightarrow> live_status" where
  "live_status_of f e q ws = \<lparr>ls_recv = fh_msg_count f, ls_processed = en_processed e,
     ls_trades = en_trades_processed e, ls_signals = sk_signals_fired (en_sink e),
     ls_parse_err = fh_parse_errors f, ls_queue_full = fh_queue_full f, ls_queue_depth = size_approx QUEUE_CAPACITY q,
     ls_ws_clients = client_count ws, ls_rec = map_option (\<lambda>(lg, dk). lg_record_count lg) (en_recorder e),
     ls_latency = latencies e\<rparr>"

record replay_status =
  rs_replayed :: u64
  rs_total :: u64
  rs_processed :: u64
  rs_signals :: u64
  rs_queue_depth :: u64
  rs_ws_clients :: nat
  rs_finished :: bool
  rs_latency :: "int \<times> int \<times> int"

definition replay_status_of :: "replay \<Rightarrow> engine \<Rightarrow> queue_message spsc \<Rightarrow> ws_server \<Rightarrow> replay_status" where
  "replay_status_of r e q ws = \<lparr>rs_replayed = rp_replayed r, rs_total = rp_total r, rs_processed = en_processed e,
     rs_signals = sk_signals_fired (en_sink e), rs_queue_depth = size_approx QUEUE_CAPACITY q,
     rs_ws_clients = client_count ws, rs_finished = rp_finished r, rs_latency = latencies e\<rparr>"

lemma depth_word: "ring_inv QUEUE_CAPACITY q \<Longrightarrow> size_approx QUEUE_CAPACITY q = of_nat (length (q_items QUEUE_CAPACITY q))"
  using size_approx_count [of QUEUE_CAPACITY q]
  by (simp add: ring_inv_def flip: word_of_nat_eq_iff) (metis of_nat_unat ucast_id)


text \<open>The same for a replay.\<close>

theorem replay_status_adds_up:
  fixes ws :: ws_server
  assumes "ahead (rp_reader r) es" "list_all wf_entry es"
    and "main_steps (replay_host moved) (main_start (pipeline_start (sys_start r (new_engine conds None, clk)))) p"
  defines "s \<equiv> pl_sys (mr_state p)"
  defines "l \<equiv> replay_status_of (sy_replay s) (fst (sy_world s)) (sy_queue s) ws"
  shows "rs_replayed l = rs_processed l + rs_queue_depth l \<and> (rs_finished l \<longrightarrow> rs_replayed l = of_nat (length es))"
proof -
  have "replay_main.main_inv moved es conds p"
    by (rule replay_main.main_inv_steps [OF assms(3)], rule replay_main.main_inv_start [OF replay_ok_start [OF assms(1,2)]])
      (simp add: pipeline_start_def sys_start_def)
  then have inv: "replay_inv es conds s" by (simp add: replay_main.main_inv_def replay_ok_def s_def)
  have "rs_replayed l = rs_processed l + rs_queue_depth l"
    using inv engine_after_counts [of conds None "sy_handled s" "fst (sy_world s)"] depth_word [of "sy_queue s"]
    by (simp add: l_def replay_status_of_def replay_inv_def)
  moreover have "rs_replayed l = of_nat (length es)" if "rs_finished l"
  proof -
    have "rp_finished (sy_replay s)" using that by (simp add: l_def replay_status_of_def)
    then have "length (sy_handled s @ q_items QUEUE_CAPACITY (sy_queue s)) = length es"
      using inv finished_returned [OF inv] by (auto simp: replay_inv_def underway_def in_hand_def dest: list_all2_lengthD)
    then show ?thesis using inv by (simp add: l_def replay_status_of_def replay_inv_def flip: of_nat_add)
  qed
  ultimately show ?thesis by blast
qed

section \<open>The debug lines of the processing thread\<close>

definition sampled :: "u64 \<Rightarrow> u64 \<Rightarrow> bool" where
  "sampled every count \<longleftrightarrow> count \<le> 3 \<or> count mod every = 0"

record depth_line =
  dl_number :: u64
  dl_symbol :: string
  dl_bid :: double
  dl_ask :: double
  dl_spread :: double
  dl_mid_sma :: double
  dl_imbalance :: double
  dl_latency :: "int \<times> int \<times> int"

record trade_line =
  tl_number :: u64
  tl_symbol :: string
  tl_price :: double
  tl_qty :: double
  tl_sell :: bool
  tl_imbalance :: double
  tl_vol :: double
  tl_vol_sma :: double
  tl_latency :: "int \<times> int"

datatype debug_line = Depth_Line depth_line | Trade_Line trade_line

text \<open>The line of a message that was handled, from the engine after it: the counters were raised
  before, and nothing after the line changes what it shows.\<close>

definition debug_lines :: "queue_message \<Rightarrow> engine \<Rightarrow> debug_line list" where
  "debug_lines m e = (case msg_type m of
      DEPTH_UPDATE \<Rightarrow>
        (let u = msg_depth m; st = state_of (du_symbol u) e; snap = ag_snapshot (st_aggregator st)
         in if sampled 100 (en_processed e)
            then [Depth_Line \<lparr>dl_number = en_processed e, dl_symbol = du_symbol u,
                    dl_bid = best_bid_price (st_book st), dl_ask = best_ask_price (st_book st),
                    dl_spread = as_spread snap, dl_mid_sma = as_mid_price_sma snap, dl_imbalance = as_imbalance snap,
                    dl_latency = (elapsed_us (du_received u) (du_parsed u), elapsed_us (du_parsed u) (du_dequeued u),
                      elapsed_us (du_received u) (du_dequeued u))\<rparr>]
            else [])
    | TRADE \<Rightarrow>
        (let t = msg_trade m; snap = ta_snap (st_trade_aggregator (state_of (tr_symbol t) e))
         in if sampled 500 (en_trades_processed e)
            then [Trade_Line \<lparr>tl_number = en_trades_processed e, tl_symbol = tr_symbol t, tl_price = tr_price t,
                    tl_qty = tr_quantity t, tl_sell = tr_is_buyer_maker t, tl_imbalance = ts_trade_imbalance snap,
                    tl_vol = ts_total_volume snap, tl_vol_sma = ts_volume_sma snap,
                    tl_latency = (elapsed_us (tr_received t) (tr_parsed t), elapsed_us (tr_received t) (tr_dequeued t))\<rparr>]
            else []))"

text \<open>The debug log of a run.\<close>

fun debug_log :: "queue_message list \<Rightarrow> world \<Rightarrow> debug_line list" where
  "debug_log [] w = []"
| "debug_log (m # ms) w = (case handle m w of
      Inl f \<Rightarrow> []
    | Inr w' \<Rightarrow> debug_lines (stamp_dequeued (fst (now (snd w))) m) (fst w') @ debug_log ms w')"

definition depth_numbers :: "debug_line list \<Rightarrow> u64 list" where
  "depth_numbers ls = concat (map (\<lambda>l. case l of Depth_Line d \<Rightarrow> [dl_number d] | Trade_Line t \<Rightarrow> []) ls)"

definition trade_numbers :: "debug_line list \<Rightarrow> u64 list" where
  "trade_numbers ls = concat (map (\<lambda>l. case l of Depth_Line d \<Rightarrow> [] | Trade_Line t \<Rightarrow> [tl_number t]) ls)"

lemma numbers_append [simp]:
  "depth_numbers (xs @ ys) = depth_numbers xs @ depth_numbers ys"
  "trade_numbers (xs @ ys) = trade_numbers xs @ trade_numbers ys"
  by (simp_all add: depth_numbers_def trade_numbers_def)

lemma numbers_Nil [simp]: "depth_numbers [] = []" "trade_numbers [] = []"
  by (simp_all add: depth_numbers_def trade_numbers_def)

lemma debug_log_snoc:
  assumes "process_all ms w0 = Inr w" "handle m w = Inr w'"
  shows "debug_log (ms @ [m]) w0 = debug_log ms w0 @ debug_lines (stamp_dequeued (fst (now (snd w))) m) (fst w')"
  using assms(1)
proof (induction ms arbitrary: w0)
  case Nil
  then show ?case using assms(2) by simp
next
  case (Cons x xs)
  then obtain w1 where "handle x w0 = Inr w1" "process_all xs w1 = Inr w" by (auto simp: process_all_def res_simps)
  then show ?case using Cons.IH by simp
qed

lemma sampled_nat:
  assumes "n < 2 ^ 64" "every < 2 ^ 64" "0 < every"
  shows "sampled (of_nat every) (of_nat n) \<longleftrightarrow> n \<le> 3 \<or> every dvd n"
proof -
  have u: "unat (of_nat k :: u64) = k" if "k < 2 ^ 64" for k
    using that by (simp add: unsigned_of_nat take_bit_nat_eq_self)
  have "(of_nat n :: u64) mod of_nat every = of_nat (n mod every)"
    using assms by (simp add: word_arith_nat_mod u)
  moreover have "(of_nat k :: u64) = 0 \<longleftrightarrow> k = 0" if "k < 2 ^ 64" for k using u [OF that] by auto
  moreover have "n mod every < 2 ^ 64" using mod_less_divisor [OF assms(3), of n] assms(2) by linarith
  ultimately have "(of_nat n :: u64) mod of_nat every = 0 \<longleftrightarrow> n mod every = 0" by simp
  then have "(of_nat n :: u64) mod of_nat every = 0 \<longleftrightarrow> every dvd n" by (simp add: dvd_eq_mod_eq_0)
  then show ?thesis using u [OF assms(1)] by (simp add: sampled_def word_le_nat_alt)
qed

lemma stamp_type [simp]: "msg_type (stamp_dequeued t m) = msg_type m"
  by (cases "msg_type m") (simp_all add: stamp_dequeued_def)

lemma line_numbers:
  "depth_numbers (debug_lines m e) = (if is_depth m \<and> sampled 100 (en_processed e) then [en_processed e] else [])"
  "trade_numbers (debug_lines m e) = (if \<not> is_depth m \<and> sampled 500 (en_trades_processed e) then [en_trades_processed e] else [])"
  by (cases "msg_type m"; simp add: debug_lines_def Let_def depth_numbers_def trade_numbers_def is_depth_def)+

text \<open>The places, counted from one, of the messages and of the trades that get a line.\<close>

definition depth_due :: "queue_message list \<Rightarrow> nat list" where
  "depth_due ms = filter (\<lambda>k. is_depth (ms ! (k - 1)) \<and> (k \<le> 3 \<or> 100 dvd k)) [1..<Suc (length ms)]"

definition trade_due :: "nat \<Rightarrow> nat list" where
  "trade_due n = filter (\<lambda>k. k \<le> 3 \<or> 500 dvd k) [1..<Suc n]"

lemma depth_due_snoc:
  "depth_due (ms @ [m]) = depth_due ms
     @ (if is_depth m \<and> (Suc (length ms) \<le> 3 \<or> 100 dvd Suc (length ms)) then [Suc (length ms)] else [])"
proof -
  have "filter (\<lambda>k. is_depth ((ms @ [m]) ! (k - 1)) \<and> (k \<le> 3 \<or> 100 dvd k)) [1..<Suc (length ms)] = depth_due ms"
    unfolding depth_due_def by (rule filter_cong) (auto simp: nth_append)
  moreover have "[1..<Suc (length (ms @ [m]))] = [1..<Suc (length ms)] @ [Suc (length ms)]" by simp
  ultimately show ?thesis unfolding depth_due_def [of "ms @ [m]"] by (simp only: filter_append) simp
qed

lemma trade_due_Suc: "trade_due (Suc n) = trade_due n @ (if Suc n \<le> 3 \<or> 500 dvd Suc n then [Suc n] else [])"
  by (simp add: trade_due_def)

lemma due_Nil [simp]: "depth_due [] = []" "trade_due 0 = []"
  by (simp_all add: depth_due_def trade_due_def)

text \<open>Which messages of a run get a line: the depth updates among the first three messages and at every
  hundredth, and the first three trades and every five hundredth. The number on the line of a
  depth update is its place among all messages, trades included.\<close>

theorem debug_sampling:
  assumes "process_all ms (new_engine conds rec, clk) = Inr w" "length ms < 2 ^ 64"
  defines "lines \<equiv> debug_log ms (new_engine conds rec, clk)"
  shows "depth_numbers lines = map of_nat (depth_due ms)
    \<and> trade_numbers lines = map of_nat (trade_due (length (trades ms)))"
  using assms(1,2) unfolding lines_def
proof (induction ms arbitrary: w rule: rev_induct)
  case Nil
  show ?case by (simp add: trades_def)
next
  case (snoc m ms)
  from snoc.prems(1) obtain w1 where w1: "process_all ms (new_engine conds rec, clk) = Inr w1" "handle m w1 = Inr w"
    by (auto simp: process_all_snoc res_simps)
  let ?n = "Suc (length ms)" and ?t = "length (trades (ms @ [m]))"
  have c: "en_processed (fst w) = of_nat ?n" "en_trades_processed (fst w) = of_nat ?t"
    using counters_run [OF snoc.prems(1)] by (simp_all del: of_nat_Suc)
  have t: "?t < 2 ^ 64" using snoc.prems(2) length_filter_le [of "\<lambda>m. \<not> is_depth m" "ms @ [m]"]
    by (simp only: trades_def length_map)
  have s: "sampled 100 (en_processed (fst w)) \<longleftrightarrow> ?n \<le> 3 \<or> 100 dvd ?n"
    "sampled 500 (en_trades_processed (fst w)) \<longleftrightarrow> ?t \<le> 3 \<or> 500 dvd ?t"
    unfolding c using sampled_nat [of ?n 100] sampled_nat [of ?t 500] snoc.prems(2) t by (simp_all del: of_nat_Suc)
  have len: "?t = (if is_depth m then length (trades ms) else Suc (length (trades ms)))" by (simp add: trades_def)
  have "trade_due ?t = trade_due (length (trades ms)) @ (if \<not> is_depth m \<and> (?t \<le> 3 \<or> 500 dvd ?t) then [?t] else [])"
    unfolding len by (simp only: trade_due_Suc if_True if_False split: if_split) simp
  then show ?case
    using snoc.IH [OF w1(1)] snoc.prems(2)
    unfolding debug_log_snoc [OF w1] numbers_append line_numbers stamp_transparent s depth_due_snoc map_append
    unfolding c
    by (simp del: of_nat_Suc)
qed

section \<open>Concrete logs\<close>


text \<open>Three trades and a depth update: each trade has its line, the depth update has none.\<close>

definition trades_then_depth :: "queue_message list" where
  "trades_then_depth = map (\<lambda>t. trade_message (sample_trade t 1 True)) [1000, 1001, 1002] @ [depth_message sample_update]"

theorem debug_sampling_witness:
  "depth_numbers (debug_log trades_then_depth (new_engine [] None, sample_clock)) = []
    \<and> trade_numbers (debug_log trades_then_depth (new_engine [] None, sample_clock)) = [1, 2, 3]"
proof -
  have "list_all applicable trades_then_depth" by code_simp
  then have "ok (process_all trades_then_depth (new_engine [] None, sample_clock))" by (simp add: engine_defined)
  then obtain w where w: "process_all trades_then_depth (new_engine [] None, sample_clock) = Inr w" by (auto simp: ok_def split: sum.splits)
  have "depth_due trades_then_depth = []" "length (trades trades_then_depth) = 3" "length trades_then_depth = 4"
    "trade_due 3 = [1, 2, 3]" by code_simp+
  with debug_sampling [OF w] show ?thesis by simp
qed

end
