(* ===== verification/Bench_Queue.thy ===== *)
theory Bench_Queue
  imports Processing_Thread "HOL-Library.Multiset"
begin

text \<open>
  \<open>bench/bench_queue.cpp\<close>: the drivers that measure the ring, and the percentiles that they and
  \<open>bench/bench_e2e.cpp\<close> report. An iteration count of the benchmark library is an argument.
  The lemmas say that what is measured is what the benchmarks mean to measure: every push
  and pop of a burst does its work, and the reported percentiles are order statistics of
  the collected latencies.
\<close>

section \<open>Percentiles of latencies\<close>

record percentiles =
  pc_p50 :: int
  pc_p99 :: int
  pc_p999 :: int

definition at_index :: "'a list \<Rightarrow> u64 \<Rightarrow> 'a res" where
  "at_index xs i = (if unat i < length xs then Inr (xs ! unat i) else Inl Out_Of_Bounds)"

definition vector_size :: "'a list \<Rightarrow> u64" where
  "vector_size xs = of_nat (length xs)"

definition latency_percentiles :: "int list \<Rightarrow> percentiles option res" where
  "latency_percentiles latencies =
     (if latencies = [] then Inr None
      else let s = sort latencies
           in bind_res (at_index s (vector_size s * 50 div 100)) (\<lambda>p50.
              bind_res (at_index s (vector_size s * 99 div 100)) (\<lambda>p99.
              bind_res (at_index s (vector_size s * 999 div 1000)) (\<lambda>p999.
              Inr (Some \<lparr>pc_p50 = p50, pc_p99 = p99, pc_p999 = p999\<rparr>)))))"

lemma length_filter_mset: "mset xs = mset ys \<Longrightarrow> length (filter P xs) = length (filter P ys)"
  by (metis mset_filter size_mset)

text \<open>The two ranks of the element at an index of the sorted list.\<close>

lemma sorted_ranks:
  fixes s :: "int list"
  assumes "sorted s" "i < length s"
  shows "Suc i \<le> length (filter (\<lambda>x. x \<le> s ! i) s)" "length s - i \<le> length (filter (\<lambda>x. s ! i \<le> x) s)"
proof -
  have "\<forall>x\<in>set (take (Suc i) s). x \<le> s ! i"
    using assms by (auto simp: in_set_conv_nth less_Suc_eq_le sorted_iff_nth_mono)
  then have "filter (\<lambda>x. x \<le> s ! i) (take (Suc i) s) = take (Suc i) s" by (simp add: filter_id_conv)
  moreover have "length (filter (\<lambda>x. x \<le> s ! i) s)
      = length (filter (\<lambda>x. x \<le> s ! i) (take (Suc i) s)) + length (filter (\<lambda>x. x \<le> s ! i) (drop (Suc i) s))"
    by (metis append_take_drop_id filter_append length_append)
  ultimately show "Suc i \<le> length (filter (\<lambda>x. x \<le> s ! i) s)" using assms(2) by simp
  have "\<forall>x\<in>set (drop i s). s ! i \<le> x"
    using assms by (auto simp: in_set_conv_nth sorted_iff_nth_mono)
  then have "filter (\<lambda>x. s ! i \<le> x) (drop i s) = drop i s" by (simp add: filter_id_conv)
  moreover have "length (filter (\<lambda>x. s ! i \<le> x) s)
      = length (filter (\<lambda>x. s ! i \<le> x) (take i s)) + length (filter (\<lambda>x. s ! i \<le> x) (drop i s))"
    by (metis append_take_drop_id filter_append length_append)
  ultimately show "length s - i \<le> length (filter (\<lambda>x. s ! i \<le> x) s)" by simp
qed

lemma percentile_index:
  assumes "length s * 1000 < 2 ^ 64" "num < den" "den \<le> 1000"
  shows "unat (vector_size s * of_nat num div of_nat den) = length s * num div den"
proof -
  have n: "length s < 2 ^ 64" "num < 2 ^ 64" "den < 2 ^ 64" using assms by simp_all
  have "length s * num \<le> length s * 1000" using assms(2,3) by simp
  then have "length s * num < 2 ^ 64" using assms(1) by linarith
  then show ?thesis
    using n by (simp add: vector_size_def unat_div unat_word_ariths unat_of_nat take_bit_nat_eq_self flip: of_nat_mult)
qed

lemma at_percentile:
  assumes "s \<noteq> []" "length s * 1000 < 2 ^ 64" "num < den" "den \<le> 1000"
  shows "at_index s (vector_size s * of_nat num div of_nat den) = Inr (s ! (length s * num div den))"
    "length s * num div den < length s"
proof -
  have "length s * num < length s * den" using assms(1,3) by simp
  then show "length s * num div den < length s"
    using assms(3) by (metis less_mult_imp_div_less)
  then show "at_index s (vector_size s * of_nat num div of_nat den) = Inr (s ! (length s * num div den))"
    using percentile_index [OF assms(2-4)] by (simp add: at_index_def)
qed

definition at_most :: "int \<Rightarrow> int list \<Rightarrow> nat" where
  "at_most v xs = length (filter (\<lambda>x. x \<le> v) xs)"

definition at_least :: "int \<Rightarrow> int list \<Rightarrow> nat" where
  "at_least v xs = length (filter (\<lambda>x. v \<le> x) xs)"

lemma sort_ranks:
  assumes "i < length xs"
  shows "i < at_most (sort xs ! i) xs" "length xs - i \<le> at_least (sort xs ! i) xs"
proof -
  note r = sorted_ranks [of "sort xs" i]
  have "length (filter P (sort xs)) = length (filter P xs)" for P by (rule length_filter_mset) simp
  then show "i < at_most (sort xs ! i) xs" "length xs - i \<le> at_least (sort xs ! i) xs"
    using r assms by (simp_all add: at_most_def at_least_def Suc_le_eq)
qed

lemma percentile_facts:
  assumes "xs \<noteq> []" "length xs * 1000 < 2 ^ 64"
  shows "\<exists>p. latency_percentiles xs = Inr (Some p) \<and> pc_p50 p \<le> pc_p99 p \<and> pc_p99 p \<le> pc_p999 p
    \<and> {pc_p50 p, pc_p99 p, pc_p999 p} \<subseteq> set xs
    \<and> length xs < 2 * at_most (pc_p50 p) xs \<and> length xs \<le> 100 * at_least (pc_p99 p) xs
    \<and> length xs \<le> 1000 * at_least (pc_p999 p) xs"
proof -
  let ?s = "sort xs" and ?n = "length xs"
  let ?i = "?n * 50 div 100" and ?j = "?n * 99 div 100" and ?k = "?n * 999 div 1000"
  have s: "?s \<noteq> []" "length ?s = ?n" "length ?s * 1000 < 2 ^ 64"
    using assms set_sort [where f = "\<lambda>x. x" and xs = xs] by (metis set_empty, simp_all)
  note p = at_percentile [OF s(1,3), of 50 100] at_percentile [OF s(1,3), of 99 100] at_percentile [OF s(1,3), of 999 1000]
  then have l: "latency_percentiles xs = Inr (Some \<lparr>pc_p50 = ?s ! ?i, pc_p99 = ?s ! ?j, pc_p999 = ?s ! ?k\<rparr>)"
    using assms(1) by (simp only: latency_percentiles_def Let_def of_nat_numeral bind_res_Inr if_False length_sort)
  have lt: "?i < ?n" "?j < ?n" "?k < ?n" using p(2,4,6) by (simp_all only: length_sort)
  have "?i \<le> ?j" by (intro div_le_mono) simp
  have "?j = (?n * 99 * 10) div (100 * 10)" by (rule div_mult_mult2 [symmetric]) simp
  also have "\<dots> \<le> ?k" by (simp add: div_le_mono)
  finally have "?j \<le> ?k" .
  have q: "?n * 50 < 100 * Suc ?i" "100 * ?j \<le> ?n * 99" "1000 * ?k \<le> ?n * 999"
    using dividend_less_times_div [of 100 "?n * 50"] by simp_all
  have "?s ! ?i \<le> ?s ! ?j" "?s ! ?j \<le> ?s ! ?k"
    using \<open>?i \<le> ?j\<close> \<open>?j \<le> ?k\<close> lt by (auto intro!: sorted_nth_mono)
  moreover have "?s ! i \<in> set xs" if "i < ?n" for i using nth_mem [of i ?s] that by simp
  then have "{?s ! ?i, ?s ! ?j, ?s ! ?k} \<subseteq> set xs" using lt by simp
  moreover have "?n < 2 * at_most (?s ! ?i) xs" using sort_ranks(1) [OF lt(1)] q(1) by linarith
  moreover have "?n \<le> 100 * at_least (?s ! ?j) xs" using sort_ranks(2) [OF lt(2)] q(2) by linarith
  moreover have "?n \<le> 1000 * at_least (?s ! ?k) xs" using sort_ranks(2) [OF lt(3)] q(3) by linarith
  ultimately show ?thesis using l by simp
qed

text \<open>The percentiles reported for any latencies (fewer than the vector could ever hold) are
  latencies that were measured, in order, found within the bounds of the vector: more than
  half of the latencies are at most p50, at least a hundredth are p99 or more, at least a
  thousandth p999 or more.\<close>

theorem percentiles_sound:
  assumes "xs \<noteq> []" "length xs * 1000 < 2 ^ 64"
  shows "\<exists>p. latency_percentiles xs = Inr (Some p) \<and> pc_p50 p \<le> pc_p99 p \<and> pc_p99 p \<le> pc_p999 p
    \<and> {pc_p50 p, pc_p99 p, pc_p999 p} \<subseteq> set xs
    \<and> length xs < 2 * at_most (pc_p50 p) xs \<and> length xs \<le> 100 * at_least (pc_p99 p) xs
    \<and> length xs \<le> 1000 * at_least (pc_p999 p) xs"
  by (rule percentile_facts [OF assms])

theorem percentiles_sound_witness:
  "\<exists>p. latency_percentiles [900, 100, 300, 200 :: int] = Inr (Some p) \<and> pc_p50 p = 300 \<and> 4 < 2 * at_most (pc_p50 p) [900, 100, 300, 200]"
proof -
  have "latency_percentiles [900, 100, 300, 200 :: int] = Inr (Some \<lparr>pc_p50 = 300, pc_p99 = 900, pc_p999 = 900\<rparr>)" by code_simp
  then show ?thesis using percentiles_sound [of "[900, 100, 300, 200]"] by auto
qed

section \<open>Bursts on one thread\<close>

fun pops :: "('q \<Rightarrow> ('m \<times> 'q) option) \<Rightarrow> nat \<Rightarrow> 'q \<Rightarrow> 'm option list \<times> 'q" where
  "pops pop 0 q = ([], q)"
| "pops pop (Suc n) q = (case pop q of
      None \<Rightarrow> (case pops pop n q of (xs, q) \<Rightarrow> (None # xs, q))
    | Some (x, q) \<Rightarrow> (case pops pop n q of (xs, q) \<Rightarrow> (Some x # xs, q)))"

definition pushes :: "('m \<Rightarrow> 'q \<Rightarrow> bool \<times> 'q) \<Rightarrow> 'm list \<Rightarrow> 'q \<Rightarrow> 'q" where
  "pushes push xs q = fold (\<lambda>x q. snd (push x q)) xs q"

text \<open>\<open>BM_QueueBurst\<close>: fill, then drain, \<open>burst_size\<close> items an iteration.\<close>

definition SMALL_CAPACITY :: u64 where "SMALL_CAPACITY = 4096"

definition queue_burst :: "(u64 \<Rightarrow> u64) \<Rightarrow> nat \<Rightarrow> u64 spsc \<Rightarrow> u64 option list \<times> u64 spsc" where
  "queue_burst moved burst_size q =
     pops (try_pop moved SMALL_CAPACITY) burst_size (pushes (try_push SMALL_CAPACITY) (map of_nat [0..<burst_size]) q)"

fun queue_bursts :: "(u64 \<Rightarrow> u64) \<Rightarrow> nat \<Rightarrow> nat \<Rightarrow> u64 spsc \<Rightarrow> u64 option list list \<times> u64 spsc" where
  "queue_bursts moved burst_size 0 q = ([], q)"
| "queue_bursts moved burst_size (Suc n) q = (case queue_burst moved burst_size q of (out, q) \<Rightarrow>
     case queue_bursts moved burst_size n q of (outs, q) \<Rightarrow> (out # outs, q))"

text \<open>\<open>BM_QueuePushPop\<close>, for numbers (\<open>step\<close> counts up) and for messages (\<open>step\<close> keeps the message).\<close>

fun push_pop_loop :: "u64 \<Rightarrow> ('m \<Rightarrow> 'm) \<Rightarrow> ('m \<Rightarrow> 'm) \<Rightarrow> nat \<Rightarrow> 'm \<Rightarrow> 'm spsc \<Rightarrow> 'm option list \<times> 'm spsc" where
  "push_pop_loop cap moved step 0 x q = ([], q)"
| "push_pop_loop cap moved step (Suc n) x q = (case pops (try_pop moved cap) 1 (snd (try_push cap x q)) of (out, q) \<Rightarrow>
     case push_pop_loop cap moved step n (step x) q of (outs, q) \<Rightarrow> (out @ outs, q))"

context bounded_fifo
begin

lemma pushes_items: "inv q \<Longrightarrow> inv (pushes push xs q) \<and> items (pushes push xs q) = items q @ take (room - length (items q)) xs"
proof (induction xs arbitrary: q)
  case (Cons x xs)
  from Cons.prems show ?case
  proof (cases rule: push_cases [where x = x])
    case full
    then show ?thesis using Cons.IH [OF Cons.prems] by (simp add: pushes_def)
  next
    case (room q')
    then have "room - length (items q) = Suc (room - length (items q'))" by simp
    then show ?thesis using Cons.IH [OF room(3)] room(2,4) by (simp add: pushes_def)
  qed
qed (simp add: pushes_def)

lemma pops_items:
  "inv q \<Longrightarrow> \<exists>q'. pops pop n q = (map Some (take n (items q)) @ replicate (n - length (items q)) None, q')
    \<and> inv q' \<and> items q' = drop n (items q)"
proof (induction n arbitrary: q)
  case (Suc n)
  from Suc.prems show ?case
  proof (cases rule: pop_cases)
    case empty
    then show ?thesis using Suc.IH [OF Suc.prems] by auto
  next
    case (item x q1)
    obtain q' where "pops pop n q1 = (map Some (take n (items q1)) @ replicate (n - length (items q1)) None, q')"
      "inv q'" "items q' = drop n (items q1)" using Suc.IH [OF item(3)] by blast
    then show ?thesis using item(1,2) by (intro exI [of _ q']) simp
  qed
qed simp

end

lemma small_capacity: "valid_capacity SMALL_CAPACITY" "unat SMALL_CAPACITY = 4096"
  by (simp_all add: valid_capacity_def SMALL_CAPACITY_def)

lemma burst_once:
  assumes "ring_inv SMALL_CAPACITY q" "q_items SMALL_CAPACITY q = []"
  shows "\<exists>q'. queue_burst moved n q = (map (Some \<circ> of_nat) [0..<min n 4095] @ replicate (n - 4095) None, q')
    \<and> ring_inv SMALL_CAPACITY q' \<and> q_items SMALL_CAPACITY q' = []"
proof -
  let ?q1 = "pushes (try_push SMALL_CAPACITY) (map of_nat [0..<n]) q"
  have q1: "ring_inv SMALL_CAPACITY ?q1" "q_items SMALL_CAPACITY ?q1 = map of_nat [0..<min n 4095]"
    using ring.pushes_items [OF assms(1), of "map of_nat [0..<n]"] assms(2)
    by (simp_all add: small_capacity take_map min_def)
  have "n - min n 4095 = n - 4095" by simp
  then show ?thesis
    using ring.pops_items [OF q1(1), of moved n] unfolding q1(2) queue_burst_def by (simp add: comp_def take_map)
qed

text \<open>The burst benchmark measures real work up to the usable size of its ring: in every iteration
  the first 4095 items come back in order, and beyond them every pop finds the queue empty,
  as it is between iterations.\<close>

theorem queue_bursts_measure:
  "fst (queue_bursts moved n k (spsc_new SMALL_CAPACITY 0))
      = replicate k (map (Some \<circ> of_nat) [0..<min n 4095] @ replicate (n - 4095) None)
    \<and> q_items SMALL_CAPACITY (snd (queue_bursts moved n k (spsc_new SMALL_CAPACITY 0))) = []"
proof -
  have gen: "fst (queue_bursts moved n k q) = replicate k (map (Some \<circ> of_nat) [0..<min n 4095] @ replicate (n - 4095) None)
      \<and> q_items SMALL_CAPACITY (snd (queue_bursts moved n k q)) = []"
    if "ring_inv SMALL_CAPACITY q" "q_items SMALL_CAPACITY q = []" for q
    using that
  proof (induction k arbitrary: q)
    case (Suc k)
    obtain q' where q': "queue_burst moved n q = (map (Some \<circ> of_nat) [0..<min n 4095] @ replicate (n - 4095) None, q')"
      "ring_inv SMALL_CAPACITY q'" "q_items SMALL_CAPACITY q' = []" using burst_once [OF Suc.prems] by blast
    obtain outs q'' where "queue_bursts moved n k q' = (outs, q'')" by fastforce
    then show ?case using Suc.IH [OF q'(2,3)] by (simp add: q'(1))
  qed simp
  show ?thesis by (rule gen [OF ring_new [OF small_capacity(1)] q_new_items])
qed

lemma push_pop_items:
  assumes "1 < unat cap" "ring_inv cap q" "q_items cap q = []"
  shows "fst (push_pop_loop cap moved step n x q) = map (\<lambda>i. Some ((step ^^ i) x)) [0..<n]"
  using assms
proof (induction n arbitrary: x q)
  case (Suc n)
  obtain q1 where q1: "try_push cap x q = (True, q1)" "ring_inv cap q1" "q_items cap q1 = [x]"
    using ring.push_room [OF Suc.prems(2), of x] Suc.prems(1,3) by auto
  obtain q2 where q2: "pops (try_pop moved cap) 1 q1 = ([Some x], q2)" "ring_inv cap q2" "q_items cap q2 = []"
    using ring.pops_items [OF q1(2), of moved 1] by (auto simp: q1(3))
  have "map (\<lambda>i. Some ((step ^^ i) x)) [0..<Suc n] = Some x # map (\<lambda>i. Some ((step ^^ i) (step x))) [0..<n]"
    by (simp add: map_upt_Suc funpow_swap1 del: upt_Suc)
  moreover obtain outs q3 where "push_pop_loop cap moved step n (step x) q2 = (outs, q3)" by fastforce
  ultimately show ?case using Suc.IH [OF Suc.prems(1) q2(2,3), of "step x"] q1(1) q2(1)
    by (simp del: pops.simps One_nat_def upt_Suc)
qed simp

text \<open>In the push and pop benchmark each pop returns what was just pushed.\<close>

theorem push_pop_measure:
  assumes "valid_capacity cap" "1 < cap"
  shows "fst (push_pop_loop cap moved step n x (spsc_new cap d)) = map (\<lambda>i. Some ((step ^^ i) x)) [0..<n]"
  using assms by (intro push_pop_items ring_new q_new_items) (simp_all add: word_less_nat_alt)

theorem push_pop_measure_witness:
  "fst (push_pop_loop SMALL_CAPACITY id (\<lambda>v. v + 1) 3 (0 :: u64) (spsc_new SMALL_CAPACITY 0)) = [Some 0, Some 1, Some 2]"
proof -
  have "1 < SMALL_CAPACITY" by (simp add: SMALL_CAPACITY_def)
  show ?thesis unfolding push_pop_measure [OF small_capacity(1) \<open>1 < SMALL_CAPACITY\<close>] by code_simp
qed

section \<open>Latency across two threads\<close>

text \<open>
  The producer pushes its clock reading and does not look at the result; the consumer
  measures each number it pops until it sees \<open>done\<close>, and throws away the rest.
\<close>

type_synonym measured = "clock \<times> int list"

definition measure_latency :: "u64 \<Rightarrow> measured \<Rightarrow> measured res" where
  "measure_latency v w = (case now (fst w) of (t, clk) \<Rightarrow> Inr (clk, snd w @ [elapsed_ns (sint v) t]))"

definition cross_thread :: "(u64 \<Rightarrow> u64) \<Rightarrow> u64 action list \<Rightarrow> clock \<Rightarrow> (u64 list \<times> (u64 spsc \<times> measured) res option) res" where
  "cross_thread moved as clk =
     bind_res (run_schedule (try_push SMALL_CAPACITY) (try_pop moved SMALL_CAPACITY) measure_latency as
         (spsc_new SMALL_CAPACITY 0, (clk, []), [])) (\<lambda>st.
     Inr (snd (snd st), drain (try_pop moved SMALL_CAPACITY) (\<lambda>v w. Inr w) 4096 (fst st) (fst (snd st))))"

definition latencies_of :: "clock \<Rightarrow> u64 list \<Rightarrow> int list" where
  "latencies_of clk vs = map (\<lambda>(i, v). elapsed_ns (sint v) (steady_reading clk (steady_count clk + i))) (enumerate 0 vs)"

lemma fold_measure:
  "\<exists>clk'. fold_res measure_latency vs (clk, ls) = Inr (clk', ls @ latencies_of clk vs)"
proof (induction vs arbitrary: clk ls)
  case (Cons v vs)
  let ?clk = "clk\<lparr>steady_count := Suc (steady_count clk)\<rparr>"
  have "latencies_of clk (v # vs) = elapsed_ns (sint v) (steady_reading clk (steady_count clk)) # latencies_of ?clk vs"
    by (simp add: latencies_of_def enumerate_Suc_eq comp_def case_prod_unfold)
  moreover have "measure_latency v (clk, ls) = Inr (?clk, ls @ [elapsed_ns (sint v) (steady_reading clk (steady_count clk))])"
    by (simp add: measure_latency_def now_def)
  moreover obtain clk' where "fold_res measure_latency vs (?clk, ls @ [elapsed_ns (sint v) (steady_reading clk (steady_count clk))])
      = Inr (clk', (ls @ [elapsed_ns (sint v) (steady_reading clk (steady_count clk))]) @ latencies_of ?clk vs)"
    using Cons.IH by blast
  ultimately show ?case by simp
qed (simp add: latencies_of_def)

lemma measure_defined: "fold_res measure_latency vs w \<noteq> Inl f"
  using fold_measure [of vs "fst w" "snd w"] by auto

lemma drain_nothing: "fold_res (\<lambda>v w. Inr w) vs w = Inr w"
  by (induction vs) simp_all

lemma schedule_defined: "\<exists>st'. run_schedule push pop measure_latency as st = Inr st'"
proof (induction push pop "measure_latency" as st rule: run_schedule.induct)
  case (1 push pop st)
  then show ?case by (intro exI) (rule run_schedule.simps(1))
next
  case (2 push pop m as q w acc)
  then show ?case by (simp split: prod.split)
next
  case (3 push pop as q w acc)
  then show ?case by (cases w) (auto simp: run_iteration_def measure_latency_def now_def split: option.split)
qed

text \<open>Under every schedule the cross-thread benchmark ends with an empty queue, and its latencies
  are, for the values of an initial part of the accepted pushes, the consumer's clock minus
  the pushed reading, one each and in order.\<close>

theorem cross_thread_latencies:
  "\<exists>accepted q clk' n. cross_thread moved as clk
      = Inr (accepted, Some (Inr (q, clk', latencies_of clk (take n accepted))))
    \<and> q_items SMALL_CAPACITY q = [] \<and> n \<le> length accepted"
proof -
  let ?push = "try_push SMALL_CAPACITY" and ?pop = "try_pop moved SMALL_CAPACITY" and ?q0 = "spsc_new SMALL_CAPACITY (0 :: u64)"
  obtain q w acc where run: "run_schedule ?push ?pop measure_latency as (?q0, (clk, []), []) = Inr (q, w, acc)"
    using schedule_defined by (metis prod_cases3)
  obtain done' where d: "ring_inv SMALL_CAPACITY q" "fold_res measure_latency done' (clk, []) = Inr w"
    "acc = done' @ q_items SMALL_CAPACITY q"
    using ring.run_schedule_items [OF ring_new [OF small_capacity(1)] _ _ run, of "[]" "(clk, [])"] by (auto simp: q_new_items)
  have w: "snd w = latencies_of clk done'" using fold_measure [of done' clk "[]"] d(2) by auto
  have "length (q_items SMALL_CAPACITY q) < 4096"
    using ring.items_room [OF d(1)] by (simp add: small_capacity)
  from ring.drain_items [OF d(1) this, of moved "\<lambda>v w. Inr w" w] obtain q' where
    "q_items SMALL_CAPACITY q' = []" "drain ?pop (\<lambda>v w. Inr w) 4096 q w = Some (Inr (q', w))"
    by (auto simp: drain_nothing)
  then have "cross_thread moved as clk = Inr (acc, Some (Inr (q', fst w, latencies_of clk (take (length done') acc))))"
    using run w by (cases w) (simp add: cross_thread_def d(3))
  moreover have "length done' \<le> length acc" by (simp add: d(3))
  ultimately show ?thesis using \<open>q_items SMALL_CAPACITY q' = []\<close> by blast
qed

end
