(* ===== verification/Bench_Pipeline.thy ===== *)
theory Bench_Pipeline
  imports Bench_Queue Feed_Parser Double_Integers
begin

text \<open>
  \<open>bench/bench_e2e.cpp\<close>: the path from the text of a message to the signals, on one thread and
  on two. The producer of the second benchmark spins until its push succeeds. The lemmas say
  that every iteration is measured exactly once whatever the interleaving, and what the
  reported figures are.
\<close>

section \<open>The pipeline\<close>

record bench_engine =
  be_book :: order_book
  be_agg :: aggregator
  be_detector :: detector
  be_signal_count :: u64
  be_clock :: clock
  be_latencies :: "int list"

definition count_signal :: "signal \<Rightarrow> u64 \<Rightarrow> u64" where
  "count_signal s n = n + 1"

definition bench_detector :: detector where
  "bench_detector =
     add_condition \<lparr>cond_type = IMBALANCE_BID, cond_threshold = double_lit 7 10, cond_cooldown_us = default_cooldown\<rparr>
       (add_condition \<lparr>cond_type = SPREAD_WIDE, cond_threshold = double_of_int 50, cond_cooldown_us = default_cooldown\<rparr>
          new_detector)"

definition new_bench :: "clock \<Rightarrow> bench_engine" where
  "new_bench clk = \<lparr>be_book = new_book ''BTCUSDT'', be_agg = new_aggregator 5 20, be_detector = bench_detector,
     be_signal_count = 0, be_clock = clk, be_latencies = []\<rparr>"

definition bench_signals :: "bench_engine \<Rightarrow> bench_engine" where
  "bench_signals be = (case evaluate (Some count_signal) ''BTCUSDT'' (be_book be) (ag_snapshot (be_agg be)) None
       ((be_detector be, be_signal_count be), be_clock be) of ((d, n), clk) \<Rightarrow>
     be\<lparr>be_detector := d, be_signal_count := n, be_clock := clk\<rparr>)"

definition bench_now :: "bench_engine \<Rightarrow> int \<times> bench_engine" where
  "bench_now be = (case now (be_clock be) of (t, clk) \<Rightarrow> (t, be\<lparr>be_clock := clk\<rparr>))"

section \<open>One thread\<close>

text \<open>\<open>BM_E2E_SingleThread\<close>: the update is a local of the benchmark that every iteration parses into;
  whether it parsed is not looked at.\<close>

record stage_times =
  sg_parse :: int
  sg_orderbook :: int
  sg_aggregator :: int
  sg_signal :: int
  sg_total :: int

definition single_iteration :: "json_lib \<Rightarrow> string \<Rightarrow> depth_update \<times> bench_engine \<Rightarrow> (stage_times \<times> depth_update \<times> bench_engine) res" where
  "single_iteration jl json st =
     (case bench_now (snd st) of (t0, be) \<Rightarrow>
      let u = snd (parse_depth jl json (fst st))
      in case bench_now be of (t1, be) \<Rightarrow>
      bind_res (apply_update u (be_book be)) (\<lambda>book.
      case bench_now (be\<lparr>be_book := book\<rparr>) of (t2, be) \<Rightarrow>
      case bench_now (be\<lparr>be_agg := agg_update (be_book be) (be_agg be)\<rparr>) of (t3, be) \<Rightarrow>
      case bench_now (bench_signals be) of (t4, be) \<Rightarrow>
      Inr (\<lparr>sg_parse = elapsed_ns t0 t1, sg_orderbook = elapsed_ns t1 t2, sg_aggregator = elapsed_ns t2 t3,
            sg_signal = elapsed_ns t3 t4, sg_total = elapsed_ns t0 t4\<rparr>, u, be)))"

fun single_loop :: "json_lib \<Rightarrow> string \<Rightarrow> nat \<Rightarrow> depth_update \<times> bench_engine \<Rightarrow> (stage_times list \<times> depth_update \<times> bench_engine) res" where
  "single_loop jl json 0 st = Inr ([], st)"
| "single_loop jl json (Suc n) st = bind_res (single_iteration jl json st) (\<lambda>r.
     bind_res (single_loop jl json n (snd r)) (\<lambda>rs. Inr (fst r # fst rs, snd rs)))"

section \<open>Two threads\<close>

text \<open>The body of the consumer's loops, and the message of an iteration of the producer with its two
  clock readings.\<close>

definition consume_e2e :: "queue_message \<Rightarrow> bench_engine \<Rightarrow> bench_engine res" where
  "consume_e2e m be =
     (case bench_now be of (t, be) \<Rightarrow>
      let u = (msg_depth m)\<lparr>du_dequeued := t\<rparr>
      in bind_res (apply_update u (be_book be)) (\<lambda>book.
         case bench_now (bench_signals (be\<lparr>be_book := book, be_agg := agg_update book (be_agg be)\<rparr>)) of (t', be) \<Rightarrow>
         Inr (be\<lparr>be_latencies := be_latencies be @ [elapsed_ns (du_received u) t']\<rparr>)))"

definition e2e_message :: "json_lib \<Rightarrow> string \<Rightarrow> int \<times> int \<Rightarrow> queue_message" where
  "e2e_message jl json stamps = new_message\<lparr>msg_type := DEPTH_UPDATE,
     msg_depth := (snd (parse_depth jl json (msg_depth new_message)))\<lparr>du_received := fst stamps, du_parsed := snd stamps\<rparr>\<rparr>"

datatype turn_of = Producer_Turn | Consumer_Turn

text \<open>The producer's turns try to push its current message; it goes on to the next when that succeeds.\<close>

fun spin_run ::
    "('m \<Rightarrow> 'q \<Rightarrow> bool \<times> 'q) \<Rightarrow> ('q \<Rightarrow> ('m \<times> 'q) option) \<Rightarrow> ('m \<Rightarrow> 'w \<Rightarrow> 'w res) \<Rightarrow> turn_of list \<Rightarrow>
     'm list \<times> 'q \<times> 'w \<Rightarrow> ('m list \<times> 'q \<times> 'w) res" where
  "spin_run push pop hdl [] st = Inr st"
| "spin_run push pop hdl (Producer_Turn # ts) (ms, q, w) = (case ms of
      [] \<Rightarrow> spin_run push pop hdl ts ([], q, w)
    | m # rest \<Rightarrow> (case push m q of (accepted, q) \<Rightarrow>
        spin_run push pop hdl ts (if accepted then rest else m # rest, q, w)))"
| "spin_run push pop hdl (Consumer_Turn # ts) (ms, q, w) =
     bind_res (run_iteration pop hdl q w) (\<lambda>qw. spin_run push pop hdl ts (ms, fst qw, snd qw))"

definition E2E_CAPACITY :: u64 where "E2E_CAPACITY = 1024"

text \<open>\<open>done\<close> is set when the producer has no message left; until then nothing is returned.\<close>

definition two_thread ::
    "json_lib \<Rightarrow> string \<Rightarrow> (queue_message \<Rightarrow> queue_message) \<Rightarrow> turn_of list \<Rightarrow> (int \<times> int) list \<Rightarrow> clock \<Rightarrow>
     (queue_message spsc \<times> bench_engine) res option res" where
  "two_thread jl json moved turns stamps clk =
     bind_res (spin_run (try_push E2E_CAPACITY) (try_pop moved E2E_CAPACITY) consume_e2e turns
       (map (e2e_message jl json) stamps, spsc_new E2E_CAPACITY new_message, new_bench clk)) (\<lambda>st.
     Inr (if fst st = [] then drain (try_pop moved E2E_CAPACITY) consume_e2e 1024 (fst (snd st)) (snd (snd st)) else None))"

section \<open>The report\<close>

record e2e_report =
  rep_percentiles :: percentiles
  rep_max :: int
  rep_avg :: double

definition e2e_counters :: "int list \<Rightarrow> e2e_report option res" where
  "e2e_counters latencies = bind_res (latency_percentiles latencies) (\<lambda>p. case p of
      None \<Rightarrow> Inr None
    | Some p \<Rightarrow> Inr (Some \<lparr>rep_percentiles = p, rep_max = last (sort latencies),
        rep_avg = double_of_int (sum_list latencies) / double_of_int (int (length latencies))\<rparr>))"

section \<open>Each iteration is measured once\<close>

context bounded_fifo
begin

lemma spin_items:
  assumes "inv q" "fold_res hdl done w0 = Inr w" "ms0 = done @ items q @ ms"
    and "spin_run push pop hdl ts (ms, q, w) = Inr (ms', q', w')"
  shows "\<exists>done'. inv q' \<and> fold_res hdl done' w0 = Inr w' \<and> ms0 = done' @ items q' @ ms'"
  using assms
proof (induction ts arbitrary: ms q w "done")
  case Nil
  then show ?case by auto
next
  case (Cons t ts)
  show ?case
  proof (cases t)
    case Producer_Turn
    show ?thesis
    proof (cases ms)
      case Nil
      then show ?thesis using Cons.IH [OF Cons.prems(1,2), of "[]"] Cons.prems(3,4) by (simp add: Producer_Turn)
    next
      case (Cons m rest)
      from \<open>inv q\<close> show ?thesis
      proof (cases rule: push_cases [where x = m])
        case full
        then show ?thesis using Cons.IH [OF Cons.prems(1,2)] Cons.prems(3,4) by (simp add: Producer_Turn Cons)
      next
        case (room q1)
        have "ms0 = done @ items q1 @ rest" using Cons.prems(3) room(4) by (simp add: Cons)
        then show ?thesis using Cons.IH [OF room(3) Cons.prems(2)] Cons.prems(4) room(2) by (simp add: Producer_Turn Cons)
      qed
    qed
  next
    case Consumer_Turn
    from Cons.prems(1) show ?thesis
    proof (cases rule: pop_cases)
      case empty
      then show ?thesis using Cons.IH [OF Cons.prems(1-3)] Cons.prems(4) by (simp add: Consumer_Turn run_iteration_def)
    next
      case (item x q1)
      then obtain w1 where w1: "hdl x w = Inr w1" "spin_run push pop hdl ts (ms, q1, w1) = Inr (ms', q', w')"
        using Cons.prems(4) by (auto simp: Consumer_Turn run_iteration_def res_simps)
      have "fold_res hdl (done @ [x]) w0 = Inr w1" using Cons.prems(2) w1(1) by (simp add: fold_res_append)
      moreover have "ms0 = (done @ [x]) @ items q1 @ ms" using item(1) Cons.prems(3) by simp
      ultimately show ?thesis using Cons.IH [OF item(3)] w1(2) by blast
    qed
  qed
qed

text \<open>A schedule that always finishes: the two threads in turn.\<close>

lemma spin_alternating:
  assumes "inv q" "items q = []" "0 < room" "fold_res hdl ms w = Inr w'"
  shows "\<exists>q'. spin_run push pop hdl (concat (replicate (length ms) [Producer_Turn, Consumer_Turn])) (ms, q, w) = Inr ([], q', w')
    \<and> inv q' \<and> items q' = []"
  using assms(1,2,4)
proof (induction ms arbitrary: q w)
  case (Cons m ms)
  obtain q1 where q1: "push m q = (True, q1)" "inv q1" "items q1 = [m]"
    using push_room [OF Cons.prems(1), of m] Cons.prems(2) assms(3) by auto
  obtain q2 where q2: "pop q1 = Some (m, q2)" "inv q2" "items q2 = []" using pop_item [OF q1(2,3)] by blast
  obtain w1 where w1: "hdl m w = Inr w1" "fold_res hdl ms w1 = Inr w'" using Cons.prems(3) by (auto simp: res_simps)
  from Cons.IH [OF q2(2,3) w1(2)] show ?case using q1(1) q2(1) w1(1) by (simp add: run_iteration_def)
qed simp

end

lemma e2e_capacity: "valid_capacity E2E_CAPACITY" "unat E2E_CAPACITY = 1024"
  by (simp_all add: valid_capacity_def E2E_CAPACITY_def)

lemma two_thread_fold:
  assumes "two_thread jl json moved turns stamps clk = Inr (Some r)"
  shows "\<exists>q. q_items E2E_CAPACITY q = []
    \<and> r = bind_res (fold_res consume_e2e (map (e2e_message jl json) stamps) (new_bench clk)) (\<lambda>be. Inr (q, be))"
proof -
  let ?push = "try_push E2E_CAPACITY" and ?pop = "try_pop moved E2E_CAPACITY"
  obtain q w where st: "spin_run ?push ?pop consume_e2e turns
      (map (e2e_message jl json) stamps, spsc_new E2E_CAPACITY new_message, new_bench clk) = Inr ([], q, w)"
    "drain ?pop consume_e2e 1024 q w = Some r"
    using assms by (auto simp: two_thread_def res_simps split: if_splits)
  obtain done' where d: "ring_inv E2E_CAPACITY q" "fold_res consume_e2e done' (new_bench clk) = Inr w"
    "map (e2e_message jl json) stamps = done' @ q_items E2E_CAPACITY q @ []"
    using ring.spin_items [OF ring_new [OF e2e_capacity(1)] _ _ st(1), of "[]" "new_bench clk"] by (auto simp: q_new_items)
  have "length (q_items E2E_CAPACITY q) < 1024" using ring.items_room [OF d(1)] by (simp add: e2e_capacity)
  from ring.drain_items [OF d(1) this, of moved consume_e2e w] obtain q' where
    "q_items E2E_CAPACITY q' = []" "Some r = Some (bind_res (fold_res consume_e2e (q_items E2E_CAPACITY q) w) (\<lambda>w'. Inr (q', w')))"
    unfolding st(2) by blast
  moreover have "fold_res consume_e2e (map (e2e_message jl json) stamps) (new_bench clk) = fold_res consume_e2e (q_items E2E_CAPACITY q) w"
    using d(2,3) by (simp add: fold_res_append)
  ultimately show ?thesis by auto
qed

lemma bench_signals_fields [simp]:
  "be_book (bench_signals be) = be_book be" "be_agg (bench_signals be) = be_agg be"
  "be_latencies (bench_signals be) = be_latencies be"
  by (simp_all add: bench_signals_def split: prod.split)

lemma bench_now_fields [simp]:
  "be_book (snd (bench_now be)) = be_book be" "be_agg (snd (bench_now be)) = be_agg be"
  "be_latencies (snd (bench_now be)) = be_latencies be"
  by (simp_all add: bench_now_def split: prod.split)

lemma consume_step:
  "consume_e2e m be = Inr be' \<Longrightarrow> apply_update (msg_depth m) (be_book be) = Inr (be_book be')
    \<and> be_agg be' = agg_update (be_book be') (be_agg be) \<and> length (be_latencies be') = Suc (length (be_latencies be))"
  by (auto simp: consume_e2e_def bench_now_def now_def Let_def res_simps apply_update_def split: prod.splits)

lemma consume_defined: "ok (consume_e2e m be) = ok (apply_update (msg_depth m) (be_book be))"
  by (auto simp: consume_e2e_def bench_now_def now_def Let_def apply_update_def bind_res_def ok_def
      split: prod.splits sum.splits)

lemma consume_run:
  "fold_res consume_e2e ms be = Inr be' \<Longrightarrow> book_run (map msg_depth ms) (be_book be) = Inr (be_book be')
    \<and> be_agg be' = agg_run (book_trace (map msg_depth ms) (be_book be)) (be_agg be)
    \<and> length (be_latencies be') = length (be_latencies be) + length ms"
proof (induction ms arbitrary: be)
  case (Cons m ms)
  then obtain be1 where be1: "consume_e2e m be = Inr be1" "fold_res consume_e2e ms be1 = Inr be'" by (auto simp: res_simps)
  show ?case using consume_step [OF be1(1)] Cons.IH [OF be1(2)] by (simp add: agg_run_def)
qed (simp add: agg_run_def)

lemma restamped: "apply_update (u\<lparr>du_received := a, du_parsed := b\<rparr>) = apply_update u"
  by (simp add: apply_update_def fun_eq_iff)

abbreviation bench_update :: "json_lib \<Rightarrow> string \<Rightarrow> depth_update" where
  "bench_update jl json \<equiv> snd (parse_depth jl json new_update)"

lemma e2e_books:
  "book_run (map (msg_depth \<circ> e2e_message jl json) stamps) b = book_run (replicate (length stamps) (bench_update jl json)) b"
  "book_trace (map (msg_depth \<circ> e2e_message jl json) stamps) b = book_trace (replicate (length stamps) (bench_update jl json)) b"
proof -
  have "apply_update (msg_depth (e2e_message jl json t)) = apply_update (bench_update jl json)" for t
    by (simp add: e2e_message_def restamped new_message_def)
  then show "book_run (map (msg_depth \<circ> e2e_message jl json) stamps) b = book_run (replicate (length stamps) (bench_update jl json)) b"
    "book_trace (map (msg_depth \<circ> e2e_message jl json) stamps) b = book_trace (replicate (length stamps) (bench_update jl json)) b"
    by (induction stamps arbitrary: b) (simp_all add: bind_res_def split: sum.split)
qed

text \<open>However producer and consumer interleave, spinning included, a finished run of the two-thread
  benchmark has one latency per iteration, an empty queue, and the book and the aggregator
  that as many applications of the parsed message give.\<close>

theorem two_thread_measures:
  assumes "two_thread jl json moved turns stamps clk = Inr (Some (Inr (q, be)))"
  defines "updates \<equiv> replicate (length stamps) (bench_update jl json)"
  shows "length (be_latencies be) = length stamps \<and> q_items E2E_CAPACITY q = []
    \<and> book_run updates (new_book ''BTCUSDT'') = Inr (be_book be)
    \<and> be_agg be = agg_run (book_trace updates (new_book ''BTCUSDT'')) (new_aggregator 5 20)"
proof -
  obtain q' where q': "q_items E2E_CAPACITY q' = []"
    "Inr (q, be) = bind_res (fold_res consume_e2e (map (e2e_message jl json) stamps) (new_bench clk)) (\<lambda>be. Inr (q', be))"
    using two_thread_fold [OF assms(1)] by blast
  have "bind_res (fold_res consume_e2e (map (e2e_message jl json) stamps) (new_bench clk)) (\<lambda>be. Inr (q', be)) = Inr (q, be)"
    by (rule q'(2) [symmetric])
  then have "fold_res consume_e2e (map (e2e_message jl json) stamps) (new_bench clk) = Inr be" "q' = q"
    by (auto simp: res_simps)
  then show ?thesis
    using consume_run [of "map (e2e_message jl json) stamps" "new_bench clk" be] q'(1)
    by (simp add: new_bench_def updates_def e2e_books)
qed

lemma consume_all:
  assumes "\<And>m b. m \<in> set ms \<Longrightarrow> ok (apply_update (msg_depth m) b)"
  shows "\<exists>be'. fold_res consume_e2e ms be = Inr be'"
  using assms
proof (induction ms arbitrary: be)
  case (Cons m ms)
  then obtain be1 where "consume_e2e m be = Inr be1" using consume_defined by (metis list.set_intros(1) okE)
  then show ?case using Cons.IH [of be1] Cons.prems by simp
qed simp

lemma alternating_run:
  assumes "ok (apply_update (bench_update jl json) (new_book ''BTCUSDT''))"
  shows "\<exists>q be. two_thread jl json moved (concat (replicate (length stamps) [Producer_Turn, Consumer_Turn])) stamps clk
    = Inr (Some (Inr (q, be)))"
proof -
  let ?ms = "map (e2e_message jl json) stamps" and ?push = "try_push E2E_CAPACITY" and ?pop = "try_pop moved E2E_CAPACITY"
  have "ok (apply_update (bench_update jl json) b)" for b
    using assms by (simp add: apply_update_defined)
  then have "ok (apply_update (msg_depth m) b)" if "m \<in> set ?ms" for m b
    using that by (auto simp: e2e_message_def restamped new_message_def)
  then obtain be where be: "fold_res consume_e2e ?ms (new_bench clk) = Inr be" using consume_all by blast
  obtain q where "spin_run ?push ?pop consume_e2e (concat (replicate (length stamps) [Producer_Turn, Consumer_Turn]))
      (?ms, spsc_new E2E_CAPACITY new_message, new_bench clk) = Inr ([], q, be)"
    "ring_inv E2E_CAPACITY q" "q_items E2E_CAPACITY q = []"
    using ring.spin_alternating [OF ring_new [OF e2e_capacity(1)] q_new_items _ be] by (auto simp: e2e_capacity)
  moreover have "drain ?pop consume_e2e 1024 q be = Some (bind_res (fold_res consume_e2e (q_items E2E_CAPACITY q) be) (\<lambda>w. Inr (q', w)))
      \<Longrightarrow> drain ?pop consume_e2e 1024 q be = Some (Inr (q', be))" for q'
    using \<open>q_items E2E_CAPACITY q = []\<close> by simp
  ultimately show ?thesis
    using ring.drain_items [of E2E_CAPACITY q 1024 moved consume_e2e be] by (auto simp: two_thread_def)
qed

text \<open>When the message can be applied, the benchmark finishes: for instance when the threads take turns.\<close>

theorem two_thread_completes:
  assumes "ok (apply_update (bench_update jl json) (new_book ''BTCUSDT''))"
  shows "\<exists>q be. two_thread jl json moved (concat (replicate (length stamps) [Producer_Turn, Consumer_Turn])) stamps clk
    = Inr (Some (Inr (q, be)))"
  by (rule alternating_run [OF assms])

section \<open>What is reported\<close>

lemma sum_bounds:
  fixes xs :: "int list"
  assumes "\<forall>x\<in>set xs. 0 \<le> x \<and> x \<le> m"
  shows "0 \<le> sum_list xs" "sum_list xs \<le> int (length xs) * m" "x \<in> set xs \<Longrightarrow> x \<le> sum_list xs"
proof -
  show "0 \<le> sum_list xs" using assms by (intro sum_list_nonneg) simp
  show "sum_list xs \<le> int (length xs) * m" using assms by (induction xs) (auto simp: algebra_simps)
  show "x \<le> sum_list xs" if "x \<in> set xs" using assms that by (intro member_le_sum_list) auto
qed

lemma average_at_most:
  assumes "xs \<noteq> []" "\<forall>x\<in>set xs. 0 \<le> x \<and> x \<le> m" "m \<in> set xs" "sum_list xs < 2 ^ 53" "int (length xs) < 2 ^ 53"
  shows "double_of_int (sum_list xs) / double_of_int (int (length xs)) \<le> double_of_int m"
proof -
  let ?s = "sum_list xs" and ?n = "int (length xs)"
  note b = sum_bounds [OF assms(2)]
  have m: "0 \<le> m" "m < 2 ^ 53" using assms(2,3,4) b(3) [OF assms(3)] by auto
  have n: "0 < ?n" using assms(1) by simp
  note s = double_of_int_exact [OF b(1) assms(4)] and l = double_of_int_exact [of ?n, OF _ assms(5)] and mm = double_of_int_exact [OF m]
  have nz: "d_mag (double_of_int ?n) \<noteq> 0"
  proof
    assume "d_mag (double_of_int ?n) = 0"
    then have "d_val (double_of_int ?n) = 0" by (rule d_mag_val_zero)
    then show False using l(1) n by simp
  qed
  have "d_key (double_of_int ?s / double_of_int ?n) = srnd (of_int ?s / of_int ?n)"
    using key_div [OF s(2) l(2) nz] s(1) l(1) by simp
  also have "\<dots> \<le> srnd (of_int m)"
  proof (rule srnd_mono)
    have "real_of_int ?s \<le> of_int (?n * m)" using b(2) by (simp only: of_int_le_iff)
    then show "of_int ?s / of_int ?n \<le> real_of_int m" using n by (simp add: divide_le_eq mult.commute)
  qed
  also have "\<dots> = d_key (double_of_int m)" using srnd_d_val [OF mm(2)] mm(1) by simp
  finally show ?thesis using not_nan_arith(4) [OF s(2) l(2) nz] mm(2) by (simp add: less_eq_double_def)
qed

lemma last_sort_max: "xs \<noteq> [] \<Longrightarrow> last (sort xs) \<in> set xs \<and> (\<forall>x\<in>set xs. x \<le> last (sort xs))" for xs :: "int list"
proof -
  assume "xs \<noteq> []"
  then have s: "sort xs \<noteq> []" by (metis set_empty set_sort)
  then have l: "last (sort xs) = sort xs ! (length xs - 1)" by (simp add: last_conv_nth)
  have "x \<le> last (sort xs)" if "x \<in> set xs" for x
  proof -
    have "x \<in> set (sort xs)" using that by simp
    then obtain i where "i < length (sort xs)" "sort xs ! i = x" unfolding in_set_conv_nth by blast
    then show ?thesis unfolding l by (auto intro!: sorted_nth_mono)
  qed
  then show ?thesis using s last_in_set [of "sort xs"] by auto
qed

text \<open>The end-to-end report of any latencies, of which the code takes none to be negative: the
  percentiles are in order and at most the maximum, which was measured, and the average, in
  rounded arithmetic, does not exceed the maximum.\<close>

theorem e2e_report_sound:
  assumes "xs \<noteq> []" "length xs * 1000 < 2 ^ 64" "list_all (\<lambda>x. 0 \<le> x) xs" "sum_list xs < 2 ^ 53" "int (length xs) < 2 ^ 53"
  shows "\<exists>r. e2e_counters xs = Inr (Some r) \<and> pc_p50 (rep_percentiles r) \<le> pc_p99 (rep_percentiles r)
    \<and> pc_p99 (rep_percentiles r) \<le> pc_p999 (rep_percentiles r) \<and> pc_p999 (rep_percentiles r) \<le> rep_max r
    \<and> rep_max r \<in> set xs \<and> rep_avg r \<le> double_of_int (rep_max r)"
proof -
  obtain p where p: "latency_percentiles xs = Inr (Some p)" "pc_p50 p \<le> pc_p99 p" "pc_p99 p \<le> pc_p999 p" "pc_p999 p \<in> set xs"
    using percentile_facts [OF assms(1,2)] by auto
  note m = last_sort_max [OF assms(1)]
  then have "double_of_int (sum_list xs) / double_of_int (int (length xs)) \<le> double_of_int (last (sort xs))"
    using assms by (intro average_at_most) (auto simp: list_all_iff)
  then show ?thesis using p m by (simp add: e2e_counters_def)
qed

section \<open>Stage times\<close>

lemma single_iteration_times:
  assumes "single_iteration jl json st = Inr (t, st')"
  shows "sg_total t = sg_parse t + sg_orderbook t + sg_aggregator t + sg_signal t"
  using assms by (auto simp: single_iteration_def bench_now_def now_def Let_def res_simps elapsed_ns_def)

text \<open>The four stages of an iteration add up to its total.\<close>

theorem single_loop_times:
  assumes "single_loop jl json n st = Inr (ts, st')"
  shows "length ts = n \<and> list_all (\<lambda>t. sg_total t = sg_parse t + sg_orderbook t + sg_aggregator t + sg_signal t) ts"
  using assms
proof (induction n arbitrary: st ts st')
  case (Suc n)
  then obtain t st1 ts' where t: "single_iteration jl json st = Inr (t, st1)" "single_loop jl json n st1 = Inr (ts', st')" "ts = t # ts'"
    by (fastforce simp: res_simps)
  show ?case using Suc.IH [OF t(2)] single_iteration_times [OF t(1)] by (simp add: t(3))
qed simp

section \<open>Concrete runs\<close>

text \<open>The beginning of the benchmark's own message.\<close>

definition bench_json :: json_lib where
  "bench_json = sample_json\<lparr>jl_string := (\<lambda>d k. if k = ''e'' then Some ''depthUpdate'' else if k = ''s'' then Some ''BTCUSDT'' else None),
     jl_levels := (\<lambda>d k. Some (if k = ''b'' then [Pair (Some ''97850.10'') (Some ''1.234''), Pair (Some ''97849.50'') (Some ''0.567'')]
       else [Pair (Some ''97851.00'') (Some ''0.890''), Pair (Some ''97852.50'') (Some ''1.230'')]))\<rparr>"

lemma bench_message_ok: "ok (apply_update (bench_update bench_json sample_doc) (new_book ''BTCUSDT''))"
  "du_bid_count (bench_update bench_json sample_doc) = 2"
  by code_simp+

theorem two_thread_completes_witness:
  "\<exists>q be. two_thread bench_json sample_doc id (concat (replicate 2 [Producer_Turn, Consumer_Turn])) [(0, 1), (2, 3)] sample_clock
    = Inr (Some (Inr (q, be)))"
  using two_thread_completes [OF bench_message_ok(1), of id "[(0, 1), (2, 3)]" sample_clock] by (simp add: numeral_2_eq_2)

theorem two_thread_measures_witness:
  "\<exists>q be. two_thread bench_json sample_doc id (concat (replicate 2 [Producer_Turn, Consumer_Turn])) [(0, 1), (2, 3)] sample_clock
    = Inr (Some (Inr (q, be))) \<and> length (be_latencies be) = 2"
proof -
  obtain q be where r: "two_thread bench_json sample_doc id (concat (replicate 2 [Producer_Turn, Consumer_Turn]))
      [(0, 1), (2, 3)] sample_clock = Inr (Some (Inr (q, be)))"
    using alternating_run [OF bench_message_ok(1), of id "[(0, 1), (2, 3)]" sample_clock] by (auto simp: numeral_2_eq_2)
  then show ?thesis using two_thread_measures [OF r] by auto
qed

theorem e2e_report_sound_witness:
  "\<exists>r. e2e_counters [900, 100, 300] = Inr (Some r) \<and> pc_p999 (rep_percentiles r) \<le> rep_max r \<and> rep_avg r \<le> double_of_int (rep_max r)"
  using e2e_report_sound [of "[900, 100, 300]"] by auto

end
