(* ===== verification/Bench_Order_Book.thy ===== *)
theory Bench_Order_Book
  imports Bench_Pipeline
begin

text \<open>
  \<open>bench/bench_orderbook.cpp\<close>: random depth updates and the four benchmarks over them. The
  standard library's generator is an argument: a source that answers each draw of a uniform
  distribution with a number within the bounds of the distribution. The lemmas say that the
  generated updates are sound and that no benchmark runs into undefined behaviour.
\<close>

section \<open>Random updates\<close>

record random_source =
  rs_draw :: "nat \<Rightarrow> double \<Rightarrow> double \<Rightarrow> double"
  rs_count :: nat

definition uniform :: "double \<Rightarrow> double \<Rightarrow> random_source \<Rightarrow> double \<times> random_source" where
  "uniform lo hi src = (rs_draw src (rs_count src) lo hi, src\<lparr>rs_count := Suc (rs_count src)\<rparr>)"

text \<open>What \<open>std::uniform_real_distribution\<close> documents.\<close>

definition uniform_ok :: "random_source \<Rightarrow> bool" where
  "uniform_ok src \<longleftrightarrow> (\<forall>n lo hi. d_finite lo \<and> d_finite hi \<and> lo \<le> hi \<longrightarrow> lo \<le> rs_draw src n lo hi \<and> rs_draw src n lo hi \<le> hi)"

definition random_qty :: "random_source \<Rightarrow> double \<times> random_source" where
  "random_qty src = (case uniform 0 1 src of (r, src) \<Rightarrow>
     if r < double_lit 1 10 then (0, src) else uniform (double_lit 1 1000) (double_of_int 5) src)"

definition level_offset :: "nat \<Rightarrow> double" where
  "level_offset i = double_of_int (int i + 1) * double_lit 1 10"

definition random_level :: "double \<Rightarrow> nat \<Rightarrow> depth_update \<times> random_source \<Rightarrow> depth_update \<times> random_source" where
  "random_level mid i st =
     (case random_qty (snd st) of (bid_qty, src) \<Rightarrow>
      case random_qty src of (ask_qty, src) \<Rightarrow>
      ((fst st)\<lparr>du_bids := (du_bids (fst st))[i := \<lparr>lv_price = mid - level_offset i, lv_qty = bid_qty\<rparr>],
                du_asks := (du_asks (fst st))[i := \<lparr>lv_price = mid + level_offset i, lv_qty = ask_qty\<rparr>]\<rparr>, src))"

definition make_depth_update :: "nat \<Rightarrow> u64 \<Rightarrow> random_source \<Rightarrow> depth_update \<times> random_source" where
  "make_depth_update levels seq src =
     (let count = of_nat (min levels MAX_LEVELS) :: u16;
          u = new_update\<lparr>du_symbol := ''BTCUSDT'', du_event_time_ms := 1672531200000 + seq,
            du_first_update_id := seq, du_last_update_id := seq, du_bid_count := count, du_ask_count := count\<rparr>
      in case uniform (double_of_int 97000) (double_of_int 98000) src of (mid, src) \<Rightarrow>
         fold (random_level mid) [0..<unat count] (u, src))"

section \<open>The benchmarks\<close>

text \<open>Every loop makes the update of the next number and hands it to the body.\<close>

fun update_loop ::
    "(depth_update \<Rightarrow> 's \<Rightarrow> 's res) \<Rightarrow> nat \<Rightarrow> nat \<Rightarrow> u64 \<Rightarrow> 's \<times> random_source \<Rightarrow> ('s \<times> random_source) res" where
  "update_loop body levels 0 seq st = Inr st"
| "update_loop body levels (Suc n) seq st = (case make_depth_update levels seq (snd st) of (u, src) \<Rightarrow>
     bind_res (body u (fst st)) (\<lambda>s. update_loop body levels n (seq + 1) (s, src)))"

definition aggregate_body :: "depth_update \<Rightarrow> order_book \<times> aggregator \<Rightarrow> (order_book \<times> aggregator) res" where
  "aggregate_body u s = bind_res (apply_update u (fst s)) (\<lambda>book. Inr (book, agg_update book (snd s)))"

type_synonym signal_bench = "(order_book \<times> aggregator) \<times> (detector \<times> u64) \<times> clock"

definition signal_body :: "depth_update \<Rightarrow> signal_bench \<Rightarrow> signal_bench res" where
  "signal_body u s = bind_res (aggregate_body u (fst s)) (\<lambda>ba.
     Inr (ba, evaluate (Some count_signal) ''BTCUSDT'' (fst ba) (ag_snapshot (snd ba)) None (snd s)))"

definition bm_order_book_update :: "nat \<Rightarrow> nat \<Rightarrow> random_source \<Rightarrow> (order_book \<times> random_source) res" where
  "bm_order_book_update levels iterations src = update_loop apply_update levels iterations 1 (new_book ''BTCUSDT'', src)"

definition book_queries :: "order_book \<Rightarrow> double list" where
  "book_queries b = [best_bid_price b, best_ask_price b, spread b, mid_price b, bid_vwap 5 b, ask_vwap 5 b,
     total_bid_qty b, total_ask_qty b]"

definition bm_order_book_queries :: "random_source \<Rightarrow> double list res" where
  "bm_order_book_queries src = bind_res (update_loop apply_update 20 200 1 (new_book ''BTCUSDT'', src)) (\<lambda>st.
     Inr (book_queries (fst st)))"

definition bm_aggregator_update :: "nat \<Rightarrow> random_source \<Rightarrow> ((order_book \<times> aggregator) \<times> random_source) res" where
  "bm_aggregator_update iterations src =
     bind_res (update_loop apply_update 20 100 1 (new_book ''BTCUSDT'', src)) (\<lambda>st.
     update_loop aggregate_body 20 iterations 101 ((fst st, new_aggregator 5 20), snd st))"

definition signal_bench_conditions :: "condition list" where
  "signal_bench_conditions =
     [\<lparr>cond_type = SPREAD_WIDE, cond_threshold = double_of_int 50, cond_cooldown_us = default_cooldown\<rparr>,
      \<lparr>cond_type = IMBALANCE_BID, cond_threshold = double_lit 7 10, cond_cooldown_us = default_cooldown\<rparr>,
      \<lparr>cond_type = IMBALANCE_ASK, cond_threshold = double_lit 7 10, cond_cooldown_us = default_cooldown\<rparr>,
      \<lparr>cond_type = PRICE_DEVIATION, cond_threshold = double_lit 1 1000, cond_cooldown_us = default_cooldown\<rparr>]"

definition bm_signal_detection :: "nat \<Rightarrow> random_source \<Rightarrow> clock \<Rightarrow> (signal_bench \<times> random_source) res" where
  "bm_signal_detection iterations src clk =
     bind_res (update_loop aggregate_body 20 100 1 ((new_book ''BTCUSDT'', new_aggregator 5 20), src)) (\<lambda>st.
     update_loop signal_body 20 iterations 101
       ((fst st, (fold add_condition signal_bench_conditions new_detector, 0), clk), snd st))"

section \<open>Generated updates are sound\<close>

lemma uniform_bounds:
  assumes "uniform_ok src" "d_finite lo" "d_finite hi" "lo \<le> hi" "uniform lo hi src = (r, src')"
  shows "lo \<le> r" "r \<le> hi" "uniform_ok src'"
  using assms by (auto simp: uniform_def uniform_ok_def)

lemma random_qty_ok:
  assumes "uniform_ok src" "random_qty src = (r, src')"
  shows "uniform_ok src'"
  using assms by (auto simp: random_qty_def uniform_def uniform_ok_def split: if_splits)

lemma tenth: "d_finite (double_lit 1 10)" "0 \<le> d_key (double_lit 1 10)" "d_key (double_lit 1 10) \<le> d_key 1"
  by code_simp+

lemma offsets:
  assumes "i < 64"
  shows "d_finite (level_offset i)" "0 \<le> d_val (level_offset i)" "d_val (level_offset i) \<le> 64"
proof -
  let ?k = "int i + 1" and ?t = "d_val (double_lit 1 10)"
  have k: "0 \<le> ?k" "?k < 2 ^ 53" "?k \<le> 64" using assms by simp_all
  note e = double_of_int_exact [OF k(1,2)] and e64 = double_of_int_exact [of 64]
  have t: "0 \<le> ?t" "?t \<le> 1" using tenth d_val_le_iff [of "double_lit 1 10" 1] by (simp_all add: d_key_nonneg_val)
  have key: "d_key (level_offset i) = srnd (of_int ?k * ?t)" using e tenth(1) by (simp only: level_offset_def key_mult)
  have "of_int ?k * ?t \<le> 64 * 1" using k t by (intro mult_mono) simp_all
  then have "srnd (of_int ?k * ?t) \<le> srnd (d_val (double_of_int 64))" using e64 by (intro srnd_mono) simp
  then have hi: "d_key (level_offset i) \<le> d_key (double_of_int 64)" using key srnd_d_val [of "double_of_int 64"] e64 by simp
  have "srnd 0 \<le> srnd (of_int ?k * ?t)" using k t by (intro srnd_mono) simp
  then have lo: "0 \<le> d_key (level_offset i)" using key by simp
  show "0 \<le> d_val (level_offset i)" using lo by (simp add: d_key_nonneg_val)
  show "d_val (level_offset i) \<le> 64" using d_key_mono_val [OF hi] e64 by simp
  show "d_finite (level_offset i)" using lo hi e64(2) by (simp add: d_finite_key inf_mag_def)
qed

definition mid_ok :: "double \<Rightarrow> bool" where
  "mid_ok mid \<longleftrightarrow> double_of_int 97000 \<le> mid \<and> mid \<le> double_of_int 98000"

lemma mid_bounds: "d_finite (double_of_int 97000)" "d_finite (double_of_int 98000)" "double_of_int 97000 \<le> double_of_int 98000"
  by code_simp+

lemma between_finite:
  assumes "d_finite a" "d_finite c" "d_key a \<le> k" "k \<le> d_key c" "d_key d = k"
  shows "d_finite d"
  using assms by (simp add: d_finite_key)

lemma random_prices:
  assumes "mid_ok mid" "i < 64"
  shows "d_finite (mid - level_offset i)" "mid - level_offset i \<le> mid" "d_finite (mid + level_offset i)" "mid \<le> mid + level_offset i"
proof -
  let ?o = "level_offset i"
  have k: "d_key (double_of_int 97000) \<le> d_key mid" "d_key mid \<le> d_key (double_of_int 98000)"
    using assms(1) by (simp_all add: mid_ok_def less_eq_double_def)
  have mid: "d_finite mid" by (rule between_finite [OF mid_bounds(1,2) k refl])
  note o = offsets [OF assms(2)]
  have v: "97000 \<le> d_val mid" "d_val mid \<le> 98000"
    using k d_val_le_iff [of "double_of_int 97000" mid] d_val_le_iff [of mid "double_of_int 98000"]
      double_of_int_exact [of 97000] double_of_int_exact [of 98000] by simp_all
  have km: "srnd (d_val mid) = d_key mid" by (rule srnd_d_val [OF mid])
  have minus: "d_key (mid - ?o) = srnd (d_val mid - d_val ?o)" and plus: "d_key (mid + ?o) = srnd (d_val mid + d_val ?o)"
    using mid o(1) by (simp_all add: ieee)
  have n: "\<not> d_nan (mid - ?o)" "\<not> d_nan (mid + ?o)" using not_nan_arith mid o(1) by blast+
  have "srnd (d_val mid - d_val ?o) \<le> srnd (d_val mid)" using o(2) by (intro srnd_mono) simp
  then have m1: "d_key (mid - ?o) \<le> d_key mid" using minus km by simp
  then show "mid - ?o \<le> mid" using n(1) mid by (simp add: less_eq_double_def)
  have "srnd 0 \<le> srnd (d_val mid - d_val ?o)" using v o by (intro srnd_mono) simp
  then have "d_key 0 \<le> d_key (mid - ?o)" using minus by simp
  then show "d_finite (mid - ?o)" by (rule between_finite [OF d_class_zero(1) mid _ m1 refl])
  have "srnd (d_val mid) \<le> srnd (d_val mid + d_val ?o)" using o(2) by (intro srnd_mono) simp
  then have p1: "d_key mid \<le> d_key (mid + ?o)" using plus km by simp
  then show "mid \<le> mid + ?o" using n(2) mid by (simp add: less_eq_double_def)
  have "srnd (d_val mid + d_val ?o) \<le> srnd (d_val (double_of_int 98064))"
    using v o double_of_int_exact [of 98064] by (intro srnd_mono) simp
  then have "d_key (mid + ?o) \<le> d_key (double_of_int 98064)"
    using plus srnd_d_val [of "double_of_int 98064"] double_of_int_exact [of 98064] by simp
  then show "d_finite (mid + ?o)"
    using double_of_int_exact [of 98064] by (intro between_finite [OF mid _ p1 _ refl, of "double_of_int 98064"]) simp_all
qed

text \<open>The state of the loop over the levels after \<open>n\<close> of them.\<close>

definition levels_done :: "double \<Rightarrow> nat \<Rightarrow> depth_update \<Rightarrow> bool" where
  "levels_done mid n u \<longleftrightarrow> length (du_bids u) = MAX_LEVELS \<and> length (du_asks u) = MAX_LEVELS
     \<and> (\<forall>i<n. lv_price (du_bids u ! i) = mid - level_offset i \<and> lv_price (du_asks u ! i) = mid + level_offset i)"

lemma random_level_done:
  assumes "levels_done mid n u" "uniform_ok src" "n < MAX_LEVELS" "random_level mid n (u, src) = (u', src')"
  shows "levels_done mid (Suc n) u' \<and> uniform_ok src'"
proof -
  obtain bq src1 where 1: "random_qty src = (bq, src1)" by fastforce
  obtain aq src2 where 2: "random_qty src1 = (aq, src2)" by fastforce
  have "uniform_ok src2" by (rule random_qty_ok [OF random_qty_ok [OF assms(2) 1] 2])
  then show ?thesis
    using assms(1,3,4) 1 2 by (auto simp: random_level_def levels_done_def nth_list_update less_Suc_eq)
qed

lemma random_level_counts:
  "random_level mid n st = st' \<Longrightarrow> du_bid_count (fst st') = du_bid_count (fst st) \<and> du_ask_count (fst st') = du_ask_count (fst st)
    \<and> du_last_update_id (fst st') = du_last_update_id (fst st)"
  by (auto simp: random_level_def split: prod.splits)

lemma random_levels_done:
  assumes "levels_done mid 0 u" "uniform_ok src" "n \<le> MAX_LEVELS" "fold (random_level mid) [0..<n] (u, src) = (u', src')"
  shows "levels_done mid n u' \<and> uniform_ok src' \<and> du_bid_count u' = du_bid_count u \<and> du_ask_count u' = du_ask_count u
    \<and> du_last_update_id u' = du_last_update_id u"
  using assms(3,4)
proof (induction n arbitrary: u' src')
  case 0
  then show ?case using assms(1,2) by simp
next
  case (Suc n)
  obtain u1 src1 where f: "fold (random_level mid) [0..<n] (u, src) = (u1, src1)" by fastforce
  then have l: "random_level mid n (u1, src1) = (u', src')" using Suc.prems(2) by simp
  have n: "n \<le> MAX_LEVELS" "n < MAX_LEVELS" using Suc.prems(1) by simp_all
  show ?case using Suc.IH [OF n(1) f] random_level_done [OF _ _ n(2) l] random_level_counts [OF l] by auto
qed

text \<open>What the generator promises.\<close>

lemma make_depth_update_facts:
  assumes "uniform_ok src" "make_depth_update levels seq src = (u, src')"
  shows "uniform_ok src'" "du_last_update_id u = seq" "wf_update u"
    "unat (du_bid_count u) = min levels MAX_LEVELS" "unat (du_ask_count u) = min levels MAX_LEVELS"
    "\<exists>mid. mid_ok mid \<and> levels_done mid (min levels MAX_LEVELS) u"
proof -
  let ?n = "min levels MAX_LEVELS"
  obtain mid src1 where mid: "uniform (double_of_int 97000) (double_of_int 98000) src = (mid, src1)" by fastforce
  note b = uniform_bounds [OF assms(1) mid_bounds mid]
  have "?n < 2 ^ 16" by (simp add: MAX_LEVELS_def)
  then have c: "unat (of_nat ?n :: u16) = ?n" by (simp add: unsigned_of_nat take_bit_nat_eq_self)
  define u0 where "u0 = new_update\<lparr>du_symbol := ''BTCUSDT'', du_event_time_ms := 1672531200000 + seq,
            du_first_update_id := seq, du_last_update_id := seq, du_bid_count := of_nat ?n, du_ask_count := of_nat ?n\<rparr>"
  have f: "fold (random_level mid) [0..<?n] (u0, src1) = (u, src')"
    using assms(2) mid c by (simp add: make_depth_update_def Let_def u0_def)
  have "levels_done mid 0 u0" by (simp add: levels_done_def u0_def new_update_def)
  then have d: "levels_done mid ?n u" "uniform_ok src'" "du_bid_count u = of_nat ?n" "du_ask_count u = of_nat ?n" "du_last_update_id u = seq"
    using random_levels_done [OF _ b(3) _ f] by (simp_all add: u0_def)
  then show "uniform_ok src'" "du_last_update_id u = seq" "unat (du_bid_count u) = ?n" "unat (du_ask_count u) = ?n"
    using c by simp_all
  then show "wf_update u" using d(1) by (simp add: wf_update_def levels_done_def)
  show "\<exists>mid. mid_ok mid \<and> levels_done mid ?n u" using b(1,2) d(1) by (auto simp: mid_ok_def)
qed

lemma counted_prices:
  assumes "levels_done mid n u" "n \<le> MAX_LEVELS" "unat (du_bid_count u) = n" "unat (du_ask_count u) = n"
  shows "map lv_price (counted_bids u) = map (\<lambda>i. mid - level_offset i) [0..<n]"
    "map lv_price (counted_asks u) = map (\<lambda>i. mid + level_offset i) [0..<n]"
  using assms by (auto simp: counted_bids_def counted_asks_def levels_done_def intro!: nth_equalityI)

lemma make_depth_update_prices:
  assumes "uniform_ok src" "make_depth_update levels seq src = (u, src')"
  shows "\<exists>mid. mid_ok mid \<and> map lv_price (counted_bids u) = map (\<lambda>i. mid - level_offset i) [0..<min levels MAX_LEVELS]
    \<and> map lv_price (counted_asks u) = map (\<lambda>i. mid + level_offset i) [0..<min levels MAX_LEVELS]"
  using make_depth_update_facts [OF assms] counted_prices [of _ "min levels MAX_LEVELS" u] by auto

lemma make_depth_update_applies:
  assumes "uniform_ok src" "make_depth_update levels seq src = (u, src')"
  shows "ok (apply_update u b)"
proof -
  obtain mid where mid: "mid_ok mid" "map lv_price (counted_bids u) = map (\<lambda>i. mid - level_offset i) [0..<min levels MAX_LEVELS]"
    "map lv_price (counted_asks u) = map (\<lambda>i. mid + level_offset i) [0..<min levels MAX_LEVELS]"
    using make_depth_update_prices [OF assms] by blast
  have nan: "\<not> d_nan (mid - level_offset i) \<and> \<not> d_nan (mid + level_offset i)" if "i < min levels MAX_LEVELS" for i
    using random_prices [OF mid(1), of i] that by (simp add: MAX_LEVELS_def)
  have ex: "list_ex (\<lambda>l. d_nan (lv_price l)) ls = list_ex d_nan (map lv_price ls)" for ls by (induction ls) simp_all
  have "\<not> list_ex (\<lambda>l. d_nan (lv_price l)) (counted_bids u)" "\<not> list_ex (\<lambda>l. d_nan (lv_price l)) (counted_asks u)"
    unfolding ex mid(2,3) using nan by (simp_all add: list_ex_iff)
  then show ?thesis using make_depth_update_facts(3) [OF assms] by (simp add: apply_update_defined wf_update_def)
qed

text \<open>A generated update is within the bounds of its arrays, has the number of levels asked for, at
  most 64, and finite prices, bids at most and asks at least a common mid price; so it can be
  applied to any book.\<close>

theorem make_depth_update_sound:
  assumes "uniform_ok src" "make_depth_update levels seq src = (u, src')"
  shows "wf_update u \<and> length (counted_bids u) = min levels 64 \<and> length (counted_asks u) = min levels 64
    \<and> (\<exists>mid. list_all (\<lambda>l. d_finite (lv_price l) \<and> lv_price l \<le> mid) (counted_bids u)
          \<and> list_all (\<lambda>l. d_finite (lv_price l) \<and> mid \<le> lv_price l) (counted_asks u))
    \<and> ok (apply_update u b)"
proof -
  let ?n = "min levels MAX_LEVELS"
  obtain mid where mid: "mid_ok mid" "map lv_price (counted_bids u) = map (\<lambda>i. mid - level_offset i) [0..<?n]"
    "map lv_price (counted_asks u) = map (\<lambda>i. mid + level_offset i) [0..<?n]"
    using make_depth_update_prices [OF assms] by blast
  have len: "length (counted_bids u) = ?n" "length (counted_asks u) = ?n"
    using arg_cong [OF mid(2), of length] arg_cong [OF mid(3), of length] by simp_all
  have p: "list_all (\<lambda>l. P (lv_price l)) ls = list_all P (map lv_price ls)" for P and ls :: "price_level list" by (induction ls) simp_all
  have lt: "i < ?n \<Longrightarrow> i < 64" for i by (simp add: MAX_LEVELS_def)
  have "list_all (\<lambda>l. d_finite (lv_price l) \<and> lv_price l \<le> mid) (counted_bids u)"
    unfolding p [of "\<lambda>x. d_finite x \<and> x \<le> mid"] mid(2) using random_prices [OF mid(1) lt] by (simp add: list_all_iff)
  moreover have "list_all (\<lambda>l. d_finite (lv_price l) \<and> mid \<le> lv_price l) (counted_asks u)"
    unfolding p [of "\<lambda>x. d_finite x \<and> mid \<le> x"] mid(3) using random_prices [OF mid(1) lt] by (simp add: list_all_iff)
  ultimately show ?thesis
    using make_depth_update_facts(3) [OF assms] make_depth_update_applies [OF assms] len by (auto simp: MAX_LEVELS_def)
qed

section \<open>The benchmarks are defined\<close>

text \<open>A loop whose body is defined wherever the update can be applied, with an invariant.\<close>

lemma update_loop_runs:
  assumes "uniform_ok src" "I seq s"
    and "\<And>u s seq. I seq s \<Longrightarrow> ok (apply_update u (book_of s)) \<Longrightarrow> du_last_update_id u = seq \<Longrightarrow> \<exists>s'. body u s = Inr s' \<and> I (seq + 1) s'"
  shows "\<exists>s' src'. update_loop body levels n seq (s, src) = Inr (s', src') \<and> I (seq + of_nat n) s' \<and> uniform_ok src'"
  using assms(1,2)
proof (induction n arbitrary: seq s src)
  case (Suc n)
  obtain u src1 where u: "make_depth_update levels seq src = (u, src1)" by fastforce
  obtain s1 where s1: "body u s = Inr s1" "I (seq + 1) s1"
    using assms(3) [OF Suc.prems(2) make_depth_update_applies [OF Suc.prems(1) u]] make_depth_update_facts(2) [OF Suc.prems(1) u] by blast
  then show ?case using Suc.IH [OF make_depth_update_facts(1) [OF Suc.prems(1) u] s1(2)] u s1(1) by (simp add: add.assoc)
qed auto

text \<open>The book after the updates numbered below \<open>seq\<close>.\<close>

definition built :: "u64 \<Rightarrow> order_book \<Rightarrow> bool" where
  "built seq b \<longleftrightarrow> book_inv b \<and> ob_last_update_id b = seq - 1 \<and> ob_update_count b = seq - 1"

lemma built_new: "built 1 (new_book name)"
  using book_inv_new [of name] by (simp add: built_def new_book_def)

lemma built_step:
  assumes "built seq b" "apply_update u b = Inr b'" "du_last_update_id u = seq"
  shows "built (seq + 1) b'"
  using assms update_inv [of b u b'] update_fields [OF assms(2)] by (simp add: built_def)

lemma apply_body: "built seq b \<Longrightarrow> ok (apply_update u b) \<Longrightarrow> du_last_update_id u = seq \<Longrightarrow> \<exists>b'. apply_update u b = Inr b' \<and> built (seq + 1) b'"
  using built_step by (metis okE)

lemma aggregate_ok: "built seq (fst s) \<Longrightarrow> ok (apply_update u (fst s)) \<Longrightarrow> du_last_update_id u = seq
    \<Longrightarrow> \<exists>s'. aggregate_body u s = Inr s' \<and> built (seq + 1) (fst s')"
  using apply_body [of seq "fst s" u] by (auto simp: aggregate_body_def)

lemma book_loop_runs:
  assumes "uniform_ok src"
  shows "\<exists>b src'. update_loop apply_update levels n 1 (new_book name, src) = Inr (b, src') \<and> built (1 + of_nat n) b \<and> uniform_ok src'"
  using update_loop_runs [where I = built and book_of = "\<lambda>b. b" and body = apply_update, OF assms built_new apply_body]
  by blast

text \<open>Counting in the callback agrees with the detector's own counter.\<close>

lemma count_condition:
  "snd (fst st) = det_signals_fired (fst (fst st)) \<Longrightarrow>
    snd (fst (eval_condition (Some count_signal) name agg tr c st)) = det_signals_fired (fst (fst (eval_condition (Some count_signal) name agg tr c st)))"
  by (cases st) (auto simp: eval_condition_cases fire_def run_callback_def count_signal_def)

lemma count_evaluate:
  assumes "snd (fst st) = det_signals_fired (fst (fst st))"
  shows "snd (fst (evaluate (Some count_signal) name book agg tr st)) = det_signals_fired (fst (fst (evaluate (Some count_signal) name book agg tr st)))"
proof -
  have "snd (fst (fold (eval_condition (Some count_signal) name agg tr) cs st))
      = det_signals_fired (fst (fst (fold (eval_condition (Some count_signal) name agg tr) cs st)))" for cs
    using assms by (induction cs arbitrary: st) (simp_all add: count_condition)
  then show ?thesis using assms by (simp add: evaluate_def)
qed

text \<open>For any sound random source, no benchmark of the order book meets undefined behaviour, for any
  number of levels and iterations; the book stays sorted and counts the updates, and the
  number of signals reported is the detector's.\<close>

theorem book_benchmarks_sound:
  assumes "uniform_ok src"
  shows "(\<exists>b src'. bm_order_book_update levels n src = Inr (b, src') \<and> book_inv b
        \<and> ob_update_count b = of_nat n \<and> ob_last_update_id b = of_nat n)
    \<and> (\<exists>answers. bm_order_book_queries src = Inr answers)
    \<and> (\<exists>s src'. bm_aggregator_update n src = Inr (s, src') \<and> book_inv (fst s) \<and> ob_update_count (fst s) = 100 + of_nat n)
    \<and> (\<exists>s src'. bm_signal_detection n src clk = Inr (s, src') \<and> book_inv (fst (fst s))
        \<and> snd (fst (snd s)) = det_signals_fired (fst (fst (snd s))))"
proof (intro conjI)
  show "\<exists>b src'. bm_order_book_update levels n src = Inr (b, src') \<and> book_inv b
        \<and> ob_update_count b = of_nat n \<and> ob_last_update_id b = of_nat n"
    using book_loop_runs [OF assms, of levels n "''BTCUSDT''"] by (auto simp: bm_order_book_update_def built_def)
  show "\<exists>answers. bm_order_book_queries src = Inr answers"
    using book_loop_runs [OF assms, of 20 200 "''BTCUSDT''"] by (auto simp: bm_order_book_queries_def)
  show "\<exists>s src'. bm_aggregator_update n src = Inr (s, src') \<and> book_inv (fst s) \<and> ob_update_count (fst s) = 100 + of_nat n"
  proof -
    obtain b src1 where b: "update_loop apply_update 20 100 1 (new_book ''BTCUSDT'', src) = Inr (b, src1)" "built 101 b" "uniform_ok src1"
      using book_loop_runs [OF assms, of 20 100 "''BTCUSDT''"] by auto
    obtain s src' where "update_loop aggregate_body 20 n 101 ((b, new_aggregator 5 20), src1) = Inr (s, src')" "built (101 + of_nat n) (fst s)"
      using update_loop_runs [OF b(3), where I = "\<lambda>seq s. built seq (fst s)" and book_of = fst and body = aggregate_body
          and s = "(b, new_aggregator 5 20)" and seq = 101 and levels = 20 and n = n] b(2) aggregate_ok by auto
    then show ?thesis using b(1) by (auto simp: bm_aggregator_update_def built_def)
  qed
  show "\<exists>s src'. bm_signal_detection n src clk = Inr (s, src') \<and> book_inv (fst (fst s))
        \<and> snd (fst (snd s)) = det_signals_fired (fst (fst (snd s)))"
  proof -
    let ?d = "((fold add_condition signal_bench_conditions new_detector, 0), clk)"
    define I where "I seq s \<longleftrightarrow> built seq (fst (fst s)) \<and> snd (fst (snd s)) = det_signals_fired (fst (fst (snd s)))" for seq and s :: signal_bench
    obtain ba src1 where ba: "update_loop aggregate_body 20 100 1 ((new_book ''BTCUSDT'', new_aggregator 5 20), src) = Inr (ba, src1)"
      "built 101 (fst ba)" "uniform_ok src1"
      using update_loop_runs [OF assms, where I = "\<lambda>seq s. built seq (fst s)" and book_of = fst and body = aggregate_body
          and s = "(new_book ''BTCUSDT'', new_aggregator 5 20)" and seq = 1 and levels = 20 and n = 100] built_new aggregate_ok by auto
    have d: "det_signals_fired (fold add_condition cs d) = det_signals_fired d" for cs d
      by (induction cs arbitrary: d) (simp_all add: add_condition_def)
    have start: "I 101 (ba, ?d)" using ba(2) by (simp add: I_def d new_detector_def)
    have step: "\<exists>s'. signal_body u s = Inr s' \<and> I (seq + 1) s'"
      if h: "I seq s" "ok (apply_update u (fst (fst s)))" "du_last_update_id u = seq" for u s seq
    proof -
      obtain ba' where "aggregate_body u (fst s) = Inr ba'" "built (seq + 1) (fst ba')"
        using aggregate_ok [of seq "fst s" u] h unfolding I_def by blast
      then show ?thesis using h(1) count_evaluate [of "snd s"] by (simp add: signal_body_def I_def)
    qed
    obtain s src' where "update_loop signal_body 20 n 101 ((ba, ?d), src1) = Inr (s, src')" "I (101 + of_nat n) s"
      using update_loop_runs [where I = I and book_of = "\<lambda>s. fst (fst s)" and body = signal_body and levels = 20 and n = n,
          OF ba(3) start step] by blast
    then show ?thesis using ba(1) by (auto simp: bm_signal_detection_def I_def built_def)
  qed
qed

section \<open>A concrete source\<close>

text \<open>It always draws the lower bound.\<close>

definition low_source :: random_source where
  "low_source = \<lparr>rs_draw = (\<lambda>n lo hi. lo), rs_count = 0\<rparr>"

lemma low_source_ok: "uniform_ok low_source"
  by (auto simp: uniform_ok_def low_source_def)

theorem make_depth_update_sound_witness:
  "\<exists>u src. make_depth_update 100 1 low_source = (u, src) \<and> wf_update u \<and> length (counted_bids u) = 64"
proof -
  obtain u src where u: "make_depth_update 100 1 low_source = (u, src)" by fastforce
  from make_depth_update_sound [OF low_source_ok u] u show ?thesis by auto
qed

theorem book_benchmarks_sound_witness:
  "\<exists>b src. bm_order_book_update 5 3 low_source = Inr (b, src) \<and> book_inv b \<and> ob_update_count b = 3"
  using book_benchmarks_sound [OF low_source_ok, of 5 3 sample_clock] by auto

end
