(* ===== verification/Bench_Json.thy ===== *)
theory Bench_Json
  imports Json_Tree Feed_Parser
begin

text \<open>
  \<open>bench/bench_json_parse.cpp\<close> compares the engine's depth parser with a second one written over
  the library nlohmann. Neither library is part of the repository: both are arguments. The
  lemmas say when the two parsers give the same update, which the comparison takes for
  granted, and where they differ.
\<close>

section \<open>The second parser\<close>

text \<open>\<open>nl_parse\<close> is \<open>None\<close> for a discarded text; \<open>nl_uint64\<close> is \<open>None\<close> when \<open>get<uint64_t>\<close> throws.\<close>

record nlohmann =
  nl_parse :: "string \<Rightarrow> json option"
  nl_uint64 :: "json \<Rightarrow> u64 option"

definition bind_opt :: "'a option \<Rightarrow> ('a \<Rightarrow> 'b option) \<Rightarrow> 'b option" where
  [code_unfold]: "bind_opt x k = (case x of None \<Rightarrow> None | Some y \<Rightarrow> k y)"

text \<open>The value at an index of a level, as a number.\<close>

definition nl_number :: "nat \<Rightarrow> json \<Rightarrow> double option" where
  "nl_number i level = bind_opt (json_index i level) (\<lambda>j. map_option fast_atof (json_text j))"

fun nl_levels :: "json list \<Rightarrow> price_level list \<Rightarrow> u16 \<Rightarrow> (price_level list \<times> u16) option" where
  "nl_levels [] levels count = Some (levels, count)"
| "nl_levels (l # ls) levels count =
     (if MAX_LEVELS \<le> unat count then Some (levels, count)
      else bind_opt (nl_number 0 l) (\<lambda>price. bind_opt (nl_number 1 l) (\<lambda>qty.
           nl_levels ls (levels[unat count := \<lparr>lv_price = price, lv_qty = qty\<rparr>]) (count + 1))))"

definition nl_side :: "string \<Rightarrow> json \<Rightarrow> price_level list \<Rightarrow> (price_level list \<times> u16) option" where
  "nl_side k doc levels = bind_opt (json_field k doc) (\<lambda>j. nl_levels (json_elements j) levels 0)"

definition nl_number_field :: "nlohmann \<Rightarrow> string \<Rightarrow> json \<Rightarrow> u64 option" where
  "nl_number_field nl k doc = bind_opt (json_field k doc) (nl_uint64 nl)"

definition unwrap :: "json \<Rightarrow> json" where
  "unwrap doc = (if json_contains doc ''data'' then (case json_field ''data'' doc of None \<Rightarrow> doc | Some d \<Rightarrow> d) else doc)"

text \<open>\<open>None\<close>: an exception left the parser.\<close>

definition nlohmann_parse :: "nlohmann \<Rightarrow> string \<Rightarrow> depth_update \<Rightarrow> (bool \<times> depth_update) option" where
  "nlohmann_parse nl json out = (case nl_parse nl json of
      None \<Rightarrow> Some (False, out)
    | Some tree \<Rightarrow>
       (let doc = unwrap tree
        in if \<not> json_contains doc ''e'' \<or> json_field ''e'' doc \<noteq> Some (J_String ''depthUpdate'') then Some (False, out)
           else bind_opt (nl_number_field nl ''E'' doc) (\<lambda>event_time.
                bind_opt (nl_number_field nl ''U'' doc) (\<lambda>first_id.
                bind_opt (nl_number_field nl ''u'' doc) (\<lambda>last_id.
                bind_opt (bind_opt (json_field ''s'' doc) json_text) (\<lambda>name.
                bind_opt (nl_side ''b'' doc (du_bids out)) (\<lambda>bids.
                bind_opt (nl_side ''a'' doc (du_asks out)) (\<lambda>asks.
                Some (True, out\<lparr>du_event_time_ms := event_time, du_first_update_id := first_id, du_last_update_id := last_id,
                  du_symbol := name, du_bids := fst bids, du_asks := fst asks,
                  du_bid_count := snd bids, du_ask_count := snd asks\<rparr>)))))))))"

section \<open>The benchmarks\<close>

text \<open>Both parse one text over and over into the same update. The combined variants differ in the text.\<close>

fun bm_simdjson_parse :: "json_lib \<Rightarrow> string \<Rightarrow> nat \<Rightarrow> depth_update \<Rightarrow> bool list \<times> depth_update" where
  "bm_simdjson_parse jl json 0 out = ([], out)"
| "bm_simdjson_parse jl json (Suc n) out = (case parse_depth jl json out of (r, out) \<Rightarrow>
     case bm_simdjson_parse jl json n out of (rs, out) \<Rightarrow> (r # rs, out))"

fun bm_nlohmann_parse :: "nlohmann \<Rightarrow> string \<Rightarrow> nat \<Rightarrow> depth_update \<Rightarrow> (bool list \<times> depth_update) option" where
  "bm_nlohmann_parse nl json 0 out = Some ([], out)"
| "bm_nlohmann_parse nl json (Suc n) out = bind_opt (nlohmann_parse nl json out) (\<lambda>r.
     bind_opt (bm_nlohmann_parse nl json n (snd r)) (\<lambda>rs. Some (fst r # fst rs, snd rs)))"

section \<open>Where the two parsers agree\<close>

text \<open>What both libraries see of one document: the fields of an object.\<close>

definition level_view :: "json \<Rightarrow> level_json" where
  "level_view j = (case j of
      J_Array xs \<Rightarrow> Pair (case xs of [] \<Rightarrow> None | p # _ \<Rightarrow> json_text p) (case xs of p # q # _ \<Rightarrow> json_text q | _ \<Rightarrow> None)
    | _ \<Rightarrow> Not_Array)"

definition is_uint64 :: "int \<Rightarrow> bool" where
  "is_uint64 n \<longleftrightarrow> 0 \<le> n \<and> n < 2 ^ 64"

definition describes :: "json_lib \<Rightarrow> string \<Rightarrow> (string \<times> json) list \<Rightarrow> bool" where
  "describes jl doc m \<longleftrightarrow> jl_valid jl doc
     \<and> (\<forall>k. jl_string jl doc k = bind_opt (map_of m k) json_text)
     \<and> (\<forall>k n. map_of m k = Some (J_Int n) \<and> is_uint64 n \<longrightarrow> jl_uint64 jl doc k = Some (of_int n))
     \<and> (\<forall>k xs. map_of m k = Some (J_Array xs) \<longrightarrow> jl_levels jl doc k = Some (map level_view xs))"

text \<open>The two libraries on a text whose innermost document has the fields \<open>m\<close>.\<close>

definition libraries_agree :: "json_lib \<Rightarrow> nlohmann \<Rightarrow> string \<Rightarrow> (string \<times> json) list \<Rightarrow> bool" where
  "libraries_agree jl nl json m \<longleftrightarrow>
     (\<exists>doc tree. inner_document jl json = Some doc \<and> describes jl doc m \<and> nl_parse nl json = Some tree \<and> unwrap tree = J_Object m)
   \<and> (\<forall>n. is_uint64 n \<longrightarrow> nl_uint64 nl (J_Int n) = Some (of_int n))"

text \<open>The format of the exchange: numbers, a symbol, and sides that are arrays of pairs of strings.\<close>

fun pair_of_strings :: "json \<Rightarrow> bool" where
  "pair_of_strings (J_Array [J_String p, J_String q]) = True"
| "pair_of_strings j = False"

definition exchange_format :: "(string \<times> json) list \<Rightarrow> bool" where
  "exchange_format m \<longleftrightarrow>
     list_all (\<lambda>k. case map_of m k of Some (J_Int n) \<Rightarrow> is_uint64 n | _ \<Rightarrow> False) [''E'', ''U'', ''u'']
   \<and> (case map_of m ''s'' of Some (J_String s) \<Rightarrow> True | _ \<Rightarrow> False)
   \<and> list_all (\<lambda>k. case map_of m k of Some (J_Array xs) \<Rightarrow> list_all pair_of_strings xs | _ \<Rightarrow> False) [''b'', ''a'']"

lemma pair_cases:
  assumes "pair_of_strings j"
  obtains p q where "j = J_Array [J_String p, J_String q]"
  using assms by (cases j rule: pair_of_strings.cases) auto

lemma nl_levels_agree:
  "list_all pair_of_strings xs \<Longrightarrow> nl_levels xs levels count = Some (parse_levels (map level_view xs) levels count)"
proof (induction xs levels count rule: nl_levels.induct)
  case (2 l ls levels count)
  obtain p q where l: "l = J_Array [J_String p, J_String q]" using "2.prems" by (auto elim: pair_cases)
  have n: "nl_number 0 l = Some (fast_atof p)" "nl_number 1 l = Some (fast_atof q)" "level_view l = Pair (Some p) (Some q)"
    by (simp_all add: nl_number_def json_index_def json_text_def bind_opt_def level_view_def l)
  show ?case
  proof (cases "MAX_LEVELS \<le> unat count")
    case False
    have "list_all pair_of_strings ls" using "2.prems" by simp
    from "2.IH" [OF False this] show ?thesis using False by (simp add: n bind_opt_def del: One_nat_def)
  qed simp
qed simp

lemma nl_side_agree:
  assumes "map_of m k = Some (J_Array xs)" "list_all pair_of_strings xs" "jl_levels jl doc k = Some (map level_view xs)"
  shows "nl_side k (J_Object m) levels = Some (parse_side (jl_levels jl doc k) levels)"
  using assms by (simp add: nl_side_def json_field_def json_elements_def bind_opt_def nl_levels_agree parse_side_def)

lemma parse_agrees:
  assumes "libraries_agree jl nl json m" "exchange_format m"
  shows "nlohmann_parse nl json out = Some (parse_depth jl json out)"
proof -
  obtain doc tree where d: "inner_document jl json = Some doc" "describes jl doc m" "nl_parse nl json = Some tree" "unwrap tree = J_Object m"
    and u: "\<And>n. is_uint64 n \<Longrightarrow> nl_uint64 nl (J_Int n) = Some (of_int n)"
    using assms(1) unfolding libraries_agree_def by blast
  have valid: "jl_valid jl doc" and str: "\<And>k. jl_string jl doc k = bind_opt (map_of m k) json_text"
    and num: "\<And>k n. map_of m k = Some (J_Int n) \<Longrightarrow> is_uint64 n \<Longrightarrow> jl_uint64 jl doc k = Some (of_int n)"
    and lev: "\<And>k xs. map_of m k = Some (J_Array xs) \<Longrightarrow> jl_levels jl doc k = Some (map level_view xs)"
    using d(2) unfolding describes_def by blast+
  obtain nE nU nu where f: "map_of m ''E'' = Some (J_Int nE)" "is_uint64 nE" "map_of m ''U'' = Some (J_Int nU)" "is_uint64 nU"
    "map_of m ''u'' = Some (J_Int nu)" "is_uint64 nu"
    using assms(2) by (auto simp: exchange_format_def split: option.splits json.splits)
  obtain s bs as where g: "map_of m ''s'' = Some (J_String s)" "map_of m ''b'' = Some (J_Array bs)" "list_all pair_of_strings bs"
    "map_of m ''a'' = Some (J_Array as)" "list_all pair_of_strings as"
    using assms(2) by (auto simp: exchange_format_def split: option.splits json.splits)
  have n: "nl_number_field nl k (J_Object m) = Some (of_int n)" if "map_of m k = Some (J_Int n)" "is_uint64 n" for k n
    using that by (simp add: nl_number_field_def json_field_def bind_opt_def u)
  show ?thesis
  proof (cases "map_of m ''e'' = Some (J_String ''depthUpdate'')")
    case True
    have jl: "event_document jl ''depthUpdate'' json = Some doc"
      using d(1) valid str [of "''e''"] True by (simp add: event_document_def bind_opt_def json_text_def)
    have "jl_string jl doc ''s'' = Some s" using str [of "''s''"] g(1) by (simp add: bind_opt_def json_text_def)
    then have "parse_depth jl json out = (True, out\<lparr>du_event_time_ms := of_int nE, du_first_update_id := of_int nU,
        du_last_update_id := of_int nu, du_symbol := s,
        du_bids := fst (parse_side (jl_levels jl doc ''b'') (du_bids out)), du_asks := fst (parse_side (jl_levels jl doc ''a'') (du_asks out)),
        du_bid_count := snd (parse_side (jl_levels jl doc ''b'') (du_bids out)), du_ask_count := snd (parse_side (jl_levels jl doc ''a'') (du_asks out))\<rparr>)"
      using jl num f by (simp add: parse_depth_def or_keep_def split: prod.split)
    moreover have "bind_opt (json_field ''s'' (J_Object m)) json_text = Some s"
      by (simp add: json_field_def bind_opt_def json_text_def g(1))
    ultimately show ?thesis
      using d(3,4) True n [OF f(1,2)] n [OF f(3,4)] n [OF f(5,6)]
        nl_side_agree [OF g(2,3) lev [OF g(2)], of "du_bids out"] nl_side_agree [OF g(4,5) lev [OF g(4)], of "du_asks out"]
      by (simp add: nlohmann_parse_def Let_def json_contains_def) (simp add: json_field_def bind_opt_def)
  next
    case False
    have "jl_string jl doc ''e'' \<noteq> Some ''depthUpdate''"
      using str [of "''e''"] False by (auto simp: bind_opt_def json_text_def split: option.splits json.splits)
    then have "parse_depth jl json out = (False, out)" using d(1) by (simp add: parse_depth_def event_document_def)
    then show ?thesis
      using d(3,4) False by (auto simp: nlohmann_parse_def Let_def json_contains_def json_field_def)
  qed
qed

text \<open>C40: on every message in the format of the exchange, wrapped or not, that the two libraries read
  alike, the two parsers of the comparison return the same verdict and the same update, and
  so do any numbers of iterations of their benchmarks.\<close>

theorem parsers_agree:
  assumes "libraries_agree jl nl json m" "exchange_format m"
  shows "nlohmann_parse nl json out = Some (parse_depth jl json out)
    \<and> bm_nlohmann_parse nl json n out = Some (bm_simdjson_parse jl json n out)"
proof -
  note p = parse_agrees [OF assms]
  have "bm_nlohmann_parse nl json n out = Some (bm_simdjson_parse jl json n out)"
    by (induction n arbitrary: out) (simp_all add: p bind_opt_def split: prod.split)
  then show ?thesis using p by simp
qed

section \<open>Where they differ\<close>

text \<open>A price that is a number and not a string: the engine's parser skips the level, the other one
  throws.\<close>

definition numeric_price :: "(string \<times> json) list" where
  "numeric_price = [(''e'', J_String ''depthUpdate''), (''E'', J_Int 5), (''U'', J_Int 1), (''u'', J_Int 2), (''s'', J_String ''BTC''),
     (''b'', J_Array [J_Array [J_Double 1, J_String ''2'']]), (''a'', J_Array [])]"

definition tree_json :: "(string \<times> json) list \<Rightarrow> json_lib" where
  "tree_json m = \<lparr>jl_valid = (\<lambda>d. True), jl_raw = (\<lambda>d k. None), jl_string = (\<lambda>d k. bind_opt (map_of m k) json_text),
     jl_uint64 = (\<lambda>d k. case map_of m k of Some (J_Int n) \<Rightarrow> (if is_uint64 n then Some (of_int n) else None) | _ \<Rightarrow> None),
     jl_bool = (\<lambda>d k. None),
     jl_levels = (\<lambda>d k. case map_of m k of Some (J_Array xs) \<Rightarrow> Some (map level_view xs) | _ \<Rightarrow> None)\<rparr>"

definition tree_nlohmann :: "(string \<times> json) list \<Rightarrow> nlohmann" where
  "tree_nlohmann m = \<lparr>nl_parse = (\<lambda>d. Some (J_Object m)),
     nl_uint64 = (\<lambda>j. case j of J_Int n \<Rightarrow> (if is_uint64 n then Some (of_int n) else None) | _ \<Rightarrow> None)\<rparr>"

lemma trees_agree:
  assumes "map_of m ''data'' = None"
  shows "libraries_agree (tree_json m) (tree_nlohmann m) ''D'' m"
proof -
  have i: "inner_document (tree_json m) ''D'' = Some ''D''" by (simp add: inner_document_def quoted_def)
  have "describes (tree_json m) ''D'' m" by (simp add: describes_def tree_json_def)
  moreover have "unwrap (J_Object m) = J_Object m" using assms by (simp add: unwrap_def json_contains_def)
  moreover have "nl_parse (tree_nlohmann m) ''D'' = Some (J_Object m)" by (simp add: tree_nlohmann_def)
  ultimately have "\<exists>doc tree. inner_document (tree_json m) ''D'' = Some doc \<and> describes (tree_json m) doc m
      \<and> nl_parse (tree_nlohmann m) ''D'' = Some tree \<and> unwrap tree = J_Object m" using i by blast
  moreover have "\<forall>n. is_uint64 n \<longrightarrow> nl_uint64 (tree_nlohmann m) (J_Int n) = Some (of_int n)" by (simp add: tree_nlohmann_def)
  ultimately show ?thesis unfolding libraries_agree_def by blast
qed

theorem baseline_stricter:
  "libraries_agree (tree_json numeric_price) (tree_nlohmann numeric_price) ''D'' numeric_price
   \<and> fst (parse_depth (tree_json numeric_price) ''D'' new_update)
   \<and> nlohmann_parse (tree_nlohmann numeric_price) ''D'' new_update = None"
proof (intro conjI)
  show "libraries_agree (tree_json numeric_price) (tree_nlohmann numeric_price) ''D'' numeric_price"
    by (rule trees_agree) (simp add: numeric_price_def)
  show "fst (parse_depth (tree_json numeric_price) ''D'' new_update)" by code_simp
  show "nlohmann_parse (tree_nlohmann numeric_price) ''D'' new_update = None" by code_simp
qed

section \<open>A concrete message\<close>

definition bench_fields :: "(string \<times> json) list" where
  "bench_fields = [(''e'', J_String ''depthUpdate''), (''E'', J_Int 1672531200000), (''s'', J_String ''BTCUSDT''),
     (''U'', J_Int 100001), (''u'', J_Int 100020),
     (''b'', J_Array [J_Array [J_String ''97850.10'', J_String ''1.234''], J_Array [J_String ''97849.50'', J_String ''0.567'']]),
     (''a'', J_Array [J_Array [J_String ''97851.00'', J_String ''0.890'']])]"

theorem parsers_agree_witness:
  "nlohmann_parse (tree_nlohmann bench_fields) ''D'' new_update = Some (parse_depth (tree_json bench_fields) ''D'' new_update)
   \<and> fst (parse_depth (tree_json bench_fields) ''D'' new_update)
   \<and> du_bid_count (snd (parse_depth (tree_json bench_fields) ''D'' new_update)) = 2"
proof -
  have a: "libraries_agree (tree_json bench_fields) (tree_nlohmann bench_fields) ''D'' bench_fields"
    by (rule trees_agree) (simp add: bench_fields_def)
  have e: "exchange_format bench_fields" by code_simp
  have "fst (parse_depth (tree_json bench_fields) ''D'' new_update)"
    "du_bid_count (snd (parse_depth (tree_json bench_fields) ''D'' new_update)) = 2" by code_simp+
  then show ?thesis using parsers_agree [OF a e, of new_update] by blast
qed

end
