(* ===== verification/Bench_Sample.thy ===== *)
theory Bench_Sample
  imports Bench_Pipeline Bench_Json
begin

text \<open>
  The message that \<open>bench/bench_e2e.cpp\<close> and \<open>bench/bench_json_parse.cpp\<close> feed to their parsers, with
  all its levels, alone and in the envelope of a combined stream. The lemmas say what the
  benchmarks compute with it: the book is the message, and no iteration reaches the code that
  fires a signal.
\<close>

section \<open>The message\<close>

definition sample_bids :: "(string \<times> string) list" where
  "sample_bids = [(''97850.10'', ''1.234''), (''97849.50'', ''0.567''), (''97848.00'', ''2.100''), (''97847.30'', ''0.890''),
     (''97846.00'', ''1.500''), (''97845.20'', ''0.340''), (''97844.10'', ''2.780''), (''97843.50'', ''1.120''),
     (''97842.00'', ''0.450''), (''97841.30'', ''3.200''), (''97840.00'', ''0.670''), (''97839.50'', ''1.890''),
     (''97838.00'', ''0.230''), (''97837.30'', ''2.450''), (''97836.00'', ''1.100''), (''97835.20'', ''0.780''),
     (''97834.10'', ''3.400''), (''97833.50'', ''0.560''), (''97832.00'', ''1.900''), (''97831.30'', ''0.340'')]"

definition sample_asks :: "(string \<times> string) list" where
  "sample_asks = [(''97851.00'', ''0.890''), (''97852.50'', ''1.230''), (''97853.00'', ''2.340''), (''97854.30'', ''0.670''),
     (''97855.00'', ''1.100''), (''97856.20'', ''0.450''), (''97857.10'', ''2.890''), (''97858.50'', ''1.340''),
     (''97859.00'', ''0.780''), (''97860.30'', ''3.100''), (''97861.00'', ''0.560''), (''97862.50'', ''1.670''),
     (''97863.00'', ''0.120''), (''97864.30'', ''2.340''), (''97865.00'', ''1.450''), (''97866.20'', ''0.890''),
     (''97867.10'', ''3.200''), (''97868.50'', ''0.670''), (''97869.00'', ''1.780''), (''97870.30'', ''0.450'')]"

definition level_tree :: "string \<times> string \<Rightarrow> json" where
  "level_tree l = J_Array [J_String (fst l), J_String (snd l)]"

text \<open>The fields of the object, and of the one around it.\<close>

definition SAMPLE_JSON :: "(string \<times> json) list" where
  "SAMPLE_JSON = [(''e'', J_String ''depthUpdate''), (''E'', J_Int 1672531200000), (''s'', J_String ''BTCUSDT''),
     (''U'', J_Int 100001), (''u'', J_Int 100020),
     (''b'', J_Array (map level_tree sample_bids)), (''a'', J_Array (map level_tree sample_asks))]"

definition COMBINED_JSON :: "(string \<times> json) list" where
  "COMBINED_JSON = [(''stream'', J_String ''btcusdt@depth@100ms''), (''data'', J_Object SAMPLE_JSON)]"

definition level_of :: "string \<times> string \<Rightarrow> price_level" where
  "level_of l = \<lparr>lv_price = fast_atof (fst l), lv_qty = fast_atof (snd l)\<rparr>"

definition side_of :: "(string \<times> string) list \<Rightarrow> side" where
  "side_of ls = map (\<lambda>l. (fast_atof (fst l), fast_atof (snd l))) ls"

text \<open>The sides as the doubles they are.\<close>

definition bid_side :: side where
  "bid_side = [(Double 4681460620881140122, Double 4608236261112822104), (Double 4681460579649454080, Double 4603282301522714558),
    (Double 4681460476570238976, Double 4611911198408756429), (Double 4681460428466605261, Double 4606191626881995899),
    (Double 4681460339131285504, Double 4609434218613702656), (Double 4681460284155704115, Double 4599796515411129795),
    (Double 4681460208564279706, Double 4613442422282062397), (Double 4681460167332593664, Double 4607722850755301868),
    (Double 4681460064253378560, Double 4601778099247172813), (Double 4681460016149744845, Double 4614388178203810202),
    (Double 4681459926814425088, Double 4604210043045952881), (Double 4681459892454686720, Double 4611190622468377149),
    (Double 4681459789375471616, Double 4597454643604897137), (Double 4681459741271837901, Double 4612699328343546266),
    (Double 4681459651936518144, Double 4607632778762754458), (Double 4681459596960936755, Double 4605200834963974390),
    (Double 4681459521369512346, Double 4614838538166547251), (Double 4681459480137826304, Double 4603219251127931372),
    (Double 4681459377058611200, Double 4611235658464650854), (Double 4681459328954977485, Double 4599796515411129795)]"

definition ask_side :: side where
  "ask_side = [(Double 4681460682728669184, Double 4606191626881995899), (Double 4681460785807884288, Double 4608218246714312622),
    (Double 4681460820167622656, Double 4612451630364040888), (Double 4681460909502942413, Double 4604210043045952881),
    (Double 4681460957606576128, Double 4607632778762754458), (Double 4681461040069948211, Double 4601778099247172813),
    (Double 4681461101917477274, Double 4613690120261567775), (Double 4681461198124744704, Double 4608713642673323377),
    (Double 4681461232484483072, Double 4605200834963974390), (Double 4681461321819802829, Double 4614162998222441677),
    (Double 4681461369923436544, Double 4603219251127931372), (Double 4681461473002651648, Double 4610199830550355640),
    (Double 4681461507362390016, Double 4593311331947716280), (Double 4681461596697709773, Double 4612451630364040888),
    (Double 4681461644801343488, Double 4609209038632334131), (Double 4681461727264715571, Double 4606191626881995899),
    (Double 4681461789112244634, Double 4614388178203810202), (Double 4681461885319512064, Double 4604210043045952881),
    (Double 4681461919679250432, Double 4610695226509366395), (Double 4681462009014570189, Double 4601778099247172813)]"

lemma bid_values: "side_of sample_bids = bid_side"
  by code_simp

lemma ask_values: "side_of sample_asks = ask_side"
  by code_simp

section \<open>A message in the order of the book\<close>

text \<open>Levels in strict order, none of them NaN or with quantity zero: applied to an empty side they are
  the side, and applied again they change nothing.\<close>

definition in_order :: "(double \<Rightarrow> double \<Rightarrow> bool) \<Rightarrow> side \<Rightarrow> bool" where
  "in_order before m \<longleftrightarrow> sorted_wrt (\<lambda>p q. before p q \<and> \<not> before q p) (map fst m)
     \<and> list_all (\<lambda>(p, q). \<not> d_nan p \<and> \<not> before p p \<and> \<not> d_eq q 0) m"

lemma insert_last:
  "\<forall>p\<in>fst ` set m. before p k \<and> \<not> before k p \<Longrightarrow> map_insert before k v m = m @ [(k, v)]"
  by (induction m) auto

lemma insert_present:
  "sorted_wrt (\<lambda>p q. before p q \<and> \<not> before q p) (map fst m) \<Longrightarrow> (k, v) \<in> set m \<Longrightarrow> \<not> before k k \<Longrightarrow>
     map_insert before k v m = m"
  by (induction m) (auto simp: image_iff)

definition levels_of :: "side \<Rightarrow> price_level list" where
  "levels_of m = map (\<lambda>(p, q). \<lparr>lv_price = p, lv_qty = q\<rparr>) m"

lemma levels_simps [simp]:
  "levels_of [] = []" "levels_of ((p, q) # m) = \<lparr>lv_price = p, lv_qty = q\<rparr> # levels_of m"
  by (simp_all add: levels_of_def)

lemma ordered_side:
  assumes "in_order before (m1 @ m2)"
  shows "fold_res (apply_level before) (levels_of m2) m1 = Inr (m1 @ m2)"
  using assms
proof (induction m2 arbitrary: m1)
  case (Cons l m2)
  obtain p q where l: "l = (p, q)" by fastforce
  have "map_insert before p q m1 = m1 @ [(p, q)]"
    using Cons.prems by (intro insert_last) (auto simp: in_order_def l sorted_wrt_append)
  then have "apply_level before \<lparr>lv_price = p, lv_qty = q\<rparr> m1 = Inr (m1 @ [(p, q)])"
    using Cons.prems by (simp add: apply_level_def in_order_def l)
  then show ?case using Cons.IH [of "m1 @ [(p, q)]"] Cons.prems by (simp add: l)
qed simp

lemma ordered_again:
  assumes "in_order before m" "set m2 \<subseteq> set m"
  shows "fold_res (apply_level before) (levels_of m2) m = Inr m"
  using assms(2)
proof (induction m2)
  case (Cons l m2)
  obtain p q where l: "l = (p, q)" by fastforce
  then have mem: "(p, q) \<in> set m" using Cons.prems by simp
  then have "\<not> d_nan p \<and> \<not> before p p \<and> \<not> d_eq q 0" using assms(1) by (auto simp: in_order_def list_all_iff)
  moreover have "map_insert before p q m = m" using assms(1) mem calculation by (intro insert_present) (auto simp: in_order_def)
  ultimately have "apply_level before \<lparr>lv_price = p, lv_qty = q\<rparr> m = Inr m" by (simp add: apply_level_def)
  then show ?case using Cons by (simp add: l)
qed simp

lemma side_order:
  assumes "sorted_wrt (\<lambda>a b. b < a) (map (d_key \<circ> fst) m)" "list_all (\<lambda>(p, q). \<not> d_nan p \<and> d_key q \<noteq> 0) m"
  shows "in_order greater_price m"
  using assms by (induction m) (auto simp: in_order_def greater_price_def less_double_def d_eq_def list_all_iff)

lemma side_order_up:
  assumes "sorted_wrt (<) (map (d_key \<circ> fst) m)" "list_all (\<lambda>(p, q). \<not> d_nan p \<and> d_key q \<noteq> 0) m"
  shows "in_order less_price m"
  using assms by (induction m) (auto simp: in_order_def less_price_def less_double_def d_eq_def list_all_iff)

lemma sample_order: "in_order greater_price bid_side" "in_order less_price ask_side"
  by (intro side_order side_order_up; simp add: bid_side_def ask_side_def d_key_def d_sign_def d_mag_def d_nan_def inf_mag_def)+

section \<open>The parsed message\<close>

text \<open>What the libraries are asked to read: the hypothesis of the lemmas on the benchmarks.\<close>

definition reads_sample :: "json_lib \<Rightarrow> string \<Rightarrow> bool" where
  "reads_sample jl json \<longleftrightarrow> (\<exists>doc. inner_document jl json = Some doc \<and> describes jl doc SAMPLE_JSON)"

definition sample_parsed :: "depth_update \<Rightarrow> bool" where
  "sample_parsed u \<longleftrightarrow> wf_update u \<and> counted_bids u = levels_of bid_side \<and> counted_asks u = levels_of ask_side
     \<and> du_last_update_id u = 100020 \<and> du_symbol u = ''BTCUSDT''"

lemma sample_fields:
  "map_of SAMPLE_JSON ''e'' = Some (J_String ''depthUpdate'')" "map_of SAMPLE_JSON ''s'' = Some (J_String ''BTCUSDT'')"
  "map_of SAMPLE_JSON ''u'' = Some (J_Int 100020)" "map_of SAMPLE_JSON ''data'' = None"
  "map_of SAMPLE_JSON ''b'' = Some (J_Array (map level_tree sample_bids))"
  "map_of SAMPLE_JSON ''a'' = Some (J_Array (map level_tree sample_asks))"
  by (simp_all add: SAMPLE_JSON_def)

lemma is_uint64_100020: "is_uint64 100020"
  by (simp add: is_uint64_def)

lemma level_view_tree: "level_pair (level_view (level_tree l)) = Some \<lparr>lv_price = fast_atof (fst l), lv_qty = fast_atof (snd l)\<rparr>"
  by (simp add: level_tree_def level_view_def level_pair_def json_text_def)

lemma valid_trees: "valid_levels (Some (map level_view (map level_tree ls))) = levels_of (side_of ls)"
  by (simp add: valid_levels_def List.map_filter_def level_view_tree levels_of_def side_of_def comp_def)

lemma sample_lengths: "length sample_bids = 20" "length sample_asks = 20" "length bid_side = 20" "length ask_side = 20"
  by (simp_all add: sample_bids_def sample_asks_def bid_side_def ask_side_def)

lemma sample_nonempty [simp]: "bid_side \<noteq> []" "ask_side \<noteq> []"
  using sample_lengths by auto

lemma parses_sample:
  assumes "reads_sample jl json" "length (du_bids out) = MAX_LEVELS" "length (du_asks out) = MAX_LEVELS"
  obtains u where "parse_depth jl json out = (True, u)" "sample_parsed u"
proof -
  obtain doc where doc: "inner_document jl json = Some doc" and d: "describes jl doc SAMPLE_JSON"
    using assms(1) by (auto simp: reads_sample_def)
  have str: "jl_string jl doc ''e'' = Some ''depthUpdate''" "jl_string jl doc ''s'' = Some ''BTCUSDT''"
    using d by (simp_all add: describes_def sample_fields bind_opt_def json_text_def)
  have "jl_uint64 jl doc ''u'' = Some (of_int 100020)"
    using d sample_fields(3) unfolding describes_def by (elim conjE) (metis is_uint64_100020)
  then have last_id: "jl_uint64 jl doc ''u'' = Some 100020" by simp
  have lev: "jl_levels jl doc ''b'' = Some (map level_view (map level_tree sample_bids))"
    "jl_levels jl doc ''a'' = Some (map level_view (map level_tree sample_asks))"
    using d sample_fields(5,6) by (simp_all add: describes_def)
  have ev: "event_document jl ''depthUpdate'' json = Some doc"
    using doc d str(1) by (simp add: event_document_def describes_def)
  define u where "u = snd (parse_depth jl json out)"
  have u: "parse_depth jl json out = (True, u)" "du_last_update_id u = 100020" "du_symbol u = ''BTCUSDT''"
    using ev by (simp_all add: u_def parse_depth_def last_id str or_keep_def split: prod.split)
  from parse_depth_levels [OF assms(2,3) u(1)] ev have
    "wf_update u \<and> counted_bids u = take MAX_LEVELS (levels_of bid_side) \<and> counted_asks u = take MAX_LEVELS (levels_of ask_side)"
    by (auto simp only: lev valid_trees bid_values ask_values option.inject)
  then have "sample_parsed u" using u(2,3) by (simp add: sample_parsed_def levels_of_def sample_lengths MAX_LEVELS_def)
  then show thesis using that u(1) by blast
qed

text \<open>The book after a number of applications of the message.\<close>

definition sample_book_after :: "nat \<Rightarrow> order_book" where
  "sample_book_after n = (if n = 0 then new_book ''BTCUSDT''
     else \<lparr>ob_symbol = ''BTCUSDT'', ob_bids = side_of sample_bids, ob_asks = side_of sample_asks,
            ob_last_update_id = 100020, ob_update_count = of_nat n\<rparr>)"

lemma apply_sample:
  assumes "sample_parsed u"
  shows "apply_update u (sample_book_after n) = Inr (sample_book_after (Suc n))"
proof -
  have sides: "apply_levels greater_price (du_bids u) 0 (unat (du_bid_count u)) m = fold_res (apply_level greater_price) (levels_of bid_side) m"
    "apply_levels less_price (du_asks u) 0 (unat (du_ask_count u)) m = fold_res (apply_level less_price) (levels_of ask_side) m" for m
    using assms by (simp_all add: sample_parsed_def wf_update_def apply_levels_fold flip: counted_bids_def counted_asks_def)
  have first: "fold_res (apply_level greater_price) (levels_of bid_side) [] = Inr bid_side"
    "fold_res (apply_level less_price) (levels_of ask_side) [] = Inr ask_side"
    using ordered_side [of greater_price "[]" bid_side] ordered_side [of less_price "[]" ask_side] sample_order by simp_all
  have again: "fold_res (apply_level greater_price) (levels_of bid_side) bid_side = Inr bid_side"
    "fold_res (apply_level less_price) (levels_of ask_side) ask_side = Inr ask_side"
    using ordered_again sample_order by blast+
  show ?thesis using assms
    by (auto simp: apply_update_def sides first again sample_book_after_def new_book_def sample_parsed_def bid_values ask_values)
qed

section \<open>The benchmarks with this message\<close>

text \<open>The spread of the book is below 50 and its imbalance below 0.7.\<close>

lemma sample_quiet:
  assumes "0 < n"
  shows "\<not> double_of_int 50 < spread (sample_book_after n)" "\<not> double_lit 7 10 < book_imbalance (sample_book_after n)"
proof -
  have "\<not> double_of_int 50 < spread \<lparr>ob_symbol = [], ob_bids = bid_side, ob_asks = ask_side, ob_last_update_id = 0, ob_update_count = 0\<rparr>"
    by code_simp
  then show "\<not> double_of_int 50 < spread (sample_book_after n)" using assms
    by (simp add: spread_def best_ask_price_def best_bid_price_def sample_book_after_def bid_values ask_values)
  have "\<not> double_lit 7 10 < book_imbalance \<lparr>ob_symbol = [], ob_bids = bid_side, ob_asks = ask_side, ob_last_update_id = 0, ob_update_count = 0\<rparr>"
    by code_simp
  then show "\<not> double_lit 7 10 < book_imbalance (sample_book_after n)" using assms
    by (simp add: book_imbalance_def total_bid_qty_def total_ask_qty_def sample_book_after_def bid_values ask_values)
qed

lemma bench_conditions: "det_conditions bench_detector =
    [\<lparr>cond_type = SPREAD_WIDE, cond_threshold = double_of_int 50, cond_cooldown_us = default_cooldown\<rparr>,
     \<lparr>cond_type = IMBALANCE_BID, cond_threshold = double_lit 7 10, cond_cooldown_us = default_cooldown\<rparr>]"
  by (simp add: bench_detector_def add_condition_def new_detector_def)

lemma no_signals:
  assumes "be_detector be = bench_detector" "be_book be = sample_book_after n" "0 < n" "be_agg be = agg_update (be_book be) a"
  shows "bench_signals be = be"
  using assms sample_quiet [OF assms(3)]
  by (simp add: bench_signals_def evaluate_def bench_conditions eval_condition_cases condition_value_def agg_update_snapshot)

definition at_iteration :: "nat \<Rightarrow> depth_update \<times> bench_engine \<Rightarrow> bool" where
  "at_iteration n st \<longleftrightarrow> length (du_bids (fst st)) = MAX_LEVELS \<and> length (du_asks (fst st)) = MAX_LEVELS
     \<and> be_book (snd st) = sample_book_after n \<and> be_detector (snd st) = bench_detector \<and> be_signal_count (snd st) = 0"

lemma single_iteration_sample:
  assumes "reads_sample jl json" "at_iteration n st"
  obtains t st' where "single_iteration jl json st = Inr (t, st')" "at_iteration (Suc n) st'"
proof -
  obtain u where u: "parse_depth jl json (fst st) = (True, u)" "sample_parsed u"
    using parses_sample [OF assms(1)] assms(2) by (auto simp: at_iteration_def)
  define be where "be = (snd st)\<lparr>be_book := sample_book_after (Suc n),
    be_agg := agg_update (sample_book_after (Suc n)) (be_agg (snd st))\<rparr>"
  have quiet: "bench_signals (be\<lparr>be_clock := c\<rparr>) = be\<lparr>be_clock := c\<rparr>" for c
    using assms(2) by (intro no_signals [of _ "Suc n"]) (simp_all add: be_def at_iteration_def)
  have frame: "(snd st)\<lparr>be_book := b, be_clock := c, be_agg := a\<rparr> = (snd st)\<lparr>be_book := b, be_agg := a, be_clock := c\<rparr>"
    "(snd st)\<lparr>be_clock := c, be_book := b, be_agg := a\<rparr> = (snd st)\<lparr>be_book := b, be_agg := a, be_clock := c\<rparr>" for a b c by simp_all
  obtain t c where "single_iteration jl json st = Inr (t, u, be\<lparr>be_clock := c\<rparr>)"
    using assms(2) u apply_sample [OF u(2), of n] quiet
    by (simp add: single_iteration_def bench_now_def now_def Let_def at_iteration_def be_def)
  moreover have "at_iteration (Suc n) (u, be\<lparr>be_clock := c\<rparr>)"
    using u(2) assms(2) by (simp add: at_iteration_def sample_parsed_def wf_update_def be_def)
  ultimately show thesis using that by blast
qed

text \<open>The benchmark of one thread on its own message, for any number of iterations: nothing is undefined,
  each iteration is timed, the book holds exactly the levels of the message in its order, and
  no condition ever triggers, so that the code that fires a signal is not measured.\<close>

theorem single_thread_sample:
  assumes "reads_sample jl json"
  shows "\<exists>ts u be. single_loop jl json n (new_update, new_bench clk) = Inr (ts, u, be) \<and> length ts = n
    \<and> be_book be = sample_book_after n \<and> be_signal_count be = 0"
proof -
  have loop: "\<exists>ts st'. single_loop jl json n st = Inr (ts, st') \<and> length ts = n \<and> at_iteration (k + n) st'"
    if "at_iteration k st" for k n st
    using that
  proof (induction n arbitrary: k st)
    case (Suc n)
    obtain t st1 where st1: "single_iteration jl json st = Inr (t, st1)" "at_iteration (Suc k) st1"
      using single_iteration_sample [OF assms Suc.prems] by blast
    then show ?case using Suc.IH [OF st1(2)] by auto
  qed simp
  have "at_iteration 0 (new_update, new_bench clk)"
    by (simp add: at_iteration_def sample_book_after_def new_bench_def new_update_def)
  from loop [OF this, of n] show ?thesis by (auto simp: at_iteration_def)
qed

text \<open>The envelope of the combined stream is taken off by the second parser as by the first.\<close>

lemma unwrap_combined: "unwrap (J_Object COMBINED_JSON) = J_Object SAMPLE_JSON" "unwrap (J_Object SAMPLE_JSON) = J_Object SAMPLE_JSON"
  by (simp_all add: unwrap_def json_contains_def json_field_def COMBINED_JSON_def sample_fields)

lemma sample_exchange: "exchange_format SAMPLE_JSON"
proof -
  have "list_all pair_of_strings (map level_tree ls)" for ls by (simp add: list_all_iff level_tree_def)
  then show ?thesis by (simp add: exchange_format_def SAMPLE_JSON_def is_uint64_def)
qed

lemma agree_reads: "libraries_agree jl nl json SAMPLE_JSON \<Longrightarrow> reads_sample jl json"
  by (auto simp: libraries_agree_def reads_sample_def)

text \<open>The four parser benchmarks, on the message alone or in the envelope: every iteration of either
  parser accepts it, and both leave the same update, with all twenty levels of each side.\<close>

theorem parse_benchmarks_sample:
  assumes "libraries_agree jl nl json SAMPLE_JSON"
  shows "\<exists>u. bm_simdjson_parse jl json (Suc n) new_update = (replicate (Suc n) True, u)
    \<and> bm_nlohmann_parse nl json (Suc n) new_update = Some (replicate (Suc n) True, u)
    \<and> counted_bids u = map level_of sample_bids \<and> counted_asks u = map level_of sample_asks"
proof -
  note reads = agree_reads [OF assms]
  have sim: "\<exists>u. bm_simdjson_parse jl json (Suc n) out = (replicate (Suc n) True, u) \<and> sample_parsed u"
    if "length (du_bids out) = MAX_LEVELS" "length (du_asks out) = MAX_LEVELS" for n out
    using that
  proof (induction n arbitrary: out)
    case 0
    then show ?case by (rule parses_sample [OF reads]) simp
  next
    case (Suc n)
    obtain u1 where u1: "parse_depth jl json out = (True, u1)" "sample_parsed u1" by (rule parses_sample [OF reads Suc.prems])
    then obtain u where "bm_simdjson_parse jl json (Suc n) u1 = (replicate (Suc n) True, u)" "sample_parsed u"
      using Suc.IH [of u1] by (auto simp: sample_parsed_def wf_update_def)
    then show ?case using u1(1) by simp
  qed
  have same: "bm_nlohmann_parse nl json k out = Some (bm_simdjson_parse jl json k out)" for k out
    by (induction k arbitrary: out) (simp_all add: parse_agrees [OF assms sample_exchange] bind_opt_def split: prod.split)
  obtain u where u: "bm_simdjson_parse jl json (Suc n) new_update = (replicate (Suc n) True, u)" "sample_parsed u"
    using sim [of new_update n] by (auto simp: new_update_def)
  moreover have "levels_of bid_side = map level_of sample_bids" "levels_of ask_side = map level_of sample_asks"
    by (simp_all add: levels_of_def side_of_def level_of_def comp_def flip: bid_values ask_values)
  ultimately show ?thesis using same [of "Suc n" new_update] by (auto simp: sample_parsed_def simp del: bm_simdjson_parse.simps bm_nlohmann_parse.simps)
qed

section \<open>Libraries that read it\<close>

lemma sample_libraries: "libraries_agree (tree_json SAMPLE_JSON) (tree_nlohmann SAMPLE_JSON) ''D'' SAMPLE_JSON"
  by (rule trees_agree) (rule sample_fields)

theorem single_thread_sample_witness:
  "\<exists>ts u be. single_loop (tree_json SAMPLE_JSON) ''D'' 1000 (new_update, new_bench sample_clock) = Inr (ts, u, be)
    \<and> length (ob_bids (be_book be)) = 20 \<and> ob_update_count (be_book be) = 1000"
  using single_thread_sample [OF agree_reads [OF sample_libraries], of 1000 sample_clock]
  by (fastforce simp: sample_book_after_def side_of_def sample_lengths)

theorem parse_benchmarks_sample_witness:
  "\<exists>u. bm_nlohmann_parse (tree_nlohmann SAMPLE_JSON) ''D'' 3 new_update = Some ([True, True, True], u) \<and> length (counted_bids u) = 20"
  using parse_benchmarks_sample [OF sample_libraries, of 2]
  by (fastforce simp: sample_lengths numeral_3_eq_3 numeral_2_eq_2 simp del: bm_nlohmann_parse.simps bm_simdjson_parse.simps)

end
